(* ===== verification/Go_Text.thy ===== *)
theory Go_Text
  imports Prelude
begin

text \<open>
  The parts of Go's \<^verbatim>\<open>strings\<close>, \<^verbatim>\<open>strconv\<close> and \<^verbatim>\<open>fmt\<close> packages that the components call.
  A Go string is a sequence of bytes, so it is a \<open>string\<close> (a list of 8-bit characters).
  \<^verbatim>\<open>TrimSpace\<close> knows the UTF-8 encodings of every Unicode white space code point.
  \<^verbatim>\<open>ToLower\<close> and \<^verbatim>\<open>EqualFold\<close> are modelled on ASCII letters; bytes from 0x80 are left as
  they are.
\<close>

subsection \<open>Spaces\<close>

definition space_encodings :: "string list" where
  "space_encodings =
     [[CHR 0x09], [CHR 0x0A], [CHR 0x0B], [CHR 0x0C], [CHR 0x0D], [CHR 0x20],
      [CHR 0xC2, CHR 0x85], [CHR 0xC2, CHR 0xA0], [CHR 0xE1, CHR 0x9A, CHR 0x80],
      [CHR 0xE2, CHR 0x80, CHR 0x80], [CHR 0xE2, CHR 0x80, CHR 0x81],
      [CHR 0xE2, CHR 0x80, CHR 0x82], [CHR 0xE2, CHR 0x80, CHR 0x83],
      [CHR 0xE2, CHR 0x80, CHR 0x84], [CHR 0xE2, CHR 0x80, CHR 0x85],
      [CHR 0xE2, CHR 0x80, CHR 0x86], [CHR 0xE2, CHR 0x80, CHR 0x87],
      [CHR 0xE2, CHR 0x80, CHR 0x88], [CHR 0xE2, CHR 0x80, CHR 0x89],
      [CHR 0xE2, CHR 0x80, CHR 0x8A], [CHR 0xE2, CHR 0x80, CHR 0xA8],
      [CHR 0xE2, CHR 0x80, CHR 0xA9], [CHR 0xE2, CHR 0x80, CHR 0xAF],
      [CHR 0xE2, CHR 0x81, CHR 0x9F], [CHR 0xE3, CHR 0x80, CHR 0x80]]"

definition has_prefix :: "string \<Rightarrow> string \<Rightarrow> bool" where
  "has_prefix s p \<longleftrightarrow> take (length p) s = p"

definition has_suffix :: "string \<Rightarrow> string \<Rightarrow> bool" where
  "has_suffix s p \<longleftrightarrow> has_prefix (rev s) (rev p)"

definition leading_space :: "string \<Rightarrow> string option" where
  "leading_space s = find (has_prefix s) space_encodings"

definition trailing_space :: "string \<Rightarrow> string option" where
  "trailing_space s = find (has_suffix s) space_encodings"

lemma space_encodings_nonempty: "w \<in> set space_encodings \<Longrightarrow> 0 < length w"
  by (auto simp: space_encodings_def)

lemma has_prefix_length: "has_prefix s p \<Longrightarrow> length p \<le> length s"
  unfolding has_prefix_def by (metis length_take min.cobounded1)

lemma leading_space_len: "leading_space s = Some w \<Longrightarrow> 0 < length w \<and> length w \<le> length s"
  by (auto simp: leading_space_def dest!: find_Some_mem has_prefix_length space_encodings_nonempty)

lemma trailing_space_len: "trailing_space s = Some w \<Longrightarrow> 0 < length w \<and> length w \<le> length s"
  by (auto simp: trailing_space_def has_suffix_def
      dest!: find_Some_mem has_prefix_length space_encodings_nonempty)

lemma leading_space_shrink: "leading_space s = Some w \<Longrightarrow> length (drop (length w) s) < length s"
  using leading_space_len [of s w] by (simp del: length_greater_0_conv)

lemma trailing_space_shrink: "trailing_space s = Some w \<Longrightarrow> length (take (length s - length w) s) < length s"
  using trailing_space_len [of s w] by (simp del: length_greater_0_conv)

function trim_left :: "string \<Rightarrow> string" where
  "trim_left s = (case leading_space s of None \<Rightarrow> s | Some w \<Rightarrow> trim_left (drop (length w) s))"
  by pat_completeness auto
termination
  by (relation "measure length") (simp_all add: leading_space_shrink del: length_drop)

function trim_right :: "string \<Rightarrow> string" where
  "trim_right s =
     (case trailing_space s of None \<Rightarrow> s | Some w \<Rightarrow> trim_right (take (length s - length w) s))"
  by pat_completeness auto
termination
  by (relation "measure length") (simp_all add: trailing_space_shrink del: length_take)

declare trim_left.simps [simp del] trim_right.simps [simp del]

definition trim_space :: "string \<Rightarrow> string" where
  "trim_space s = trim_right (trim_left s)"

lemma trim_left_no_space: "leading_space (trim_left s) = None"
  by (induction s rule: trim_left.induct) (subst trim_left.simps, auto split: option.splits)

lemma trim_right_no_space: "trailing_space (trim_right s) = None"
  by (induction s rule: trim_right.induct) (subst trim_right.simps, auto split: option.splits)

lemma trim_right_prefix: "\<exists>n. trim_right s = take n s"
proof (induction s rule: trim_right.induct)
  case (1 s)
  show ?case
  proof (cases "trailing_space s")
    case None
    then show ?thesis by (intro exI [of _ "length s"]) (subst trim_right.simps, simp)
  next
    case (Some w)
    with 1 obtain n where "trim_right (take (length s - length w) s) = take n (take (length s - length w) s)"
      by blast
    with Some show ?thesis by (subst trim_right.simps) (auto simp: take_take)
  qed
qed

lemma has_prefix_take: "has_prefix (take n s) w \<Longrightarrow> has_prefix s w"
  using has_prefix_length [of "take n s" w] by (simp add: has_prefix_def min_def split: if_splits)

lemma leading_space_take: "leading_space s = None \<Longrightarrow> leading_space (take n s) = None"
  unfolding leading_space_def find_None_iff by (blast dest: has_prefix_take)

lemma trim_space_no_leading: "leading_space (trim_space s) = None"
  by (metis trim_space_def trim_right_prefix leading_space_take trim_left_no_space)

lemma trim_space_idem [simp]: "trim_space (trim_space s) = trim_space s"
proof -
  have "trim_left (trim_space s) = trim_space s"
    by (subst trim_left.simps) (simp add: trim_space_no_leading)
  moreover have "trim_right (trim_space s) = trim_space s"
    by (subst trim_right.simps) (simp add: trim_space_def trim_right_no_space)
  ultimately show ?thesis by (simp add: trim_space_def [of "trim_space s"])
qed

lemma trim_space_Nil [simp]: "trim_space [] = []"
proof -
  have "leading_space [] = None" "trailing_space [] = None"
    by (auto simp: leading_space_def trailing_space_def has_prefix_def has_suffix_def space_encodings_def)
  then show ?thesis by (simp add: trim_space_def trim_left.simps [of "[]"] trim_right.simps [of "[]"])
qed

subsection \<open>Case, search and joining\<close>

definition lower_char :: "char \<Rightarrow> char" where
  "lower_char c =
     (if 65 \<le> (of_char c :: nat) \<and> (of_char c :: nat) \<le> 90 then char_of ((of_char c :: nat) + 32) else c)"

definition to_lower :: "string \<Rightarrow> string" where
  "to_lower s = map lower_char s"

definition equal_fold :: "string \<Rightarrow> string \<Rightarrow> bool" where
  "equal_fold a b \<longleftrightarrow> to_lower a = to_lower b"

fun contains_sub :: "string \<Rightarrow> string \<Rightarrow> bool" where
  "contains_sub [] p = (p = [])"
| "contains_sub (c # s) p = (has_prefix (c # s) p \<or> contains_sub s p)"

fun join_strings :: "string list \<Rightarrow> string \<Rightarrow> string" where
  "join_strings [] sep = []"
| "join_strings [s] sep = s"
| "join_strings (s # ss) sep = s @ sep @ join_strings ss sep"

definition newline :: char where
  "newline = CHR 0x0A"

definition newlines :: "nat \<Rightarrow> string" where
  "newlines n = replicate n newline"

lemma lower_char_idem [simp]: "lower_char (lower_char c) = lower_char c"
proof (cases "65 \<le> (of_char c :: nat) \<and> (of_char c :: nat) \<le> 90")
  case True
  then have "lower_char c = char_of ((of_char c :: nat) + 32)" and
    "(of_char (char_of ((of_char c :: nat) + 32)) :: nat) = of_char c + 32"
    by (simp_all add: lower_char_def)
  with True show ?thesis by (simp add: lower_char_def)
next
  case False
  then have "lower_char c = c" unfolding lower_char_def by (rule if_not_P)
  then show ?thesis by simp
qed

lemma to_lower_idem [simp]: "to_lower (to_lower s) = to_lower s"
  by (simp add: to_lower_def)

lemma to_lower_Nil [simp]: "to_lower [] = []" and to_lower_eq_Nil [simp]: "to_lower s = [] \<longleftrightarrow> s = []"
  by (simp_all add: to_lower_def)

text \<open>Lowering the case of a string neither adds nor removes white space.\<close>

lemma lower_char_other:
  assumes "\<not> (65 \<le> (of_char p :: nat) \<and> (of_char p :: nat) \<le> 90)" "\<not> (97 \<le> (of_char p :: nat) \<and> (of_char p :: nat) \<le> 122)"
  shows "lower_char c = p \<longleftrightarrow> c = p"
proof (cases "65 \<le> (of_char c :: nat) \<and> (of_char c :: nat) \<le> 90")
  case True
  then have l: "lower_char c = char_of ((of_char c :: nat) + 32)" and
    "(of_char (char_of ((of_char c :: nat) + 32) :: char) :: nat) = of_char c + 32"
    by (simp_all add: lower_char_def)
  then have "lower_char c \<noteq> p" "c \<noteq> p" using True assms by auto
  then show ?thesis by simp
next
  case False
  then have "lower_char c = c" unfolding lower_char_def by (rule if_not_P)
  then show ?thesis by simp
qed

lemma space_bytes: "list_all (list_all (\<lambda>p. \<not> (65 \<le> (of_char p :: nat) \<and> (of_char p :: nat) \<le> 90) \<and>
    \<not> (97 \<le> (of_char p :: nat) \<and> (of_char p :: nat) \<le> 122))) space_encodings"
  by (simp add: space_encodings_def)

lemma map_lower_space:
  "list_all (\<lambda>p. \<not> (65 \<le> (of_char p :: nat) \<and> (of_char p :: nat) \<le> 90) \<and>
     \<not> (97 \<le> (of_char p :: nat) \<and> (of_char p :: nat) \<le> 122)) w \<Longrightarrow> map lower_char s = w \<longleftrightarrow> s = w"
proof (induction w arbitrary: s)
  case (Cons p w)
  then show ?case by (cases s) (simp_all add: lower_char_other)
qed simp

lemma has_prefix_to_lower: "w \<in> set space_encodings \<Longrightarrow> has_prefix (to_lower s) w = has_prefix s w"
  unfolding has_prefix_def to_lower_def take_map
  using space_bytes by (intro map_lower_space) (auto simp: list_all_iff)

lemma has_suffix_to_lower: "w \<in> set space_encodings \<Longrightarrow> has_suffix (to_lower s) w = has_suffix s w"
  unfolding has_suffix_def has_prefix_def to_lower_def rev_map take_map
  using space_bytes by (intro map_lower_space) (auto simp: list_all_iff)

lemma find_cong_set: "(\<And>x. x \<in> set xs \<Longrightarrow> P x = Q x) \<Longrightarrow> find P xs = find Q xs"
  by (induction xs) auto

lemma leading_space_to_lower [simp]: "leading_space (to_lower s) = leading_space s"
  unfolding leading_space_def by (intro find_cong_set has_prefix_to_lower)

lemma trailing_space_to_lower [simp]: "trailing_space (to_lower s) = trailing_space s"
  unfolding trailing_space_def by (intro find_cong_set has_suffix_to_lower)

lemma trim_left_to_lower: "trim_left (to_lower s) = to_lower (trim_left s)"
proof (induction s rule: trim_left.induct)
  case (1 s)
  show ?case
  proof (cases "leading_space s")
    case None
    then show ?thesis by (simp add: trim_left.simps [of s] trim_left.simps [of "to_lower s"])
  next
    case (Some w)
    have "drop (length w) (to_lower s) = to_lower (drop (length w) s)" by (simp add: to_lower_def drop_map)
    with Some 1 show ?thesis by (simp add: trim_left.simps [of s] trim_left.simps [of "to_lower s"])
  qed
qed

lemma trim_right_to_lower: "trim_right (to_lower s) = to_lower (trim_right s)"
proof (induction s rule: trim_right.induct)
  case (1 s)
  show ?case
  proof (cases "trailing_space s")
    case None
    then show ?thesis by (simp add: trim_right.simps [of s] trim_right.simps [of "to_lower s"])
  next
    case (Some w)
    have "take (length (to_lower s) - length w) (to_lower s) = to_lower (take (length s - length w) s)"
      by (simp add: to_lower_def take_map)
    with Some 1 show ?thesis by (simp add: trim_right.simps [of s] trim_right.simps [of "to_lower s"])
  qed
qed

lemma trim_space_to_lower: "trim_space (to_lower s) = to_lower (trim_space s)"
  by (simp add: trim_space_def trim_left_to_lower trim_right_to_lower)

lemma lower_trim_idem [simp]: "to_lower (trim_space (to_lower (trim_space s))) = to_lower (trim_space s)"
  by (simp add: trim_space_to_lower)

subsection \<open>Numerals\<close>

definition digits36 :: string where
  "digits36 = ''0123456789abcdefghijklmnopqrstuvwxyz''"

definition digit36 :: "nat \<Rightarrow> char" where
  "digit36 d = digits36 ! d"

text \<open>The value of a digit in \<^verbatim>\<open>strconv.ParseUint\<close>, which also takes upper case letters.\<close>

definition digit_value :: "char \<Rightarrow> nat option" where
  "digit_value c =
     (let n = of_char c :: nat in
      if 48 \<le> n \<and> n \<le> 57 then Some (n - 48)
      else if 97 \<le> n \<and> n \<le> 122 then Some (n - 97 + 10)
      else if 65 \<le> n \<and> n \<le> 90 then Some (n - 65 + 10)
      else None)"

text \<open>Positional notation: \<open>format_base b n\<close> is the numeral of \<open>n\<close>, most significant digit first.\<close>

fun format_base_acc :: "nat \<Rightarrow> nat \<Rightarrow> string \<Rightarrow> string" where
  "format_base_acc b n acc =
     (if 1 < b \<and> 0 < n then format_base_acc b (n div b) (digit36 (n mod b) # acc) else acc)"

declare format_base_acc.simps [simp del]

definition format_base :: "nat \<Rightarrow> nat \<Rightarrow> string" where
  "format_base b n = (if n = 0 then ''0'' else format_base_acc b n [])"

fun parse_digits :: "nat \<Rightarrow> string \<Rightarrow> nat \<Rightarrow> nat option" where
  "parse_digits b [] acc = Some acc"
| "parse_digits b (c # s) acc =
     (case digit_value c of
        None \<Rightarrow> None
      | Some d \<Rightarrow> if d < b then parse_digits b s (acc * b + d) else None)"

text \<open>\<^verbatim>\<open>strconv.FormatInt\<close>, also the \<^verbatim>\<open>%d\<close> verb (base 10).\<close>

definition format_int :: "nat \<Rightarrow> int \<Rightarrow> string" where
  "format_int b i = (if i < 0 then CHR ''-'' # format_base b (nat (- i)) else format_base b (nat i))"

text \<open>\<^verbatim>\<open>strconv.ParseInt(s, b, bits)\<close>: an optional sign, at least one digit, and a value in range.\<close>

definition parse_int :: "nat \<Rightarrow> nat \<Rightarrow> string \<Rightarrow> int option" where
  "parse_int b bits s =
     (let neg = (s \<noteq> [] \<and> hd s = CHR ''-'');
          ds = (if s \<noteq> [] \<and> (hd s = CHR ''-'' \<or> hd s = CHR ''+'') then tl s else s)
      in if ds = [] then None
         else (case parse_digits b ds 0 of
                 None \<Rightarrow> None
               | Some v \<Rightarrow>
                   if neg then (if int v \<le> 2 ^ (bits - 1) then Some (- int v) else None)
                   else (if int v < 2 ^ (bits - 1) then Some (int v) else None)))"

lemma digit36_values: "list_all (\<lambda>d. digit_value (digit36 d) = Some d \<and> digit36 d \<noteq> CHR ''-'' \<and> digit36 d \<noteq> CHR ''+'') [0..<36]"
  by (simp add: upt_rec digit_value_def digit36_def digits36_def)

lemma digit_value_digit36: "d < 36 \<Longrightarrow> digit_value (digit36 d) = Some d"
  using digit36_values by (simp add: list_all_iff)

lemma digit36_not_sign: "d < 36 \<Longrightarrow> digit36 d \<noteq> CHR ''-'' \<and> digit36 d \<noteq> CHR ''+''"
  using digit36_values by (simp add: list_all_iff)

lemma parse_format_acc:
  "1 < b \<Longrightarrow> b \<le> 36 \<Longrightarrow> parse_digits b (format_base_acc b n acc) 0 = parse_digits b acc n"
proof (induction b n acc rule: format_base_acc.induct)
  case (1 b n acc)
  show ?case
  proof (cases "0 < n")
    case True
    have "n mod b < 36" using 1 by (meson less_le_trans mod_less_divisor zero_less_one less_trans)
    then have "digit_value (digit36 (n mod b)) = Some (n mod b)" by (rule digit_value_digit36)
    with 1 True show ?thesis by (simp add: format_base_acc.simps [of b n acc])
  next
    case False
    then show ?thesis by (simp add: format_base_acc.simps [of b 0 acc])
  qed
qed

lemma parse_format_base: "1 < b \<Longrightarrow> b \<le> 36 \<Longrightarrow> parse_digits b (format_base b n) 0 = Some n"
  by (simp add: format_base_def parse_format_acc digit_value_def)

lemma format_base_acc_chars:
  "1 < b \<Longrightarrow> b \<le> 36 \<Longrightarrow> c \<in> set (format_base_acc b n acc) \<Longrightarrow> c \<in> set acc \<or> (\<exists>d < b. c = digit36 d)"
proof (induction b n acc rule: format_base_acc.induct)
  case (1 b n acc)
  show ?case
  proof (cases "0 < n")
    case True
    with 1 have "c \<in> set (digit36 (n mod b) # acc) \<or> (\<exists>d < b. c = digit36 d)"
      by (simp add: format_base_acc.simps [of b n acc])
    moreover have "n mod b < b" using 1 by simp
    ultimately show ?thesis by auto
  next
    case False
    with 1 show ?thesis by (simp add: format_base_acc.simps [of b 0 acc])
  qed
qed

lemma format_base_acc_nonempty: "acc \<noteq> [] \<or> (1 < b \<and> 0 < n) \<Longrightarrow> format_base_acc b n acc \<noteq> []"
  by (induction b n acc rule: format_base_acc.induct) (subst format_base_acc.simps, auto)

lemma format_base_nonempty: "1 < b \<Longrightarrow> format_base b n \<noteq> []"
  by (simp add: format_base_def format_base_acc_nonempty)

lemma format_base_chars: "1 < b \<Longrightarrow> b \<le> 36 \<Longrightarrow> c \<in> set (format_base b n) \<Longrightarrow> \<exists>d < 36. c = digit36 d"
proof (cases "n = 0")
  assume "c \<in> set (format_base b n)" "n = 0"
  then have "c = digit36 0" by (simp add: format_base_def digit36_def digits36_def)
  then show ?thesis by (intro exI [of _ 0]) simp
next
  assume "1 < b" "b \<le> 36" "c \<in> set (format_base b n)" "n \<noteq> 0"
  then obtain d where "d < b" "c = digit36 d"
    using format_base_acc_chars [of b c n "[]"] by (auto simp: format_base_def)
  with \<open>b \<le> 36\<close> show ?thesis by (intro exI [of _ d]) simp
qed

lemma format_base_head:
  assumes "1 < b" "b \<le> 36"
  shows "hd (format_base b n) \<noteq> CHR ''-'' \<and> hd (format_base b n) \<noteq> CHR ''+''"
  using format_base_chars [OF assms hd_in_set [OF format_base_nonempty]] assms digit36_not_sign by metis

text \<open>Round trip of the numerals.\<close>

lemma parse_format_int:
  assumes "1 < b" "b \<le> 36" "0 \<le> i" "i < 2 ^ (bits - 1)"
  shows "parse_int b bits (format_int b i) = Some i"
proof -
  have "nat i < 2 ^ (bits - 1)" using assms by (simp add: nat_less_iff)
  with assms show ?thesis
    using format_base_head [of b "nat i"] format_base_nonempty [of b "nat i"]
    by (simp add: parse_int_def format_int_def parse_format_base)
qed

lemma format_base_inj: "1 < b \<Longrightarrow> b \<le> 36 \<Longrightarrow> format_base b m = format_base b n \<longleftrightarrow> m = n"
  by (metis option.inject parse_format_base)

text \<open>A string whose end characters are digits or lower case letters has nothing to trim.\<close>

definition alnum :: "char \<Rightarrow> bool" where
  "alnum c \<longleftrightarrow> 48 \<le> (of_char c :: nat) \<and> (of_char c :: nat) \<le> 57 \<or> 97 \<le> (of_char c :: nat) \<and> (of_char c :: nat) \<le> 122"

lemma space_ends: "list_all (\<lambda>w. \<not> alnum (hd w) \<and> \<not> alnum (last w)) space_encodings"
  by (simp add: space_encodings_def alnum_def)

lemma has_prefix_hd: "has_prefix s p \<Longrightarrow> p \<noteq> [] \<Longrightarrow> hd s = hd p"
  by (cases s; cases p) (auto simp: has_prefix_def)

lemma trim_space_alnum:
  assumes "alnum (hd s)" "alnum (last s)"
  shows "trim_space s = s"
proof -
  have e: "w \<noteq> []" "\<not> alnum (hd w)" "\<not> alnum (last w)" if "w \<in> set space_encodings" for w
    using that space_encodings_nonempty space_ends by (auto simp: list_all_iff)
  have "leading_space s = None"
    unfolding leading_space_def find_None_iff using e assms(1) has_prefix_hd by metis
  moreover have "trailing_space s = None"
    unfolding trailing_space_def find_None_iff has_suffix_def
    using e assms(2) has_prefix_hd by (metis hd_rev rev_is_Nil_conv)
  ultimately show ?thesis
    by (simp add: trim_space_def trim_left.simps [of s] trim_right.simps [of s])
qed

lemma alnum_digit36: "d < 36 \<Longrightarrow> alnum (digit36 d)"
proof -
  have "list_all (\<lambda>d. alnum (digit36 d)) [0..<36]"
    by (simp add: upt_rec digit36_def digits36_def alnum_def)
  then show "d < 36 \<Longrightarrow> alnum (digit36 d)" by (simp add: list_all_iff)
qed

lemma alnum_last_format: "1 < b \<Longrightarrow> b \<le> 36 \<Longrightarrow> alnum (last (format_base b n))"
  using format_base_chars [OF _ _ last_in_set [OF format_base_nonempty]] alnum_digit36 by metis

end
