(* ===== verification/Task_Graph.thy ===== *)
theory Task_Graph
  imports Go_Text
begin

text \<open>
  \<^verbatim>\<open>internal/scheduler/graph.go\<close>: the dependency graph of a task. A graph holds its nodes in
  a Go map and its edges in a slice; the operations that mutate it return the error of the
  call together with the graph as the call leaves it, because a failing \<^verbatim>\<open>AddChain\<close> keeps the
  nodes it had already added. Cycle detection is the three-colour depth-first search of
  \<^verbatim>\<open>Validate\<close>, with fuel; \<open>dfs_enough\<close> shows that one unit per node and one more is enough.
\<close>

subsection \<open>Data\<close>

record subtask =
  st_ID :: string
  st_Description :: string
  st_Role :: string
  st_TaskType :: string
  st_Tags :: "string list"
  st_DependsOn :: "string list"
  st_ExpectedOutput :: string
  st_OutputFormat :: string
  st_RequiredFields :: "string list"
  st_MaxRetries :: int
  st_RequiredCapabilities :: "string list"
  st_PreferredCapabilities :: "string list"
  st_MinModelSizeGB :: float64
  st_PreferredModel :: string
  st_RoutingPreference :: string
  st_Synthesis :: bool

record edge =
  e_From :: string
  e_To :: string

record parallel_group =
  pg_ID :: string
  pg_Subtasks :: "subtask list"

record chain =
  ch_ID :: string
  ch_Subtasks :: "subtask list"

record task_graph =
  g_Nodes :: "(string, subtask) gomap"
  g_Edges :: "edge list"
  g_ParallelGroups :: "parallel_group list"
  g_Chains :: "chain list"

datatype graph_error =
    EmptyNodeID
  | DuplicateNode string
  | EmptyEndpoint
  | SelfDependency string
  | NoSubtasks
  | TooManySubtasks
  | UnknownPrerequisite string
  | UnknownDependent string
  | UnknownDependency string string
  | CycleAt string
  | CycleFound
  | SearchExhausted

subsection \<open>Building a graph\<close>

definition NewTaskGraph :: task_graph where
  "NewTaskGraph = \<lparr>g_Nodes = [], g_Edges = [], g_ParallelGroups = [], g_Chains = []\<rparr>"

definition AddNode :: "subtask \<Rightarrow> task_graph \<Rightarrow> graph_error option \<times> task_graph" where
  "AddNode st g =
     (let i = trim_space (st_ID st) in
      if i = [] then (Some EmptyNodeID, g)
      else if gm_get (g_Nodes g) i \<noteq> None then (Some (DuplicateNode i), g)
      else (None, g\<lparr>g_Nodes := gm_put i (st\<lparr>st_ID := i\<rparr>) (g_Nodes g)\<rparr>))"

text \<open>Adding an edge keeps the \<^verbatim>\<open>DependsOn\<close> list of the dependent node in step with it.\<close>

definition sync_depends_on :: "string \<Rightarrow> string \<Rightarrow> task_graph \<Rightarrow> task_graph" where
  "sync_depends_on from to g =
     (case gm_get (g_Nodes g) to of
        None \<Rightarrow> g
      | Some target \<Rightarrow>
          if from \<in> set (st_DependsOn target) then g
          else g\<lparr>g_Nodes := gm_put to (target\<lparr>st_DependsOn := st_DependsOn target @ [from]\<rparr>) (g_Nodes g)\<rparr>)"

definition AddEdge :: "string \<Rightarrow> string \<Rightarrow> task_graph \<Rightarrow> graph_error option \<times> task_graph" where
  "AddEdge from0 to0 g =
     (let from = trim_space from0; to = trim_space to0 in
      if from = [] \<or> to = [] then (Some EmptyEndpoint, g)
      else if from = to then (Some (SelfDependency from), g)
      else if \<lparr>e_From = from, e_To = to\<rparr> \<in> set (g_Edges g) then (None, g)
      else (None, sync_depends_on from to (g\<lparr>g_Edges := g_Edges g @ [\<lparr>e_From = from, e_To = to\<rparr>]\<rparr>)))"

text \<open>\<^verbatim>\<open>idFor\<close> of \<^verbatim>\<open>decompose.go\<close> names the subtask at a position.\<close>

definition idFor :: "nat \<Rightarrow> string" where
  "idFor i =
     (if i < 26 then ''sub-'' @ [''abcdefghijklmnopqrstuvwxyz'' ! i]
      else if i < 36 then ''sub-0'' @ format_base 36 (i - 26)
      else ''sub-'' @ format_base 36 i)"

text \<open>
  The loop of \<^verbatim>\<open>AddChain\<close>. The second argument is the identifier that the previous element
  of the argument slice carries, which is the caller's value and not a generated one.
\<close>

fun addChain_loop ::
  "subtask list \<Rightarrow> string option \<Rightarrow> subtask list \<Rightarrow> task_graph \<Rightarrow> (graph_error + subtask list) \<times> task_graph" where
  "addChain_loop [] prev added g = (Inr added, g)"
| "addChain_loop (s # ss) prev added g =
     (let st = (if st_ID s = [] then s\<lparr>st_ID := idFor (length (g_Nodes g))\<rparr> else s);
          st = (case prev of
                  None \<Rightarrow> st
                | Some p \<Rightarrow> if p \<in> set (st_DependsOn st) then st
                            else st\<lparr>st_DependsOn := st_DependsOn st @ [p]\<rparr>)
      in case AddNode st g of
           (Some e, g1) \<Rightarrow> (Inl e, g1)
         | (None, g1) \<Rightarrow>
             (case prev of
                None \<Rightarrow> addChain_loop ss (Some (st_ID s)) (added @ [st]) g1
              | Some p \<Rightarrow>
                  (case AddEdge p (st_ID st) g1 of
                     (Some e, g2) \<Rightarrow> (Inl e, g2)
                   | (None, g2) \<Rightarrow> addChain_loop ss (Some (st_ID s)) (added @ [st]) g2)))"

definition AddChain :: "subtask list \<Rightarrow> task_graph \<Rightarrow> (graph_error + subtask list) \<times> task_graph" where
  "AddChain subtasks g =
     (if subtasks = [] then (Inr [], g)
      else case addChain_loop subtasks None [] g of
             (Inl e, g1) \<Rightarrow> (Inl e, g1)
           | (Inr added, g1) \<Rightarrow>
               (Inr added, g1\<lparr>g_Chains := g_Chains g1 @ [\<lparr>ch_ID = [], ch_Subtasks = added\<rparr>]\<rparr>))"

fun addGroup_loop ::
  "subtask list \<Rightarrow> subtask list \<Rightarrow> task_graph \<Rightarrow> (graph_error + subtask list) \<times> task_graph" where
  "addGroup_loop [] added g = (Inr added, g)"
| "addGroup_loop (s # ss) added g =
     (let st = (if st_ID s = [] then s\<lparr>st_ID := idFor (length (g_Nodes g))\<rparr> else s)
      in case AddNode st g of
           (Some e, g1) \<Rightarrow> (Inl e, g1)
         | (None, g1) \<Rightarrow> addGroup_loop ss (added @ [st]) g1)"

definition AddParallelGroup :: "subtask list \<Rightarrow> task_graph \<Rightarrow> (graph_error + subtask list) \<times> task_graph" where
  "AddParallelGroup subtasks g =
     (if subtasks = [] then (Inr [], g)
      else case addGroup_loop subtasks [] g of
             (Inl e, g1) \<Rightarrow> (Inl e, g1)
           | (Inr added, g1) \<Rightarrow>
               (Inr added, g1\<lparr>g_ParallelGroups := g_ParallelGroups g1 @ [\<lparr>pg_ID = [], pg_Subtasks = added\<rparr>]\<rparr>))"

subsection \<open>Queries\<close>

definition Dependencies :: "task_graph \<Rightarrow> string \<Rightarrow> string list" where
  "Dependencies g nodeID = map e_From (filter (\<lambda>e. e_To e = nodeID) (g_Edges g))"

definition InDegree :: "task_graph \<Rightarrow> string \<Rightarrow> nat" where
  "InDegree g nodeID = length (filter (\<lambda>e. e_To e = nodeID) (g_Edges g))"

definition OutDegree :: "task_graph \<Rightarrow> string \<Rightarrow> nat" where
  "OutDegree g nodeID = length (filter (\<lambda>e. e_From e = nodeID) (g_Edges g))"

definition ReadyNodes :: "task_graph \<Rightarrow> (string \<Rightarrow> bool) \<Rightarrow> subtask list" where
  "ReadyNodes g completed =
     sort_key st_ID
       (map snd (filter (\<lambda>(i, node). \<not> completed i \<and> list_all completed (Dependencies g i)) (g_Nodes g)))"

subsection \<open>Validation\<close>

text \<open>
  Three-colour depth-first search: 0 unvisited, 1 visiting, 2 visited. \<open>Some (Inl i)\<close> is the
  error of a cycle met at \<open>i\<close>, \<open>Some (Inr c)\<close> the colouring after the visit and \<open>None\<close> means
  that the fuel did not suffice.
\<close>

fun dfs_visit :: "nat \<Rightarrow> ('a \<Rightarrow> 'a list) \<Rightarrow> 'a \<Rightarrow> ('a \<Rightarrow> nat) \<Rightarrow> ('a + ('a \<Rightarrow> nat)) option"
  and dfs_list :: "nat \<Rightarrow> ('a \<Rightarrow> 'a list) \<Rightarrow> 'a list \<Rightarrow> ('a \<Rightarrow> nat) \<Rightarrow> ('a + ('a \<Rightarrow> nat)) option" where
  "dfs_visit 0 deps i color = None"
| "dfs_visit (Suc n) deps i color =
     (if color i = 1 then Some (Inl i)
      else if color i = 2 then Some (Inr color)
      else case dfs_list n deps (deps i) (color(i := 1)) of
             None \<Rightarrow> None
           | Some (Inl e) \<Rightarrow> Some (Inl e)
           | Some (Inr color') \<Rightarrow> Some (Inr (color'(i := 2))))"
| "dfs_list n deps [] color = Some (Inr color)"
| "dfs_list n deps (i # is) color =
     (case dfs_visit n deps i color of
        None \<Rightarrow> None
      | Some (Inl e) \<Rightarrow> Some (Inl e)
      | Some (Inr color') \<Rightarrow> dfs_list n deps is color')"

text \<open>\<^verbatim>\<open>Validate\<close> follows both the edges and the \<^verbatim>\<open>DependsOn\<close> list of a node.\<close>

definition all_deps :: "task_graph \<Rightarrow> string \<Rightarrow> string list" where
  "all_deps g i =
     Dependencies g i @ (case gm_get (g_Nodes g) i of None \<Rightarrow> [] | Some node \<Rightarrow> st_DependsOn node)"

fun check_edges :: "task_graph \<Rightarrow> edge list \<Rightarrow> graph_error option" where
  "check_edges g [] = None"
| "check_edges g (e # es) =
     (if e_From e = e_To e then Some (SelfDependency (e_From e))
      else if gm_get (g_Nodes g) (e_From e) = None then Some (UnknownPrerequisite (e_From e))
      else if gm_get (g_Nodes g) (e_To e) = None then Some (UnknownDependent (e_To e))
      else check_edges g es)"

fun check_node_deps :: "task_graph \<Rightarrow> string \<Rightarrow> string list \<Rightarrow> graph_error option" where
  "check_node_deps g i [] = None"
| "check_node_deps g i (d # ds) =
     (if d = i then Some (SelfDependency i)
      else if gm_get (g_Nodes g) d = None then Some (UnknownDependency i d)
      else check_node_deps g i ds)"

fun check_nodes :: "task_graph \<Rightarrow> (string, subtask) gomap \<Rightarrow> graph_error option" where
  "check_nodes g [] = None"
| "check_nodes g ((i, node) # ns) =
     (case check_node_deps g i (st_DependsOn node) of
        Some e \<Rightarrow> Some e
      | None \<Rightarrow> check_nodes g ns)"

definition Validate :: "task_graph \<Rightarrow> graph_error option" where
  "Validate g =
     (if g_Nodes g = [] then Some NoSubtasks
      else if 64 < length (g_Nodes g) then Some TooManySubtasks
      else case check_edges g (g_Edges g) of
             Some e \<Rightarrow> Some e
           | None \<Rightarrow>
               (case check_nodes g (g_Nodes g) of
                  Some e \<Rightarrow> Some e
                | None \<Rightarrow>
                    (case dfs_list (Suc (length (g_Nodes g))) (all_deps g) (map fst (g_Nodes g)) (\<lambda>_. 0) of
                       None \<Rightarrow> Some SearchExhausted
                     | Some (Inl i) \<Rightarrow> Some (CycleAt i)
                     | Some (Inr _) \<Rightarrow> None)))"

subsection \<open>Topological order\<close>

fun add_node_edges :: "string \<Rightarrow> string list \<Rightarrow> task_graph \<Rightarrow> task_graph" where
  "add_node_edges i [] g = g"
| "add_node_edges i (d # ds) g = add_node_edges i ds (snd (AddEdge d i g))"

fun sync_edges :: "(string, subtask) gomap \<Rightarrow> task_graph \<Rightarrow> task_graph" where
  "sync_edges [] g = g"
| "sync_edges ((i, node) # ns) g = sync_edges ns (add_node_edges i (st_DependsOn node) g)"

definition uniqueStrings :: "string list \<Rightarrow> string list" where
  "uniqueStrings values = rev (foldl (\<lambda>out v.
     let v' = trim_space v in if v' \<noteq> [] \<and> v' \<notin> set out then v' # out else out) [] values)"

text \<open>Kahn's algorithm: one dependent edge of the node just taken from the queue.\<close>

fun kahn_relax :: "string list \<Rightarrow> (string \<Rightarrow> int) \<Rightarrow> string list \<Rightarrow> (string \<Rightarrow> int) \<times> string list" where
  "kahn_relax [] inDegree queue = (inDegree, queue)"
| "kahn_relax (d # ds) inDegree queue =
     (let inDegree' = inDegree(d := inDegree d - 1)
      in kahn_relax ds inDegree' (if inDegree' d = 0 then sort (queue @ [d]) else queue))"

definition dependents :: "task_graph \<Rightarrow> string \<Rightarrow> string list" where
  "dependents g i = map e_To (filter (\<lambda>e. e_From e = i) (g_Edges g))"

definition sorted_node :: "task_graph \<Rightarrow> string \<Rightarrow> subtask \<Rightarrow> subtask" where
  "sorted_node g i node = node\<lparr>st_DependsOn := sort (uniqueStrings (Dependencies g i))\<rparr>"

definition zero_subtask :: subtask where
  "zero_subtask =
     \<lparr>st_ID = [], st_Description = [], st_Role = [], st_TaskType = [], st_Tags = [], st_DependsOn = [],
      st_ExpectedOutput = [], st_OutputFormat = [], st_RequiredFields = [], st_MaxRetries = 0,
      st_RequiredCapabilities = [], st_PreferredCapabilities = [], st_MinModelSizeGB = 0,
      st_PreferredModel = [], st_RoutingPreference = [], st_Synthesis = False\<rparr>"

text \<open>A missing key of \<^verbatim>\<open>g.Nodes\<close> reads as the zero subtask.\<close>

definition node_at :: "task_graph \<Rightarrow> string \<Rightarrow> subtask" where
  "node_at g i = (case gm_get (g_Nodes g) i of None \<Rightarrow> zero_subtask | Some node \<Rightarrow> node)"

fun kahn_loop ::
  "nat \<Rightarrow> task_graph \<Rightarrow> (string \<Rightarrow> int) \<Rightarrow> string list \<Rightarrow> subtask list \<Rightarrow> subtask list option" where
  "kahn_loop fuel g inDegree [] result = Some result"
| "kahn_loop 0 g inDegree (c # queue) result = None"
| "kahn_loop (Suc fuel) g inDegree (c # queue) result =
     (let (inDegree', queue') = kahn_relax (dependents g c) inDegree queue
      in kahn_loop fuel g inDegree' queue' (result @ [sorted_node g c (node_at g c)]))"

definition TopologicalSort :: "task_graph \<Rightarrow> (graph_error + subtask list) \<times> task_graph" where
  "TopologicalSort g0 =
     (case Validate g0 of
        Some e \<Rightarrow> (Inl e, g0)
      | None \<Rightarrow>
          (let g = sync_edges (g_Nodes g0) g0;
               inDegree = (\<lambda>i. int (InDegree g i));
               queue = sort (filter (\<lambda>i. inDegree i = 0) (map fst (g_Nodes g)))
           in case kahn_loop (Suc (length (g_Nodes g))) g inDegree queue [] of
                None \<Rightarrow> (Inl SearchExhausted, g)
              | Some result \<Rightarrow>
                  if length result \<noteq> length (g_Nodes g) then (Inl CycleFound, g)
                  else (Inr result, g)))"

definition ToSubtasks :: "task_graph \<Rightarrow> (graph_error + subtask list) \<times> task_graph" where
  "ToSubtasks g = (case Validate g of Some e \<Rightarrow> (Inl e, g) | None \<Rightarrow> TopologicalSort g)"

subsection \<open>Correctness of the search\<close>

text \<open>
  A set of nodes is \<open>ranked\<close> when it is closed under dependencies and a rank strictly falls
  along every dependency: the finished nodes of the search always are, so that a search
  without error certifies the absence of cycles.
\<close>

definition ranked :: "('a \<Rightarrow> 'a list) \<Rightarrow> 'a set \<Rightarrow> ('a \<Rightarrow> nat) \<Rightarrow> bool" where
  "ranked deps S r \<longleftrightarrow> (\<forall>x \<in> S. \<forall>y \<in> set (deps x). y \<in> S \<and> r y < r x)"

abbreviation black :: "('a \<Rightarrow> nat) \<Rightarrow> 'a set" where
  "black color \<equiv> {x. color x = 2}"

abbreviation gray :: "('a \<Rightarrow> nat) \<Rightarrow> 'a set" where
  "gray color \<equiv> {x. color x = 1}"

definition dep_rel :: "('a \<Rightarrow> 'a list) \<Rightarrow> ('a \<times> 'a) set" where
  "dep_rel deps = {(x, y). y \<in> set (deps x)}"

lemma ranked_insert:
  assumes "ranked deps S r" "i \<notin> S" "set (deps i) \<subseteq> S"
  shows "\<exists>r'. ranked deps (insert i S) r'"
proof -
  let ?r = "r(i := Suc (sum_list (map r (deps i))))"
  have "y \<in> set (deps i) \<Longrightarrow> r y < Suc (sum_list (map r (deps i)))" for y
    by (simp add: member_le_sum_list less_Suc_eq_le)
  with assms have "ranked deps (insert i S) ?r"
    unfolding ranked_def by auto
  then show ?thesis by blast
qed

lemma ranked_acyclic:
  assumes "ranked deps S r"
  shows "acyclic (dep_rel deps \<inter> S \<times> S)"
proof -
  have "(x, y) \<in> (dep_rel deps \<inter> S \<times> S)\<^sup>+ \<Longrightarrow> r y < r x" for x y
    by (induction rule: trancl_induct) (use assms in \<open>auto simp: ranked_def dep_rel_def dest: less_trans\<close>)
  then show ?thesis by (auto simp: acyclic_def)
qed

lemma dfs_sound:
  "dfs_visit n deps i color = Some (Inr color') \<Longrightarrow> \<exists>r. ranked deps (black color) r \<Longrightarrow>
     (\<exists>r. ranked deps (black color') r) \<and> color' i = 2 \<and> black color \<subseteq> black color' \<and> gray color' = gray color"
  "dfs_list n deps is color = Some (Inr color') \<Longrightarrow> \<exists>r. ranked deps (black color) r \<Longrightarrow>
     (\<exists>r. ranked deps (black color') r) \<and> set is \<subseteq> black color' \<and> black color \<subseteq> black color' \<and> gray color' = gray color"
proof (induction n deps i color and n deps "is" color arbitrary: color' and color' rule: dfs_visit_dfs_list.induct)
  case (2 n deps i color)
  show ?case
  proof (cases "color i = 2")
    case True
    with 2 show ?thesis by auto
  next
    case False
    with 2 have white: "color i \<noteq> 1" "color i \<noteq> 2" by (auto split: if_splits)
    with 2 obtain c where c: "dfs_list n deps (deps i) (color(i := 1)) = Some (Inr c)" and
      color': "color' = c(i := 2)"
      by (auto split: option.splits sum.splits)
    have b: "black (color(i := 1)) = black color" using white by auto
    with 2(3) have "\<exists>r. ranked deps (black (color(i := 1))) r" by (simp only:)
    from 2(1) [OF white c this] b have IH: "\<exists>r. ranked deps (black c) r" "set (deps i) \<subseteq> black c"
      "black color \<subseteq> black c" "gray c = gray (color(i := 1))" by blast+
    then have "i \<in> gray c" by auto
    then have "i \<notin> black c" by auto
    with IH obtain r where "ranked deps (insert i (black c)) r" using ranked_insert by metis
    moreover have "black color' = insert i (black c)" using color' by auto
    moreover have "gray color' = gray color" using color' IH(4) white by (auto simp: set_eq_iff)
    ultimately show ?thesis using IH(3) color' by auto
  qed
next
  case (4 n deps i "is" color)
  then obtain c where c: "dfs_visit n deps i color = Some (Inr c)" and
    d: "dfs_list n deps is c = Some (Inr color')"
    by (auto split: option.splits sum.splits)
  have 1: "(\<exists>r. ranked deps (black c) r) \<and> c i = 2 \<and> black color \<subseteq> black c \<and> gray c = gray color"
    using 4 c by blast
  then have "(\<exists>r. ranked deps (black color') r) \<and> set is \<subseteq> black color' \<and> black c \<subseteq> black color' \<and> gray color' = gray c"
    using 4 c d by blast
  with 1 show ?case by auto
qed auto

lemma dfs_cycle:
  "dfs_visit n deps i color = Some (Inl e) \<Longrightarrow> \<forall>x \<in> gray color. (x, i) \<in> (dep_rel deps)\<^sup>+ \<Longrightarrow>
     \<exists>r. ranked deps (black color) r \<Longrightarrow> \<exists>x. (x, x) \<in> (dep_rel deps)\<^sup>+"
  "dfs_list n deps is color = Some (Inl e) \<Longrightarrow> \<forall>x \<in> gray color. \<forall>i \<in> set is. (x, i) \<in> (dep_rel deps)\<^sup>+ \<Longrightarrow>
     \<exists>r. ranked deps (black color) r \<Longrightarrow> \<exists>x. (x, x) \<in> (dep_rel deps)\<^sup>+"
proof (induction n deps i color and n deps "is" color rule: dfs_visit_dfs_list.induct)
  case (2 n deps i color)
  show ?case
  proof (cases "color i = 1")
    case True
    with 2 show ?thesis by auto
  next
    case False
    with 2 have white: "color i \<noteq> 2" and
      l: "dfs_list n deps (deps i) (color(i := 1)) = Some (Inl e)"
      by (auto split: if_splits option.splits sum.splits)
    have "(i, y) \<in> (dep_rel deps)\<^sup>+" if "y \<in> set (deps i)" for y
      using that by (auto simp: dep_rel_def)
    moreover have "(x, y) \<in> (dep_rel deps)\<^sup>+" if "y \<in> set (deps i)" "x \<in> gray color" for x y
      using that 2(3) by (auto simp: dep_rel_def intro: trancl_into_trancl)
    ultimately have g: "\<forall>x \<in> gray (color(i := 1)). \<forall>y \<in> set (deps i). (x, y) \<in> (dep_rel deps)\<^sup>+"
      by auto
    have "black (color(i := 1)) = black color" using white by auto
    with 2(4) have "\<exists>r. ranked deps (black (color(i := 1))) r" by (simp only:)
    with g show ?thesis using 2(1) [OF False white l] by blast
  qed
next
  case (4 n deps i "is" color)
  show ?case
  proof (cases "dfs_visit n deps i color = Some (Inl e)")
    case True
    with 4 show ?thesis by auto
  next
    case False
    with 4 obtain c where c: "dfs_visit n deps i color = Some (Inr c)" and
      d: "dfs_list n deps is c = Some (Inl e)"
      by (auto split: option.splits sum.splits)
    from dfs_sound(1) [OF c] 4 have "(\<exists>r. ranked deps (black c) r) \<and> gray c = gray color" by blast
    with 4 c d show ?thesis by auto
  qed
qed auto

lemma dfs_white_shrinks:
  "dfs_visit n deps i color = Some (Inr color') \<Longrightarrow> \<exists>r. ranked deps (black color) r \<Longrightarrow>
     {x \<in> V. color' x \<noteq> 1 \<and> color' x \<noteq> 2} \<subseteq> {x \<in> V. color x \<noteq> 1 \<and> color x \<noteq> 2}"
  using dfs_sound(1) [of n deps i color color'] by (auto simp: set_eq_iff)

lemma dfs_enough:
  "finite V \<Longrightarrow> \<forall>x \<in> V. set (deps x) \<subseteq> V \<Longrightarrow> i \<in> V \<Longrightarrow> \<exists>r. ranked deps (black color) r \<Longrightarrow>
     card {x \<in> V. color x \<noteq> 1 \<and> color x \<noteq> 2} < n \<Longrightarrow> dfs_visit n deps i color \<noteq> None"
  "finite V \<Longrightarrow> \<forall>x \<in> V. set (deps x) \<subseteq> V \<Longrightarrow> set is \<subseteq> V \<Longrightarrow> \<exists>r. ranked deps (black color) r \<Longrightarrow>
     card {x \<in> V. color x \<noteq> 1 \<and> color x \<noteq> 2} < n \<Longrightarrow> dfs_list n deps is color \<noteq> None"
proof (induction n deps i color and n deps "is" color rule: dfs_visit_dfs_list.induct)
  case (2 n deps i color)
  show ?case
  proof (cases "color i = 1 \<or> color i = 2")
    case True
    then show ?thesis by auto
  next
    case False
    let ?W = "\<lambda>c :: 'a \<Rightarrow> nat. {x \<in> V. c x \<noteq> 1 \<and> c x \<noteq> 2}"
    have "?W (color(i := 1)) = ?W color - {i}" by auto
    moreover have "i \<in> ?W color" using False 2 by auto
    ultimately have "card (?W (color(i := 1))) = card (?W color) - 1" "0 < card (?W color)"
      using 2(2) by (simp_all only: card_Diff_singleton card_gt_0_iff) auto
    with 2(6) have c: "card (?W (color(i := 1))) < n" by linarith
    have "black (color(i := 1)) = black color" using False by auto
    with 2(5) have "\<exists>r. ranked deps (black (color(i := 1))) r" by (simp only:)
    with c 2(2,3,4) False have "dfs_list n deps (deps i) (color(i := 1)) \<noteq> None"
      by (intro 2(1)) auto
    with False show ?thesis by (auto split: option.splits sum.splits)
  qed
next
  case (4 n deps i "is" color)
  then have "dfs_visit n deps i color \<noteq> None" by auto
  then consider e where "dfs_visit n deps i color = Some (Inl e)" | c where "dfs_visit n deps i color = Some (Inr c)"
    by (metis not_Some_eq old.sum.exhaust)
  then show ?case
  proof cases
    case 1
    then show ?thesis by simp
  next
    case 2
    from dfs_white_shrinks [OF 2, of V] 4(3,6) have
      "card {x \<in> V. c x \<noteq> 1 \<and> c x \<noteq> 2} \<le> card {x \<in> V. color x \<noteq> 1 \<and> color x \<noteq> 2}"
      by (intro card_mono) auto
    with 4 2 dfs_sound(1) [OF 2] have "dfs_list n deps is c \<noteq> None" by auto
    with 2 show ?thesis by simp
  qed
qed auto

subsection \<open>Well-formed graphs\<close>

text \<open>
  What \<^verbatim>\<open>AddNode\<close> and \<^verbatim>\<open>AddEdge\<close> establish: nodes are stored under their own trimmed,
  non-empty identifier, edges have trimmed, non-empty, distinct end points and occur once.
\<close>

definition graph_wf :: "task_graph \<Rightarrow> bool" where
  "graph_wf g \<longleftrightarrow> gm_wf (g_Nodes g) \<and>
     (\<forall>(i, node) \<in> set (g_Nodes g). st_ID node = i \<and> i \<noteq> [] \<and> trim_space i = i) \<and>
     (\<forall>e \<in> set (g_Edges g). e_From e \<noteq> [] \<and> e_To e \<noteq> [] \<and> e_From e \<noteq> e_To e \<and>
        trim_space (e_From e) = e_From e \<and> trim_space (e_To e) = e_To e) \<and>
     distinct (g_Edges g)"

lemma set_gm_put: "gm_wf m \<Longrightarrow> set (gm_put k v m) = {(k', v') \<in> set m. k' \<noteq> k} \<union> {(k, v)}"
  by (induction m) (auto simp: gm_wf_def rev_image_eqI)

lemma graph_wf_new [simp]: "graph_wf NewTaskGraph"
  by (simp add: graph_wf_def NewTaskGraph_def)

lemma graph_wf_AddNode: "graph_wf g \<Longrightarrow> graph_wf (snd (AddNode st g))"
  by (auto simp: graph_wf_def AddNode_def Let_def set_gm_put)

lemma sync_depends_on_edges [simp]: "g_Edges (sync_depends_on from to g) = g_Edges g"
  by (simp add: sync_depends_on_def split: option.split)

lemma sync_depends_on_keys [simp]: "gm_keys (g_Nodes (sync_depends_on from to g)) = gm_keys (g_Nodes g)"
  by (auto simp: sync_depends_on_def split: option.split dest: map_of_SomeD intro: rev_image_eqI)

lemma graph_wf_sync: "graph_wf g \<Longrightarrow> graph_wf (sync_depends_on from to g)"
  by (auto simp: graph_wf_def sync_depends_on_def set_gm_put split: option.split dest!: map_of_SomeD)

lemma graph_wf_AddEdge: "graph_wf g \<Longrightarrow> graph_wf (snd (AddEdge from to g))"
proof -
  assume g: "graph_wf g"
  let ?f = "trim_space from" and ?t = "trim_space to"
  let ?e = "\<lparr>e_From = ?f, e_To = ?t\<rparr>"
  have "graph_wf (g\<lparr>g_Edges := g_Edges g @ [?e]\<rparr>)"
    if "?f \<noteq> []" "?t \<noteq> []" "?f \<noteq> ?t" "?e \<notin> set (g_Edges g)"
    using g that by (auto simp: graph_wf_def)
  with g show ?thesis by (auto simp: AddEdge_def Let_def intro: graph_wf_sync)
qed

lemma graph_wf_addChain_loop: "graph_wf g \<Longrightarrow> graph_wf (snd (addChain_loop ss prev added g))"
proof (induction ss arbitrary: prev added g)
  case (Cons s ss)
  have N: "AddNode st g = (r, g1) \<Longrightarrow> graph_wf g1" for st r g1
    using graph_wf_AddNode [OF Cons.prems, of st] by simp
  have E: "AddEdge p q g1 = (r, g2) \<Longrightarrow> graph_wf g1 \<Longrightarrow> graph_wf g2" for p q g1 r g2
    using graph_wf_AddEdge [of g1 p q] by simp
  show ?case
    by (auto simp: Let_def Cons.IH split: prod.split option.split dest: N dest!: E [OF _ N])
qed simp

lemma graph_wf_AddChain: "graph_wf g \<Longrightarrow> graph_wf (snd (AddChain ss g))"
  using graph_wf_addChain_loop [of g ss None "[]"]
  by (auto simp: AddChain_def graph_wf_def split: prod.splits sum.splits)

lemma graph_wf_addGroup_loop: "graph_wf g \<Longrightarrow> graph_wf (snd (addGroup_loop ss added g))"
proof (induction ss arbitrary: added g)
  case (Cons s ss)
  have N: "AddNode st g = (r, g1) \<Longrightarrow> graph_wf g1" for st r g1
    using graph_wf_AddNode [OF Cons.prems, of st] by simp
  show ?case
    by (auto simp: Let_def Cons.IH split: prod.split option.split dest: N)
qed simp

lemma graph_wf_AddParallelGroup: "graph_wf g \<Longrightarrow> graph_wf (snd (AddParallelGroup ss g))"
  using graph_wf_addGroup_loop [of g ss "[]"]
  by (auto simp: AddParallelGroup_def graph_wf_def split: prod.splits sum.splits)

lemmas graph_wf_ops = graph_wf_AddNode graph_wf_AddEdge graph_wf_AddChain graph_wf_AddParallelGroup

subsection \<open>Validation decides acyclicity\<close>

definition dag_spec :: "task_graph \<Rightarrow> bool" where
  "dag_spec g \<longleftrightarrow> g_Nodes g \<noteq> [] \<and> length (g_Nodes g) \<le> 64 \<and>
     (\<forall>e \<in> set (g_Edges g). e_From e \<in> gm_keys (g_Nodes g) \<and> e_To e \<in> gm_keys (g_Nodes g)) \<and>
     (\<forall>(i, node) \<in> set (g_Nodes g). set (st_DependsOn node) \<subseteq> gm_keys (g_Nodes g)) \<and>
     acyclic (dep_rel (all_deps g))"

lemma check_edges_None:
  "check_edges g es = None \<longleftrightarrow> (\<forall>e \<in> set es. e_From e \<noteq> e_To e \<and>
     e_From e \<in> gm_keys (g_Nodes g) \<and> e_To e \<in> gm_keys (g_Nodes g))"
  by (induction es) (auto simp: gm_get_None)

lemma check_node_deps_None:
  "check_node_deps g i ds = None \<longleftrightarrow> (\<forall>d \<in> set ds. d \<noteq> i \<and> d \<in> gm_keys (g_Nodes g))"
  by (induction ds) (auto simp: gm_get_None)

lemma check_nodes_None:
  "check_nodes g ns = None \<longleftrightarrow>
     (\<forall>(i, node) \<in> set ns. \<forall>d \<in> set (st_DependsOn node). d \<noteq> i \<and> d \<in> gm_keys (g_Nodes g))"
proof -
  have "check_nodes g ns = None \<longleftrightarrow> (\<forall>(i, node) \<in> set ns. check_node_deps g i (st_DependsOn node) = None)"
    by (induction ns) (auto split: option.splits)
  then show ?thesis by (simp only: check_node_deps_None)
qed

lemma edge_mem: "(\<exists>e \<in> set es. e_To e = i \<and> e_From e = d) \<longleftrightarrow> \<lparr>e_From = d, e_To = i\<rparr> \<in> set es"
proof
  assume "\<exists>e \<in> set es. e_To e = i \<and> e_From e = d"
  then obtain e :: edge where "e \<in> set es" "e_To e = i" "e_From e = d" by blast
  moreover have "e = \<lparr>e_From = e_From e, e_To = e_To e\<rparr>" by simp
  ultimately show "\<lparr>e_From = d, e_To = i\<rparr> \<in> set es" by metis
next
  assume "\<lparr>e_From = d, e_To = i\<rparr> \<in> set es"
  then show "\<exists>e \<in> set es. e_To e = i \<and> e_From e = d" by (rule bexI [rotated]) simp
qed

lemma Dependencies_mem: "d \<in> set (Dependencies g i) \<longleftrightarrow> \<lparr>e_From = d, e_To = i\<rparr> \<in> set (g_Edges g)"
  unfolding edge_mem [symmetric] Dependencies_def by auto

lemma all_deps_mem:
  "gm_wf (g_Nodes g) \<Longrightarrow> d \<in> set (all_deps g i) \<longleftrightarrow> \<lparr>e_From = d, e_To = i\<rparr> \<in> set (g_Edges g) \<or>
     (\<exists>node. gm_get (g_Nodes g) i = Some node \<and> d \<in> set (st_DependsOn node))"
  by (auto simp: all_deps_def Dependencies_mem split: option.splits)

lemma dfs_from_white:
  assumes "finite V" "\<forall>x \<in> V. set (deps x) \<subseteq> V" "set is = V" "card V < n" "dep_rel deps \<subseteq> V \<times> V"
  shows "(\<exists>c. dfs_list n deps is (\<lambda>_. 0) = Some (Inr c)) \<and> acyclic (dep_rel deps) \<or>
         (\<exists>i. dfs_list n deps is (\<lambda>_. 0) = Some (Inl i)) \<and> \<not> acyclic (dep_rel deps)"
proof -
  have init: "\<exists>r. ranked deps (black (\<lambda>_. 0)) r" by (simp add: ranked_def)
  have "dfs_list n deps is (\<lambda>_. 0) \<noteq> None"
    by (rule dfs_enough(2) [OF assms(1,2) _ init]) (use assms in auto)
  then consider (cyc) i where "dfs_list n deps is (\<lambda>_. 0) = Some (Inl i)"
    | (ok) c where "dfs_list n deps is (\<lambda>_. 0) = Some (Inr c)"
    by (metis not_Some_eq old.sum.exhaust)
  then show ?thesis
  proof cases
    case cyc
    from dfs_cycle(2) [OF cyc _ init] have "\<not> acyclic (dep_rel deps)" by (auto simp: acyclic_def)
    with cyc show ?thesis by blast
  next
    case ok
    from dfs_sound(2) [OF ok init] obtain r where r: "ranked deps (black c) r" and "set is \<subseteq> black c" by blast
    with assms have "dep_rel deps \<inter> black c \<times> black c = dep_rel deps" by auto
    with ranked_acyclic [OF r] have "acyclic (dep_rel deps)" by simp
    with ok show ?thesis by blast
  qed
qed

lemma acyclic_irrefl_dep: "acyclic (dep_rel deps) \<Longrightarrow> i \<notin> set (deps i)"
  by (auto simp: acyclic_def dep_rel_def)

lemma acyclic_irrefl_edge:
  assumes "gm_wf (g_Nodes g)" "acyclic (dep_rel (all_deps g))" "e \<in> set (g_Edges g)"
  shows "e_From e \<noteq> e_To e"
proof
  assume eq: "e_From e = e_To e"
  have "e = \<lparr>e_From = e_From e, e_To = e_To e\<rparr>" by simp
  with assms(3) eq have "\<lparr>e_From = e_To e, e_To = e_To e\<rparr> \<in> set (g_Edges g)" by metis
  then have "e_To e \<in> set (all_deps g (e_To e))" by (simp add: all_deps_mem [OF assms(1)])
  with acyclic_irrefl_dep [OF assms(2)] show False by blast
qed

text \<open>The structural checks that precede the search, and what they give it.\<close>

definition refs_known :: "task_graph \<Rightarrow> bool" where
  "refs_known g \<longleftrightarrow>
     (\<forall>e \<in> set (g_Edges g). e_From e \<in> gm_keys (g_Nodes g) \<and> e_To e \<in> gm_keys (g_Nodes g)) \<and>
     (\<forall>(i, node) \<in> set (g_Nodes g). set (st_DependsOn node) \<subseteq> gm_keys (g_Nodes g))"

lemma checks_refs_known:
  "check_edges g (g_Edges g) = None \<Longrightarrow> check_nodes g (g_Nodes g) = None \<Longrightarrow> refs_known g"
  unfolding refs_known_def check_edges_None check_nodes_None by blast

lemma refs_known_rel: "gm_wf (g_Nodes g) \<Longrightarrow> refs_known g \<Longrightarrow>
  dep_rel (all_deps g) \<subseteq> gm_keys (g_Nodes g) \<times> gm_keys (g_Nodes g)"
proof
  fix p assume wf: "gm_wf (g_Nodes g)" and k: "refs_known g" and "p \<in> dep_rel (all_deps g)"
  then obtain i d where p: "p = (i, d)" and "d \<in> set (all_deps g i)" by (auto simp: dep_rel_def)
  then consider "\<lparr>e_From = d, e_To = i\<rparr> \<in> set (g_Edges g)"
    | node where "gm_get (g_Nodes g) i = Some node" "d \<in> set (st_DependsOn node)"
    by (auto simp: all_deps_mem [OF wf])
  then show "p \<in> gm_keys (g_Nodes g) \<times> gm_keys (g_Nodes g)"
  proof cases
    case 1
    from k have "\<forall>e \<in> set (g_Edges g). e_From e \<in> gm_keys (g_Nodes g) \<and> e_To e \<in> gm_keys (g_Nodes g)"
      unfolding refs_known_def by (rule conjunct1)
    from bspec [OF this 1] p show ?thesis by simp
  next
    case 2
    then have m: "(i, node) \<in> set (g_Nodes g)" by (blast dest: map_of_SomeD)
    with 2 k have "d \<in> gm_keys (g_Nodes g)" unfolding refs_known_def by blast
    moreover from m have "i \<in> gm_keys (g_Nodes g)" by (rule rev_image_eqI) simp
    ultimately show ?thesis using p by simp
  qed
qed

lemma search_decides:
  assumes wf: "gm_wf (g_Nodes g)" and k: "refs_known g"
  defines "search \<equiv> dfs_list (Suc (length (g_Nodes g))) (all_deps g) (map fst (g_Nodes g)) (\<lambda>_. 0)"
  shows "(\<exists>c. search = Some (Inr c)) \<and> acyclic (dep_rel (all_deps g)) \<or>
         (\<exists>i. search = Some (Inl i)) \<and> \<not> acyclic (dep_rel (all_deps g))"
  unfolding search_def
proof (rule dfs_from_white [of "gm_keys (g_Nodes g)"])
  show rel: "dep_rel (all_deps g) \<subseteq> gm_keys (g_Nodes g) \<times> gm_keys (g_Nodes g)"
    using wf k by (rule refs_known_rel)
  then show "\<forall>x \<in> gm_keys (g_Nodes g). set (all_deps g x) \<subseteq> gm_keys (g_Nodes g)"
    by (auto simp: dep_rel_def)
  show "card (gm_keys (g_Nodes g)) < Suc (length (g_Nodes g))"
    by (simp add: gm_length [OF wf])
qed simp_all

lemma dag_spec_checks:
  assumes wf: "gm_wf (g_Nodes g)" and d: "dag_spec g"
  shows "check_edges g (g_Edges g) = None" "check_nodes g (g_Nodes g) = None"
proof -
  have a: "acyclic (dep_rel (all_deps g))" using d by (simp add: dag_spec_def)
  show "check_edges g (g_Edges g) = None"
    using d acyclic_irrefl_edge [OF wf a] by (simp add: dag_spec_def check_edges_None)
  have "x \<noteq> i" if "(i, node) \<in> set (g_Nodes g)" "x \<in> set (st_DependsOn node)" for i node x
  proof
    assume "x = i"
    with that have "i \<in> set (all_deps g i)" by (auto simp: all_deps_mem [OF wf] gm_get_in [OF wf])
    with acyclic_irrefl_dep [OF a] show False by blast
  qed
  with d show "check_nodes g (g_Nodes g) = None"
    unfolding dag_spec_def check_nodes_None by blast
qed

lemma Validate_iff: "gm_wf (g_Nodes g) \<Longrightarrow> Validate g = None \<longleftrightarrow> dag_spec g"
proof
  assume wf: "gm_wf (g_Nodes g)" and "Validate g = None"
  then have v: "g_Nodes g \<noteq> []" "length (g_Nodes g) \<le> 64" "check_edges g (g_Edges g) = None"
    "check_nodes g (g_Nodes g) = None"
    "\<exists>c. dfs_list (Suc (length (g_Nodes g))) (all_deps g) (map fst (g_Nodes g)) (\<lambda>_. 0) = Some (Inr c)"
    by (auto simp: Validate_def split: if_splits option.splits sum.splits)
  have k: "refs_known g" using v(3,4) by (rule checks_refs_known)
  from search_decides [OF wf k] v(5) have "acyclic (dep_rel (all_deps g))" by auto
  with v k show "dag_spec g" unfolding dag_spec_def refs_known_def by auto
next
  assume wf: "gm_wf (g_Nodes g)" and d: "dag_spec g"
  note c = dag_spec_checks [OF wf d]
  from search_decides [OF wf checks_refs_known [OF c]] d
  obtain col where "dfs_list (Suc (length (g_Nodes g))) (all_deps g) (map fst (g_Nodes g)) (\<lambda>_. 0) = Some (Inr col)"
    by (auto simp: dag_spec_def)
  with c d show "Validate g = None" by (simp add: Validate_def dag_spec_def)
qed

lemma Validate_no_exhaustion: "gm_wf (g_Nodes g) \<Longrightarrow> Validate g \<noteq> Some SearchExhausted"
proof
  assume wf: "gm_wf (g_Nodes g)" and ex: "Validate g = Some SearchExhausted"
  have ce: "check_edges g es \<noteq> Some SearchExhausted" for es by (induction es) auto
  have cd: "check_node_deps g i ds \<noteq> Some SearchExhausted" for i ds by (induction ds) auto
  have cn: "check_nodes g ns \<noteq> Some SearchExhausted" for ns
    by (induction ns) (auto simp: cd split: option.splits)
  from ex ce cn have "check_edges g (g_Edges g) = None" "check_nodes g (g_Nodes g) = None"
    "dfs_list (Suc (length (g_Nodes g))) (all_deps g) (map fst (g_Nodes g)) (\<lambda>_. 0) = None"
    by (auto simp: Validate_def split: if_splits option.splits sum.splits)
  with search_decides [OF wf checks_refs_known] show False by auto
qed

subsection \<open>Kahn's algorithm\<close>

lemma kahn_relax_correct:
  "kahn_relax ds f q = (f', q') \<Longrightarrow> \<forall>x. int (count_list ds x) \<le> f x \<Longrightarrow> distinct q \<Longrightarrow> set q \<inter> set ds = {} \<Longrightarrow>
     f' = (\<lambda>x. f x - int (count_list ds x)) \<and> distinct q' \<and>
     set q' = set q \<union> {x \<in> set ds. f x = int (count_list ds x)}"
proof (induction ds arbitrary: f q)
  case (Cons d ds)
  let ?f = "f(d := f d - 1)"
  let ?q = "if ?f d = 0 then sort (q @ [d]) else q"
  have le: "int (count_list ds x) \<le> ?f x" for x
    using Cons.prems(2) [rule_format, of x] by (cases "x = d") auto
  have d: "d \<notin> set ds" if "?f d = 0"
    using le [of d] that by (simp add: count_list_0_iff)
  have 1: "kahn_relax ds ?f ?q = (f', q')" using Cons.prems(1) by (simp add: Let_def)
  have 2: "distinct ?q" using Cons.prems(3,4) by simp
  have 3: "set ?q \<inter> set ds = {}" using Cons.prems(4) d by (cases "?f d = 0") simp_all
  have le': "\<forall>x. int (count_list ds x) \<le> ?f x" using le by (rule allI)
  note IH' = Cons.IH [OF 1 le' 2 3]
  note IH = IH' [THEN conjunct1] IH' [THEN conjunct2, THEN conjunct1] IH' [THEN conjunct2, THEN conjunct2]
  have "set q' = set q \<union> {x \<in> set (d # ds). f x = int (count_list (d # ds) x)}"
  proof (rule set_eqI)
    fix x
    show "x \<in> set q' \<longleftrightarrow> x \<in> set q \<union> {x \<in> set (d # ds). f x = int (count_list (d # ds) x)}"
    proof (cases "x = d")
      case True
      have "d \<notin> set q" using Cons.prems(4) by simp
      moreover have "f d = 1 \<Longrightarrow> count_list ds d = 0" using d by (simp add: count_list_0_iff)
      moreover have "f d = 1 + int (count_list ds d) \<Longrightarrow> f d \<noteq> 1 \<Longrightarrow> d \<in> set ds"
        by (rule ccontr) (simp add: count_notin)
      ultimately show ?thesis unfolding IH(3) True by (cases "f d = 1") (simp_all, linarith)
    next
      case False
      then show ?thesis unfolding IH(3) by (cases "?f d = 0") simp_all
    qed
  qed
  moreover have "f' = (\<lambda>x. f x - int (count_list (d # ds) x))"
    unfolding IH(1) by (rule ext) simp
  ultimately show ?case using IH(2) by blast
qed simp

definition topo_list :: "('a \<Rightarrow> 'a list) \<Rightarrow> 'a list \<Rightarrow> bool" where
  "topo_list deps xs \<longleftrightarrow> (\<forall>ys c zs. xs = ys @ c # zs \<longrightarrow> set (deps c) \<subseteq> set ys)"

lemma topo_list_Nil [simp]: "topo_list deps []"
  by (simp add: topo_list_def)

lemma topo_list_snoc: "topo_list deps xs \<Longrightarrow> set (deps c) \<subseteq> set xs \<Longrightarrow> topo_list deps (xs @ [c])"
  unfolding topo_list_def
proof (intro allI impI)
  fix ys a zs
  assume t: "\<forall>ys c zs. xs = ys @ c # zs \<longrightarrow> set (deps c) \<subseteq> set ys" and c: "set (deps c) \<subseteq> set xs"
    and e: "xs @ [c] = ys @ a # zs"
  show "set (deps a) \<subseteq> set ys"
  proof (cases zs rule: rev_cases)
    case Nil
    with e c show ?thesis by simp
  next
    case (snoc zs' z)
    with e have "xs = ys @ a # zs'" by simp
    with t show ?thesis by blast
  qed
qed

definition open_edges :: "task_graph \<Rightarrow> string set \<Rightarrow> string \<Rightarrow> int" where
  "open_edges g P x = int (length (filter (\<lambda>e. e_To e = x \<and> e_From e \<notin> P) (g_Edges g)))"

definition kahn_inv :: "task_graph \<Rightarrow> string list \<Rightarrow> (string \<Rightarrow> int) \<Rightarrow> string list \<Rightarrow> bool" where
  "kahn_inv g P f Q \<longleftrightarrow> distinct (P @ Q) \<and> (\<forall>x. f x = open_edges g (set P) x) \<and>
     set P \<union> set Q = {x \<in> gm_keys (g_Nodes g). f x = 0} \<and> topo_list (Dependencies g) P"

lemma open_edges_0: "open_edges g P x = 0 \<longleftrightarrow> set (Dependencies g x) \<subseteq> P"
  by (auto simp: open_edges_def Dependencies_def filter_empty_conv)

lemma count_dependents:
  "int (count_list (dependents g c) x) = int (length (filter (\<lambda>e. e_To e = x \<and> e_From e = c) (g_Edges g)))"
proof -
  have "count_list (map e_To (filter (\<lambda>e. e_From e = c) es)) x =
        length (filter (\<lambda>e. e_To e = x \<and> e_From e = c) es)" for es
    by (induction es) auto
  then show ?thesis by (simp add: dependents_def)
qed

lemma open_edges_insert:
  "c \<notin> P \<Longrightarrow> open_edges g (insert c P) x = open_edges g P x - int (count_list (dependents g c) x)"
proof -
  assume c: "c \<notin> P"
  have "int (length (filter (\<lambda>e. e_To e = x \<and> e_From e \<notin> insert c P) es)) =
        int (length (filter (\<lambda>e. e_To e = x \<and> e_From e \<notin> P) es)) -
        int (length (filter (\<lambda>e. e_To e = x \<and> e_From e = c) es))" for es
    using c by (induction es) auto
  then show ?thesis by (simp add: open_edges_def count_dependents)
qed

lemma kahn_inv_step:
  assumes inv: "kahn_inv g P f (c # Q)" and relax: "kahn_relax (dependents g c) f Q = (f', Q')"
    and known: "\<forall>e \<in> set (g_Edges g). e_To e \<in> gm_keys (g_Nodes g)"
  shows "kahn_inv g (P @ [c]) f' Q'"
proof -
  let ?ds = "dependents g c"
  from inv have c: "c \<notin> set P" and dist: "distinct P" "distinct Q" "c \<notin> set Q" "set P \<inter> set Q = {}"
    and f: "\<And>x. f x = open_edges g (set P) x"
    and PQ: "set P \<union> set (c # Q) = {x \<in> gm_keys (g_Nodes g). f x = 0}"
    and topo: "topo_list (Dependencies g) P"
    by (auto simp: kahn_inv_def)
  have f': "open_edges g (insert c (set P)) x = f x - int (count_list ?ds x)" for x
    using open_edges_insert [OF c] f by simp
  have pos: "0 \<le> f x - int (count_list ?ds x)" for x
    using f' [of x] by (simp add: open_edges_def)
  have fin: "x \<notin> set ?ds" if "x \<in> set P \<union> set (c # Q)" for x
  proof -
    from that PQ have "f x = 0" by blast
    with pos [of x] show ?thesis by (simp add: count_list_0_iff)
  qed
  then have disj: "set Q \<inter> set ?ds = {}" by auto
  from kahn_relax_correct [OF relax _ dist(2) disj] pos
  have r: "f' = (\<lambda>x. f x - int (count_list ?ds x))" "distinct Q'"
    "set Q' = set Q \<union> {x \<in> set ?ds. f x = int (count_list ?ds x)}" by auto
  have keys: "x \<in> gm_keys (g_Nodes g)" if "x \<in> set ?ds" for x
    using that known by (auto simp: dependents_def)
  have "x \<in> set P \<union> {c} \<union> set Q' \<longleftrightarrow> x \<in> gm_keys (g_Nodes g) \<and> f' x = 0" for x
  proof (cases "x \<in> set ?ds")
    case True
    with r(1,3) keys fin [of x] show ?thesis by auto
  next
    case False
    with r(1,3) PQ show ?thesis by (auto simp: count_notin)
  qed
  moreover have "distinct ((P @ [c]) @ Q')"
    using c dist r(2,3) fin by auto
  moreover have "set (Dependencies g c) \<subseteq> set P"
    using PQ f open_edges_0 [of g "set P" c] by auto
  with topo have "topo_list (Dependencies g) (P @ [c])" by (rule topo_list_snoc)
  ultimately show ?thesis
    unfolding kahn_inv_def using f' r(1) by auto
qed

lemma kahn_inv_init:
  assumes "gm_wf (g_Nodes g)"
  shows "kahn_inv g [] (\<lambda>i. int (InDegree g i)) (sort (filter (\<lambda>i. int (InDegree g i) = 0) (map fst (g_Nodes g))))"
  using assms by (auto simp: kahn_inv_def open_edges_def InDegree_def gm_wf_def distinct_filter)

lemma kahn_loop_correct:
  assumes "kahn_inv g P f Q" "card (gm_keys (g_Nodes g)) \<le> fuel + length P"
    and "\<forall>e \<in> set (g_Edges g). e_To e \<in> gm_keys (g_Nodes g)"
  shows "\<exists>P' f'. kahn_loop fuel g f Q (map (\<lambda>i. sorted_node g i (node_at g i)) P) =
            Some (map (\<lambda>i. sorted_node g i (node_at g i)) P') \<and> kahn_inv g P' f' []"
  using assms
proof (induction fuel arbitrary: P f Q)
  case 0
  have PQ: "set (P @ Q) \<subseteq> gm_keys (g_Nodes g)" "distinct (P @ Q)"
    using 0(1) unfolding kahn_inv_def by auto
  have "length (P @ Q) \<le> card (gm_keys (g_Nodes g))"
    using card_mono [OF _ PQ(1)] distinct_card [OF PQ(2)] by simp
  then have "length Q = 0" using 0(2) unfolding length_append by linarith
  with 0(1) show ?case by auto
next
  case (Suc fuel)
  show ?case
  proof (cases Q)
    case Nil
    with Suc show ?thesis by auto
  next
    case (Cons c Q1)
    obtain f' Q' where r: "kahn_relax (dependents g c) f Q1 = (f', Q')" by fastforce
    from kahn_inv_step [OF _ r] Suc Cons have "kahn_inv g (P @ [c]) f' Q'" by simp
    from Suc.IH [OF this] Suc.prems obtain P' f'' where
      "kahn_loop fuel g f' Q' (map (\<lambda>i. sorted_node g i (node_at g i)) (P @ [c])) =
         Some (map (\<lambda>i. sorted_node g i (node_at g i)) P')" "kahn_inv g P' f'' []" by auto
    with Cons r show ?thesis by auto
  qed
qed

lemma kahn_complete:
  assumes inv: "kahn_inv g P f []" and r: "ranked (Dependencies g) (gm_keys (g_Nodes g)) rk"
  shows "set P = gm_keys (g_Nodes g)"
proof -
  have "set P \<union> set [] = {x \<in> gm_keys (g_Nodes g). f x = 0}" and
    f: "\<forall>x. f x = open_edges g (set P) x"
    using inv unfolding kahn_inv_def by blast+
  then have eq: "set P = {x \<in> gm_keys (g_Nodes g). f x = 0}" by simp
  have "x \<in> set P" if "x \<in> gm_keys (g_Nodes g)" for x
    using that
  proof (induction "rk x" arbitrary: x rule: less_induct)
    case less
    have "set (Dependencies g x) \<subseteq> set P"
    proof
      fix d assume "d \<in> set (Dependencies g x)"
      with r less.prems have "d \<in> gm_keys (g_Nodes g)" "rk d < rk x" unfolding ranked_def by blast+
      then show "d \<in> set P" by (intro less.hyps)
    qed
    then have "open_edges g (set P) x = 0" by (simp only: open_edges_0)
    with f have "f x = 0" by (simp only:)
    with eq less.prems show ?case by blast
  qed
  with eq show ?thesis by blast
qed

subsection \<open>The sort\<close>

lemma AddEdge_known:
  assumes "gm_get (g_Nodes g) i = Some node" "d \<in> set (st_DependsOn node)"
    "trim_space d = d" "d \<noteq> []" "d \<noteq> i" "trim_space i = i" "i \<noteq> []"
  shows "g_Nodes (snd (AddEdge d i g)) = g_Nodes g"
    "set (g_Edges (snd (AddEdge d i g))) = insert \<lparr>e_From = d, e_To = i\<rparr> (set (g_Edges g))"
  using assms by (simp_all add: AddEdge_def Let_def sync_depends_on_def insert_absorb)

lemma add_node_edges_known:
  "gm_get (g_Nodes g) i = Some node \<Longrightarrow> set ds \<subseteq> set (st_DependsOn node) \<Longrightarrow>
   \<forall>d \<in> set ds. trim_space d = d \<and> d \<noteq> [] \<and> d \<noteq> i \<Longrightarrow> trim_space i = i \<Longrightarrow> i \<noteq> [] \<Longrightarrow>
   g_Nodes (add_node_edges i ds g) = g_Nodes g \<and>
   set (g_Edges (add_node_edges i ds g)) = (\<lambda>d. \<lparr>e_From = d, e_To = i\<rparr>) ` set ds \<union> set (g_Edges g)"
proof (induction ds arbitrary: g)
  case (Cons d ds)
  note e = AddEdge_known [OF Cons.prems(1), of d]
  have "d \<in> set (st_DependsOn node)" "trim_space d = d" "d \<noteq> []" "d \<noteq> i" using Cons.prems by auto
  note e = e [OF this Cons.prems(4,5)]
  from Cons.IH [of "snd (AddEdge d i g)"] Cons.prems show ?case unfolding e by simp
qed simp

text \<open>Nodes whose dependencies the first pass of the sort turns into edges one for one.\<close>

definition deps_clean :: "(string, subtask) gomap \<Rightarrow> bool" where
  "deps_clean ns \<longleftrightarrow> (\<forall>(i, node) \<in> set ns. trim_space i = i \<and> i \<noteq> [] \<and>
     (\<forall>d \<in> set (st_DependsOn node). trim_space d = d \<and> d \<noteq> [] \<and> d \<noteq> i))"

lemma sync_edges_known:
  "gm_wf (g_Nodes g) \<Longrightarrow> set ns \<subseteq> set (g_Nodes g) \<Longrightarrow> deps_clean ns \<Longrightarrow>
   g_Nodes (sync_edges ns g) = g_Nodes g \<and>
   set (g_Edges (sync_edges ns g)) =
     (\<Union>(i, node) \<in> set ns. (\<lambda>d. \<lparr>e_From = d, e_To = i\<rparr>) ` set (st_DependsOn node)) \<union> set (g_Edges g)"
proof (induction ns arbitrary: g)
  case (Cons n ns)
  obtain i node where n: "n = (i, node)" by fastforce
  have get: "gm_get (g_Nodes g) i = Some node" using Cons.prems(1,2) n gm_get_in by fastforce
  have "\<forall>d \<in> set (st_DependsOn node). trim_space d = d \<and> d \<noteq> [] \<and> d \<noteq> i" "trim_space i = i" "i \<noteq> []"
    "deps_clean ns"
    using Cons.prems(3) unfolding deps_clean_def n by simp_all
  note a = add_node_edges_known [OF get subset_refl this(1-3)] and c = this(4)
  let ?g = "add_node_edges i (st_DependsOn node) g"
  have "gm_wf (g_Nodes ?g)" "set ns \<subseteq> set (g_Nodes ?g)" using Cons.prems a by simp_all
  from Cons.IH [OF this c] a show ?case unfolding n by auto
qed simp

lemma graph_wf_keys: "graph_wf g \<Longrightarrow> i \<in> gm_keys (g_Nodes g) \<Longrightarrow> i \<noteq> [] \<and> trim_space i = i"
  unfolding graph_wf_def by fastforce

lemma graph_wf_clean:
  assumes wf: "graph_wf g" and v: "Validate g = None"
  shows "deps_clean (g_Nodes g)"
proof -
  from wf have gw: "gm_wf (g_Nodes g)" by (simp add: graph_wf_def)
  then have "dag_spec g" using v by (simp add: Validate_iff)
  then have "check_nodes g (g_Nodes g) = None" by (rule dag_spec_checks [OF gw])
  then have c: "\<And>i node d. (i, node) \<in> set (g_Nodes g) \<Longrightarrow> d \<in> set (st_DependsOn node) \<Longrightarrow>
      d \<noteq> i \<and> d \<in> gm_keys (g_Nodes g)" unfolding check_nodes_None by blast
  have k: "\<And>i node. (i, node) \<in> set (g_Nodes g) \<Longrightarrow> i \<in> gm_keys (g_Nodes g)" by force
  show ?thesis unfolding deps_clean_def using c k graph_wf_keys [OF wf] by blast
qed

lemma sorted_graph:
  assumes wf: "graph_wf g" and v: "Validate g = None"
  defines "g' \<equiv> sync_edges (g_Nodes g) g"
  shows "g_Nodes g' = g_Nodes g" "set (Dependencies g' i) = set (all_deps g i)"
    "\<forall>e \<in> set (g_Edges g'). e_To e \<in> gm_keys (g_Nodes g')"
proof -
  from wf have gw: "gm_wf (g_Nodes g)" by (simp add: graph_wf_def)
  note s = sync_edges_known [OF gw subset_refl graph_wf_clean [OF wf v]]
  show n: "g_Nodes g' = g_Nodes g" using s by (simp add: g'_def)
  have "d \<in> set (Dependencies g' i) \<longleftrightarrow> d \<in> set (all_deps g i)" for d
    using s unfolding g'_def all_deps_mem [OF gw] Dependencies_mem
    by (auto simp: gm_get_in [OF gw, symmetric])
  then show "set (Dependencies g' i) = set (all_deps g i)" by blast
  have "\<forall>e \<in> set (g_Edges g). e_To e \<in> gm_keys (g_Nodes g)"
    using v Validate_iff [OF gw] unfolding dag_spec_def by blast
  with s show "\<forall>e \<in> set (g_Edges g'). e_To e \<in> gm_keys (g_Nodes g')"
    unfolding g'_def by (auto intro: rev_image_eqI)
qed

lemma Validate_ranked:
  assumes gw: "gm_wf (g_Nodes g)" and v: "Validate g = None"
  shows "\<exists>r. ranked (all_deps g) (gm_keys (g_Nodes g)) r"
proof -
  from v obtain c where
    "check_edges g (g_Edges g) = None" "check_nodes g (g_Nodes g) = None"
    and c: "dfs_list (Suc (length (g_Nodes g))) (all_deps g) (map fst (g_Nodes g)) (\<lambda>_. 0) = Some (Inr c)"
    by (auto simp: Validate_def split: if_splits option.splits sum.splits)
  then have rel: "dep_rel (all_deps g) \<subseteq> gm_keys (g_Nodes g) \<times> gm_keys (g_Nodes g)"
    by (intro refs_known_rel gw checks_refs_known)
  have "\<exists>r. ranked (all_deps g) (black (\<lambda>_. 0)) r" by (simp add: ranked_def)
  from dfs_sound(2) [OF c this] obtain r where "ranked (all_deps g) (black c) r" "gm_keys (g_Nodes g) \<subseteq> black c"
    by auto
  then have "ranked (all_deps g) (gm_keys (g_Nodes g)) r" using rel unfolding ranked_def dep_rel_def by blast
  then show ?thesis by blast
qed

lemma ranked_cong: "(\<And>x. set (d x) = set (d' x)) \<Longrightarrow> ranked d S r = ranked d' S r"
  by (simp add: ranked_def)

lemma topo_list_cong: "(\<And>x. set (d x) = set (d' x)) \<Longrightarrow> topo_list d xs = topo_list d' xs"
  by (simp add: topo_list_def)

lemma TopologicalSort_run:
  assumes wf: "graph_wf g" and v: "Validate g = None"
  defines "g' \<equiv> sync_edges (g_Nodes g) g"
  shows "\<exists>P. TopologicalSort g = (Inr (map (\<lambda>i. sorted_node g' i (node_at g' i)) P), g') \<and>
     distinct P \<and> set P = gm_keys (g_Nodes g) \<and> topo_list (all_deps g) P"
proof -
  from wf have gw: "gm_wf (g_Nodes g)" by (simp add: graph_wf_def)
  note s = sorted_graph [OF wf v, folded g'_def]
  let ?f = "\<lambda>i. int (InDegree g' i)"
  let ?q = "sort (filter (\<lambda>i. int (InDegree g' i) = 0) (map fst (g_Nodes g')))"
  have len: "card (gm_keys (g_Nodes g')) \<le> Suc (length (g_Nodes g')) + length []"
    using gm_length [OF gw] by (simp add: s(1))
  from gw have "kahn_inv g' [] ?f ?q" by (intro kahn_inv_init) (simp add: s(1))
  from kahn_loop_correct [OF this len s(3)] obtain P f' where
    run: "kahn_loop (Suc (length (g_Nodes g'))) g' ?f ?q [] = Some (map (\<lambda>i. sorted_node g' i (node_at g' i)) P)"
    and inv: "kahn_inv g' P f' []" by auto
  from Validate_ranked [OF gw v] obtain r where "ranked (all_deps g) (gm_keys (g_Nodes g)) r" ..
  then have "ranked (Dependencies g') (gm_keys (g_Nodes g')) r"
    by (simp add: s(1) ranked_cong [of "Dependencies g'" "all_deps g", OF s(2)])
  from kahn_complete [OF inv this] have P: "set P = gm_keys (g_Nodes g)" by (simp add: s(1))
  have d: "distinct P" "topo_list (Dependencies g') P" using inv unfolding kahn_inv_def by auto
  have "length P = length (g_Nodes g)" using P gm_length [OF gw] distinct_card [OF d(1)] by simp
  with run v have "TopologicalSort g = (Inr (map (\<lambda>i. sorted_node g' i (node_at g' i)) P), g')"
    by (simp add: TopologicalSort_def g'_def [symmetric] Let_def s(1))
  with P d show ?thesis by (auto simp: topo_list_cong [of "Dependencies g'" "all_deps g", OF s(2)])
qed

lemma node_at_ID: "graph_wf g \<Longrightarrow> i \<in> gm_keys (g_Nodes g) \<Longrightarrow> st_ID (node_at g i) = i"
  unfolding graph_wf_def node_at_def
  by (auto simp: gm_get_None split: option.split dest!: map_of_SomeD dest: bspec)


subsection \<open>Ready nodes\<close>

lemma ReadyNodes_set:
  "set (ReadyNodes g completed) =
     {node. \<exists>i. (i, node) \<in> set (g_Nodes g) \<and> \<not> completed i \<and> (\<forall>d \<in> set (Dependencies g i). completed d)}"
  by (force simp: ReadyNodes_def list_all_iff)

text \<open>The least incomplete node, by rank, is ready: a validated graph never stalls.\<close>

lemma ranked_frontier:
  assumes r: "ranked deps S r" and x: "x \<in> S" "\<not> completed x"
  shows "\<exists>y \<in> S. \<not> completed y \<and> (\<forall>d \<in> set (deps y). completed d)"
  using x
proof (induction "r x" arbitrary: x rule: less_induct)
  case less
  then show ?case using r unfolding ranked_def by blast
qed

lemma ReadyNodes_progress:
  assumes gw: "gm_wf (g_Nodes g)" and v: "Validate g = None"
    and x: "x \<in> gm_keys (g_Nodes g)" "\<not> completed x"
  shows "ReadyNodes g completed \<noteq> []"
proof -
  from Validate_ranked [OF gw v] obtain r where "ranked (all_deps g) (gm_keys (g_Nodes g)) r" by blast
  from ranked_frontier [of _ _ r x completed, OF this x] obtain y where y: "y \<in> gm_keys (g_Nodes g)" "\<not> completed y"
    "\<forall>d \<in> set (all_deps g y). completed d" by blast
  from y(1) obtain node where "(y, node) \<in> set (g_Nodes g)" by auto
  moreover have "\<forall>d \<in> set (Dependencies g y). completed d" using y(3) by (simp add: all_deps_def)
  ultimately have "node \<in> set (ReadyNodes g completed)" using y(2) unfolding ReadyNodes_set by blast
  then show ?thesis by auto
qed

subsection \<open>Reachable graphs\<close>

text \<open>The graphs that the exported builders of the package can produce, failed calls included.\<close>

inductive built :: "task_graph \<Rightarrow> bool" where
  built_new: "built NewTaskGraph"
| built_node: "built g \<Longrightarrow> built (snd (AddNode st g))"
| built_edge: "built g \<Longrightarrow> built (snd (AddEdge from to g))"
| built_chain: "built g \<Longrightarrow> built (snd (AddChain ss g))"
| built_group: "built g \<Longrightarrow> built (snd (AddParallelGroup ss g))"

lemma built_wf: "built g \<Longrightarrow> graph_wf g"
  by (induction rule: built.induct) (simp_all add: graph_wf_ops)

lemma letters_digit36: "list_all (\<lambda>i. ''abcdefghijklmnopqrstuvwxyz'' ! i = digit36 (i + 10)) [0..<26]"
  by (simp add: upt_rec digit36_def digits36_def)

lemma format_base_digit: "k < 36 \<Longrightarrow> format_base 36 k = [digit36 k]"
  by (cases "k = 0")
    (simp_all add: format_base_def digit36_def digits36_def format_base_acc.simps [of 36 k]
      format_base_acc.simps [of 36 0])

lemma idFor_cases:
  "i < 26 \<Longrightarrow> idFor i = ''sub-'' @ [digit36 (i + 10)]"
  "26 \<le> i \<Longrightarrow> i < 36 \<Longrightarrow> idFor i = ''sub-'' @ [CHR ''0'', digit36 (i - 26)]"
  "36 \<le> i \<Longrightarrow> idFor i = ''sub-'' @ format_base 36 i"
proof -
  show "idFor i = ''sub-'' @ [digit36 (i + 10)]" if "i < 26"
    using that letters_digit36 by (simp add: idFor_def list_all_iff)
qed (simp_all add: idFor_def format_base_digit)

lemma idFor_parse:
  "parse_digits 36 (drop 4 (idFor i)) 0 = Some (if i < 26 then i + 10 else if i < 36 then i - 26 else i)"
proof -
  consider "i < 26" | "26 \<le> i" "i < 36" | "36 \<le> i" by linarith
  then show ?thesis
  proof cases
    case 2
    then have "digit_value (digit36 (i - 26)) = Some (i - 26)" by (simp add: digit_value_digit36)
    moreover have "digit_value (CHR ''0'') = Some 0" by (simp add: digit_value_def)
    ultimately show ?thesis using 2 by (simp add: idFor_cases(2))
  qed (simp_all add: idFor_cases digit_value_digit36 parse_format_base)
qed

lemma idFor_length: "i < 26 \<Longrightarrow> length (idFor i) = 5" "26 \<le> i \<Longrightarrow> i < 36 \<Longrightarrow> length (idFor i) = 6"
  by (simp_all add: idFor_cases)

lemma idFor_eq: "idFor i = idFor j \<longleftrightarrow> i = j"
proof
  assume eq: "idFor i = idFor j"
  then have p: "(if i < 26 then i + 10 else if i < 36 then i - 26 else i) =
      (if j < 26 then j + 10 else if j < 36 then j - 26 else j)"
    using idFor_parse [of i] idFor_parse [of j] by simp
  have "i < 26 \<Longrightarrow> \<not> (26 \<le> j \<and> j < 36)" "j < 26 \<Longrightarrow> \<not> (26 \<le> i \<and> i < 36)"
    using eq idFor_length [of i] idFor_length [of j] by auto
  with p show "i = j" by (simp split: if_splits)
qed simp

subsection \<open>Properties\<close>

text \<open>A diamond of four nodes, on which the witnesses evaluate the operations.\<close>

definition sample_node :: "string \<Rightarrow> string list \<Rightarrow> subtask" where
  "sample_node i ds = zero_subtask\<lparr>st_ID := i, st_DependsOn := ds\<rparr>"

definition sample_graph :: task_graph where
  "sample_graph =
     (let g = snd (AddParallelGroup [sample_node ''d'' [''b'', ''c''], sample_node ''b'' [''a'']] NewTaskGraph)
      in snd (AddChain [sample_node ''a'' [], sample_node ''c'' []] g))"

lemma sample_graph_built: "built sample_graph"
  unfolding sample_graph_def Let_def by (intro built.intros)

lemma sample_graph_wf: "graph_wf sample_graph" "gm_wf (g_Nodes sample_graph)"
  using built_wf [OF sample_graph_built] by (simp_all add: graph_wf_def)

lemma sample_graph_valid: "Validate sample_graph = None"
  by code_simp

text \<open>C1: validation decides its specification. \<^verbatim>\<open>Validate\<close> accepts a graph exactly when it
  has between one and 64 nodes, every edge and every \<^verbatim>\<open>DependsOn\<close> entry names a node, and the
  dependency relation formed by both has no cycle; and its depth-first search never stops
  for lack of fuel.\<close>

theorem Validate_decides:
  assumes "gm_wf (g_Nodes g)"
  shows "(Validate g = None \<longleftrightarrow> dag_spec g) \<and> Validate g \<noteq> Some SearchExhausted"
  using assms Validate_iff Validate_no_exhaustion by blast

theorem Validate_decides_witness:
  "dag_spec sample_graph \<and> Validate (snd (AddEdge ''d'' ''a'' sample_graph)) = Some (CycleAt ''d'') \<and>
   \<not> dag_spec (snd (AddEdge ''d'' ''a'' sample_graph))"
proof -
  have c: "Validate (snd (AddEdge ''d'' ''a'' sample_graph)) = Some (CycleAt ''d'')" by code_simp
  have "graph_wf (snd (AddEdge ''d'' ''a'' sample_graph))" by (intro graph_wf_AddEdge sample_graph_wf)
  then show ?thesis
    using c Validate_decides [OF sample_graph_wf(2)] sample_graph_valid
      Validate_decides [of "snd (AddEdge ''d'' ''a'' sample_graph)"]
    by (simp add: graph_wf_def)
qed

text \<open>C2: on a graph that validates, the sort succeeds; it returns every node of the graph
  exactly once, each after all the nodes it depends on, through an edge or through its own
  \<^verbatim>\<open>DependsOn\<close> list.\<close>

theorem TopologicalSort_correct:
  assumes "graph_wf g" "Validate g = None"
  shows "\<exists>result g'. TopologicalSort g = (Inr result, g') \<and> distinct (map st_ID result) \<and>
     set (map st_ID result) = gm_keys (g_Nodes g) \<and> topo_list (all_deps g) (map st_ID result)"
proof -
  let ?g = "sync_edges (g_Nodes g) g"
  from TopologicalSort_run [OF assms] obtain P where
    P: "TopologicalSort g = (Inr (map (\<lambda>i. sorted_node ?g i (node_at ?g i)) P), ?g)"
    "distinct P" "set P = gm_keys (g_Nodes g)" "topo_list (all_deps g) P" by blast
  have "node_at ?g i = node_at g i" for i by (simp add: node_at_def sorted_graph(1) [OF assms])
  then have "map st_ID (map (\<lambda>i. sorted_node ?g i (node_at ?g i)) P) = P"
    using P(3) node_at_ID [OF assms(1)] by (auto simp: sorted_node_def comp_def intro!: map_idI)
  with P show ?thesis by metis
qed


theorem TopologicalSort_correct_witness:
  "\<exists>result g'. TopologicalSort sample_graph = (Inr result, g') \<and> length result = 4 \<and>
     set (map st_ID result) = {''d'', ''b'', ''a'', ''c''}"
proof -
  from TopologicalSort_correct [OF sample_graph_wf(1) sample_graph_valid] obtain result g' where
    r: "TopologicalSort sample_graph = (Inr result, g')" "distinct (map st_ID result)"
      "set (map st_ID result) = gm_keys (g_Nodes sample_graph)" by blast
  have k: "map fst (g_Nodes sample_graph) = [''d'', ''b'', ''a'', ''c'']" by code_simp
  then have s: "gm_keys (g_Nodes sample_graph) = {''d'', ''b'', ''a'', ''c''}" by (simp only: set_map [symmetric] list.set)
  have "length (map fst (g_Nodes sample_graph)) = 4" unfolding k by simp
  then have "length result = 4"
    using r(3) distinct_card [OF r(2)] gm_length [OF sample_graph_wf(2)] by (simp only: length_map)
  with r(1) r(3) [unfolded s] show ?thesis by blast
qed



text \<open>C4: every graph the package's builders can produce, failed calls included, is well
  formed: nodes are stored under their own trimmed and non-empty identifier, edges join two
  distinct trimmed identifiers, and no edge is stored twice.\<close>

theorem built_graphs_well_formed:
  assumes "built g"
  shows "graph_wf g"
  using assms by (rule built_wf)

theorem built_graphs_well_formed_witness:
  "graph_wf sample_graph \<and> length (g_Nodes sample_graph) = 4 \<and>
   g_Edges sample_graph = [\<lparr>e_From = ''a'', e_To = ''c''\<rparr>]"
proof -
  have "length (g_Nodes sample_graph) = 4" "g_Edges sample_graph = [\<lparr>e_From = ''a'', e_To = ''c''\<rparr>]"
    by code_simp+
  with built_graphs_well_formed [OF sample_graph_built] show ?thesis by blast
qed

text \<open>The automatic identifiers of subtasks never collide: \<^verbatim>\<open>idFor\<close> is injective over all
  positions, across its three spellings (letter, digit with a leading zero, base 36).\<close>

theorem idFor_injective: "idFor i = idFor j \<longleftrightarrow> i = j"
  by (rule idFor_eq)

text \<open>A chain of two subtasks without identifiers is refused: the edge to the second one
  is built from the empty identifier that the caller passed for the first, not from the
  identifier that the loop has just generated for it, although both nodes have been added.\<close>

theorem AddChain_auto_ids_fail:
  assumes "st_ID s1 = []" "st_ID s2 = []"
  shows "\<exists>g. AddChain [s1, s2] NewTaskGraph = (Inl EmptyEndpoint, g) \<and>
    map fst (g_Nodes g) = [''sub-a'', ''sub-b'']"
proof -
  have "trim_space ''sub-a'' = ''sub-a''" "trim_space ''sub-b'' = ''sub-b''" by code_simp+
  then show ?thesis using assms
    by (simp add: AddChain_def NewTaskGraph_def AddNode_def AddEdge_def Let_def idFor_def)
qed

theorem AddChain_auto_ids_fail_witness:
  "fst (AddChain [sample_node [] [], sample_node [] []] NewTaskGraph) = Inl EmptyEndpoint"
proof -
  have "st_ID (sample_node [] []) = []" by (simp add: sample_node_def)
  from AddChain_auto_ids_fail [OF this this] show ?thesis by auto
qed

end
