(* ===== verification/Task_Plan.thy ===== *)
theory Task_Plan
  imports Task_Graph
begin

text \<open>
  Caller-provided plans: the role registry of \<^verbatim>\<open>internal/scheduler/agents.go\<close>, the
  normalisation and validation of \<^verbatim>\<open>ValidatePlan\<close>, the heuristic classification it falls
  back on, the synthesis step that \<^verbatim>\<open>Decompose\<close> appends, and the graph that
  \<^verbatim>\<open>TaskGraphFromSubtasks\<close> builds from a plan. The lemmas show that the result of
  \<^verbatim>\<open>ValidatePlan\<close> is a normal form, that it has no dependency cycle, and that the graph
  built from it always validates.
\<close>

subsection \<open>Agent profiles\<close>

record agent_profile =
  ap_Role :: string
  ap_TaskType :: string
  ap_Instructions :: string
  ap_Tools :: "string list"

type_synonym profiles = "(string, agent_profile) gomap"

abbreviation builtin_profile :: "string \<Rightarrow> string \<Rightarrow> string \<Rightarrow> string \<times> agent_profile" where
  "builtin_profile role ttype instr \<equiv>
     (role, \<lparr>ap_Role = role, ap_TaskType = ttype, ap_Instructions = instr, ap_Tools = []\<rparr>)"

definition agentProfiles :: profiles where
  "agentProfiles =
     [builtin_profile ''analyst'' ''math''
        ''Analyze the problem carefully, show the relevant reasoning, and distinguish facts from assumptions.'',
      builtin_profile ''coder'' ''code''
        ''Produce correct, maintainable code or a concrete implementation plan. State important assumptions and edge cases.'',
      builtin_profile ''general'' ''general''
        ''Complete the assigned task accurately and keep the response focused on its expected output.'',
      builtin_profile ''researcher'' ''general''
        ''Gather and organize relevant evidence. Clearly mark uncertainty and do not invent citations or facts.'',
      builtin_profile ''reviewer'' ''general''
        ''Review the supplied work against the requested criteria. Return a JSON object with approved (boolean) and issues (array of concrete errors, omissions, or unsupported claims). Approve only when the work satisfies the stated criteria.'',
      builtin_profile ''summarizer'' ''summarize''
        ''Preserve the key facts and qualifications while removing repetition and irrelevant detail.'',
      builtin_profile ''translator'' ''translate''
        ''Translate faithfully, preserving meaning, tone, names, and formatting.'',
      builtin_profile ''writer'' ''creative''
        ''Write a clear, coherent response that follows the requested audience, format, and style.'']"

text \<open>The registry of custom profiles is an immutable snapshot that every registration replaces.\<close>

definition RegisterCustomAgentProfile :: "string \<Rightarrow> agent_profile \<Rightarrow> profiles \<Rightarrow> profiles" where
  "RegisterCustomAgentProfile role profile customProfiles =
     gm_put (to_lower (trim_space role)) profile customProfiles"

definition AgentProfileFor :: "profiles \<Rightarrow> string \<Rightarrow> agent_profile option" where
  "AgentProfileFor customProfiles role =
     (let key = to_lower (trim_space role)
      in case gm_get customProfiles key of
           Some custom \<Rightarrow> Some custom
         | None \<Rightarrow> gm_get agentProfiles key)"

definition roleForTaskType :: "string \<Rightarrow> string" where
  "roleForTaskType taskType =
     (if taskType = ''code'' then ''coder''
      else if taskType = ''math'' then ''analyst''
      else if taskType = ''summarize'' then ''summarizer''
      else if taskType = ''translate'' then ''translator''
      else if taskType = ''creative'' then ''writer''
      else if taskType = ''vision'' then ''analyst''
      else ''general'')"

subsection \<open>Classification\<close>

definition containsAny :: "string \<Rightarrow> string list \<Rightarrow> bool" where
  "containsAny s needles = list_ex (contains_sub s) needles"

definition classify :: "string \<Rightarrow> string" where
  "classify desc =
     (let d = to_lower desc
      in if containsAny d [''code'', ''function'', ''bug'', ''implement'', ''refactor'', ''compile'', ''script'', ''api''] then ''code''
         else if containsAny d [''summarize'', ''summary'', ''tl;dr'', ''condense''] then ''summarize''
         else if containsAny d [''translate'', ''translation''] then ''translate''
         else if containsAny d [''solve'', ''calculate'', ''equation'', ''math'', ''compute''] then ''math''
         else if containsAny d [''image'', ''photo'', ''picture'', ''diagram'', ''screenshot''] then ''vision''
         else if containsAny d [''story'', ''poem'', ''write a'', ''creative'', ''imagine''] then ''creative''
         else ''general'')"

definition tagsFor :: "string \<Rightarrow> string list" where
  "tagsFor taskType = (if taskType = ''general'' then [''general''] else [taskType, ''general''])"

subsection \<open>Validation of a plan\<close>

datatype plan_error =
    PlanEmpty
  | PlanTooLarge
  | DuplicateSubtask string
  | NoDescription string
  | BadRoutingPreference
  | UnknownRole string string
  | UnsupportedFormat string string
  | FieldsNeedJson string
  | BadMaxRetries string
  | EmptyRequiredField string
  | PlanSelfDependency string
  | PlanUnknownDependency string string
  | PlanCycleAt string
  | PlanSearchExhausted
  | PlanGraphError graph_error

text \<open>
  \<^verbatim>\<open>validateSubtask\<close>. The code trims the required fields in the caller's slice; the value
  returned is the same.
\<close>

definition validate_role :: "subtask \<Rightarrow> subtask" where
  "validate_role s0 =
     (let s = s0\<lparr>st_Role := to_lower (trim_space (st_Role s0))\<rparr>
      in if st_Role s = [] then s\<lparr>st_Role := roleForTaskType (st_TaskType s)\<rparr> else s)"

definition validate_format :: "subtask \<Rightarrow> subtask" where
  "validate_format s =
     (let f = to_lower (trim_space (st_OutputFormat s))
      in s\<lparr>st_ExpectedOutput := trim_space (st_ExpectedOutput s),
           st_OutputFormat := (if f = [] then ''text'' else f)\<rparr>)"

definition validate_reviewer :: "subtask \<Rightarrow> subtask" where
  "validate_reviewer s =
     (if st_Role s = ''reviewer'' then
        s\<lparr>st_OutputFormat := ''json'',
          st_RequiredFields := (if st_RequiredFields s = [] then [''approved'', ''issues''] else st_RequiredFields s)\<rparr>
      else s)"

definition validateSubtask :: "profiles \<Rightarrow> subtask \<Rightarrow> plan_error + subtask" where
  "validateSubtask customProfiles s0 =
     (let s = validate_role s0
      in case AgentProfileFor customProfiles (st_Role s) of
           None \<Rightarrow> Inl (UnknownRole (st_ID s) (st_Role s))
         | Some profile \<Rightarrow>
             (let s = (if st_TaskType s = [] then s\<lparr>st_TaskType := ap_TaskType profile\<rparr> else s);
                  s = validate_format s
              in if st_OutputFormat s \<noteq> ''text'' \<and> st_OutputFormat s \<noteq> ''json''
                 then Inl (UnsupportedFormat (st_ID s) (st_OutputFormat s))
                 else
                   (let s = validate_reviewer s
                    in if st_RequiredFields s \<noteq> [] \<and> st_OutputFormat s \<noteq> ''json'' then Inl (FieldsNeedJson (st_ID s))
                       else if st_MaxRetries s < 0 \<or> 2 < st_MaxRetries s then Inl (BadMaxRetries (st_ID s))
                       else
                         (let s = (if st_OutputFormat s = ''json'' \<and> st_MaxRetries s = 0
                                   then s\<lparr>st_MaxRetries := 1\<rparr> else s);
                              fields = map trim_space (st_RequiredFields s)
                          in if [] \<in> set fields then Inl (EmptyRequiredField (st_ID s))
                             else Inr (s\<lparr>st_RequiredFields := uniqueStrings fields\<rparr>)))))"

text \<open>
  One round of the first loop of \<^verbatim>\<open>ValidatePlan\<close>, for the subtask at position \<open>i\<close>: the trimmed
  and defaulted fields first, since computing them cannot fail, then the checks in the order
  of the code.
\<close>

definition plan_defaults :: "nat \<Rightarrow> subtask \<Rightarrow> subtask" where
  "plan_defaults i s =
     (let ident = trim_space (st_ID s);
          desc = trim_space (st_Description s);
          ttype = to_lower (trim_space (st_TaskType s))
      in s\<lparr>st_ID := (if ident = [] then idFor i else ident),
           st_Description := desc,
           st_TaskType := (if ttype = [] then classify desc else ttype),
           st_RoutingPreference := to_lower (trim_space (st_RoutingPreference s))\<rparr>)"

definition plan_lists :: "subtask \<Rightarrow> subtask" where
  "plan_lists s =
     s\<lparr>st_Tags := (if st_Tags s = [] then tagsFor (st_TaskType s) else st_Tags s),
       st_DependsOn := uniqueStrings (st_DependsOn s)\<rparr>"

definition normalize_subtask ::
  "profiles \<Rightarrow> nat \<Rightarrow> (string, nat) gomap \<Rightarrow> subtask \<Rightarrow> plan_error + subtask" where
  "normalize_subtask customProfiles i positions s0 =
     (let s = plan_defaults i s0
      in if gm_get positions (st_ID s) \<noteq> None then Inl (DuplicateSubtask (st_ID s))
         else if st_Description s = [] then Inl (NoDescription (st_ID s))
         else if st_RoutingPreference s \<noteq> [] \<and> st_RoutingPreference s \<noteq> ''quality'' \<and>
                 st_RoutingPreference s \<noteq> ''latency'' then Inl BadRoutingPreference
         else case validateSubtask customProfiles s of
                Inl e \<Rightarrow> Inl e
              | Inr v \<Rightarrow> Inr (plan_lists v))"

fun normalize_plan ::
  "profiles \<Rightarrow> subtask list \<Rightarrow> subtask list \<Rightarrow> (string, nat) gomap \<Rightarrow> plan_error + subtask list \<times> (string, nat) gomap" where
  "normalize_plan customProfiles [] out positions = Inr (out, positions)"
| "normalize_plan customProfiles (s # ss) out positions =
     (case normalize_subtask customProfiles (length out) positions s of
        Inl e \<Rightarrow> Inl e
      | Inr s' \<Rightarrow> normalize_plan customProfiles ss (out @ [s']) (gm_put (st_ID s') (length out) positions))"

fun check_deps :: "(string, nat) gomap \<Rightarrow> string \<Rightarrow> string list \<Rightarrow> plan_error option" where
  "check_deps positions i [] = None"
| "check_deps positions i (d # ds) =
     (if d = i then Some (PlanSelfDependency i)
      else if gm_get positions d = None then Some (PlanUnknownDependency i d)
      else check_deps positions i ds)"

fun check_plan :: "(string, nat) gomap \<Rightarrow> subtask list \<Rightarrow> plan_error option" where
  "check_plan positions [] = None"
| "check_plan positions (s # ss) =
     (case check_deps positions (st_ID s) (st_DependsOn s) of
        Some e \<Rightarrow> Some e
      | None \<Rightarrow> check_plan positions ss)"

text \<open>The dependencies that the search follows; a missing key of \<^verbatim>\<open>positions\<close> reads as zero.\<close>

definition plan_deps :: "subtask list \<Rightarrow> (string, nat) gomap \<Rightarrow> string \<Rightarrow> string list" where
  "plan_deps out positions i =
     st_DependsOn (out ! (case gm_get positions i of None \<Rightarrow> 0 | Some k \<Rightarrow> k))"

definition ValidatePlan :: "profiles \<Rightarrow> subtask list \<Rightarrow> plan_error + subtask list" where
  "ValidatePlan customProfiles subtasks =
     (if subtasks = [] then Inl PlanEmpty
      else if 64 < length subtasks then Inl PlanTooLarge
      else case normalize_plan customProfiles subtasks [] [] of
             Inl e \<Rightarrow> Inl e
           | Inr (out, positions) \<Rightarrow>
               (case check_plan positions out of
                  Some e \<Rightarrow> Inl e
                | None \<Rightarrow>
                    (case dfs_list (Suc (length out)) (plan_deps out positions) (map st_ID out) (\<lambda>_. 0) of
                       None \<Rightarrow> Inl PlanSearchExhausted
                     | Some (Inl i) \<Rightarrow> Inl (PlanCycleAt i)
                     | Some (Inr _) \<Rightarrow> Inr out)))"

subsection \<open>The graph of a plan\<close>

fun add_plan_nodes :: "subtask list \<Rightarrow> task_graph \<Rightarrow> graph_error + task_graph" where
  "add_plan_nodes [] g = Inr g"
| "add_plan_nodes (s # ss) g =
     (case AddNode s g of (Some e, _) \<Rightarrow> Inl e | (None, g') \<Rightarrow> add_plan_nodes ss g')"

fun add_plan_deps :: "string \<Rightarrow> string list \<Rightarrow> task_graph \<Rightarrow> graph_error + task_graph" where
  "add_plan_deps i [] g = Inr g"
| "add_plan_deps i (d # ds) g =
     (case AddEdge d i g of (Some e, _) \<Rightarrow> Inl e | (None, g') \<Rightarrow> add_plan_deps i ds g')"

fun add_plan_edges :: "subtask list \<Rightarrow> task_graph \<Rightarrow> graph_error + task_graph" where
  "add_plan_edges [] g = Inr g"
| "add_plan_edges (s # ss) g =
     (case add_plan_deps (st_ID s) (st_DependsOn s) g of
        Inl e \<Rightarrow> Inl e
      | Inr g' \<Rightarrow> add_plan_edges ss g')"

definition TaskGraphFromSubtasks :: "profiles \<Rightarrow> subtask list \<Rightarrow> plan_error + task_graph" where
  "TaskGraphFromSubtasks customProfiles subtasks =
     (case ValidatePlan customProfiles subtasks of
        Inl e \<Rightarrow> Inl e
      | Inr normalized \<Rightarrow>
          (case add_plan_nodes normalized NewTaskGraph of
             Inl e \<Rightarrow> Inl (PlanGraphError e)
           | Inr g \<Rightarrow>
               (case add_plan_edges normalized g of
                  Inl e \<Rightarrow> Inl (PlanGraphError e)
                | Inr g' \<Rightarrow> Inr g')))"

subsection \<open>The synthesis step\<close>

text \<open>
  The first free identifier among \<^verbatim>\<open>synthesis\<close>, \<^verbatim>\<open>synthesis-2\<close>, and so on. There are more
  candidates than used identifiers, so \<open>Suc (length used)\<close> rounds are enough.
\<close>

definition synthesis_id :: "nat \<Rightarrow> string" where
  "synthesis_id suffix = ''synthesis-'' @ format_base 10 suffix"

fun free_synthesis_id :: "nat \<Rightarrow> string list \<Rightarrow> nat \<Rightarrow> string \<Rightarrow> string option" where
  "free_synthesis_id 0 used suffix i = None"
| "free_synthesis_id (Suc fuel) used suffix i =
     (if i \<in> set used then free_synthesis_id fuel used (Suc suffix) (synthesis_id suffix) else Some i)"

definition addSynthesisSubtask :: "subtask list \<Rightarrow> string \<Rightarrow> subtask list option" where
  "addSynthesisSubtask subtasks description =
     (if subtasks = [] \<or> 64 \<le> length subtasks then Some subtasks
      else
        (let dependedOn = concat (map st_DependsOn subtasks);
             dependencies = filter (\<lambda>i. i \<notin> set dependedOn) (map st_ID subtasks)
         in case free_synthesis_id (Suc (length subtasks)) (map st_ID subtasks) 2 ''synthesis'' of
              None \<Rightarrow> None
            | Some i \<Rightarrow>
                Some (subtasks @ [zero_subtask\<lparr>st_ID := i,
                  st_Description := ''Synthesize the completed results into a coherent answer to the original task: '' @ trim_space description,
                  st_Role := ''summarizer'', st_TaskType := ''summarize'', st_Tags := tagsFor ''summarize'',
                  st_DependsOn := dependencies,
                  st_ExpectedOutput := ''A concise integrated response addressing the original task.'',
                  st_Synthesis := True\<rparr>])))"

subsection \<open>Normal forms\<close>

abbreviation clean_string :: "string \<Rightarrow> bool" where
  "clean_string v \<equiv> v \<noteq> [] \<and> trim_space v = v"

abbreviation unique_step :: "string list \<Rightarrow> string \<Rightarrow> string list" where
  "unique_step \<equiv> \<lambda>out v. let v' = trim_space v in if v' \<noteq> [] \<and> v' \<notin> set out then v' # out else out"

lemma unique_fold:
  "distinct out \<Longrightarrow> list_all clean_string out \<Longrightarrow>
     distinct (foldl unique_step out xs) \<and> list_all clean_string (foldl unique_step out xs) \<and>
     set (foldl unique_step out xs) = set out \<union> (trim_space ` set xs - {[]})"
proof (induction xs arbitrary: out)
  case (Cons x xs)
  have d: "distinct (unique_step out x)" and c: "list_all clean_string (unique_step out x)"
    and s: "set (unique_step out x) = set out \<union> ({trim_space x} - {[]})"
    using Cons.prems by (auto simp: Let_def)
  from Cons.IH [OF d c] s show ?case by auto
qed simp

lemma uniqueStrings_set: "set (uniqueStrings xs) = trim_space ` set xs - {[]}"
  and uniqueStrings_distinct: "distinct (uniqueStrings xs)"
  and uniqueStrings_clean: "list_all clean_string (uniqueStrings xs)"
  using unique_fold [of "[]" xs] by (simp_all add: uniqueStrings_def)

lemma unique_fold_id:
  "distinct (rev out @ xs) \<Longrightarrow> list_all clean_string xs \<Longrightarrow> rev (foldl unique_step out xs) = rev out @ xs"
proof (induction xs arbitrary: out)
  case (Cons x xs)
  then have "unique_step out x = x # out" by (simp add: Let_def)
  with Cons.IH [of "x # out"] Cons.prems show ?case by simp
qed simp

lemma uniqueStrings_id: "distinct xs \<Longrightarrow> list_all clean_string xs \<Longrightarrow> uniqueStrings xs = xs"
  using unique_fold_id [of "[]" xs] by (simp add: uniqueStrings_def)

lemma uniqueStrings_idem [simp]: "uniqueStrings (uniqueStrings xs) = uniqueStrings xs"
  by (simp add: uniqueStrings_id uniqueStrings_distinct uniqueStrings_clean)

lemma uniqueStrings_eq_Nil: "uniqueStrings xs = [] \<longleftrightarrow> (\<forall>x \<in> set xs. trim_space x = [])"
  using uniqueStrings_set [of xs] by (auto simp flip: set_empty)

lemma uniqueStrings_map_trim [simp]: "uniqueStrings (map trim_space xs) = uniqueStrings xs"
  by (simp add: uniqueStrings_def foldl_map)

lemma role_nonempty [simp]: "roleForTaskType t \<noteq> []"
  by (simp add: roleForTaskType_def)

lemma role_clean [simp]: "to_lower (trim_space (roleForTaskType t)) = roleForTaskType t"
proof -
  have "list_all (\<lambda>r. to_lower (trim_space r) = r)
    [''coder'', ''analyst'', ''summarizer'', ''translator'', ''writer'', ''general'']" by code_simp
  then show ?thesis by (simp add: roleForTaskType_def)
qed

lemma classify_clean [simp]: "to_lower (trim_space (classify d)) = classify d" "classify d \<noteq> []"
proof -
  have "list_all (\<lambda>r. to_lower (trim_space r) = r)
    [''code'', ''summarize'', ''translate'', ''math'', ''vision'', ''creative'', ''general'']" by code_simp
  then show "to_lower (trim_space (classify d)) = classify d" by (simp add: classify_def Let_def)
  show "classify d \<noteq> []" by (simp add: classify_def Let_def)
qed

lemma tagsFor_nonempty [simp]: "tagsFor t \<noteq> []"
  by (simp add: tagsFor_def)

text \<open>The contract of a normalised subtask.\<close>

definition format_ok :: "subtask \<Rightarrow> bool" where
  "format_ok s \<longleftrightarrow> trim_space (st_ExpectedOutput s) = st_ExpectedOutput s \<and>
     (st_OutputFormat s = ''text'' \<or> st_OutputFormat s = ''json'') \<and>
     (st_Role s = ''reviewer'' \<longrightarrow> st_OutputFormat s = ''json'' \<and> st_RequiredFields s \<noteq> []) \<and>
     (st_RequiredFields s \<noteq> [] \<longrightarrow> st_OutputFormat s = ''json'') \<and>
     uniqueStrings (st_RequiredFields s) = st_RequiredFields s \<and>
     0 \<le> st_MaxRetries s \<and> st_MaxRetries s \<le> 2 \<and> (st_OutputFormat s = ''json'' \<longrightarrow> 1 \<le> st_MaxRetries s)"

definition subtask_ok :: "profiles \<Rightarrow> subtask \<Rightarrow> bool" where
  "subtask_ok customProfiles s \<longleftrightarrow> clean_string (st_ID s) \<and> clean_string (st_Description s) \<and>
     st_TaskType s \<noteq> [] \<and> to_lower (trim_space (st_TaskType s)) = st_TaskType s \<and>
     st_RoutingPreference s \<in> {[], ''quality'', ''latency''} \<and>
     st_Role s \<noteq> [] \<and> to_lower (trim_space (st_Role s)) = st_Role s \<and>
     AgentProfileFor customProfiles (st_Role s) \<noteq> None \<and> format_ok s \<and>
     st_Tags s \<noteq> [] \<and> uniqueStrings (st_DependsOn s) = st_DependsOn s"

lemma format_literals: "to_lower (trim_space ''text'') = ''text''" "to_lower (trim_space ''json'') = ''json''"
  "to_lower (trim_space ''quality'') = ''quality''" "to_lower (trim_space ''latency'') = ''latency''"
  by code_simp+

lemma validate_role_fields [simp]:
  "st_ID (validate_role s) = st_ID s" "st_Description (validate_role s) = st_Description s"
  "st_TaskType (validate_role s) = st_TaskType s" "st_Tags (validate_role s) = st_Tags s"
  "st_DependsOn (validate_role s) = st_DependsOn s" "st_ExpectedOutput (validate_role s) = st_ExpectedOutput s"
  "st_OutputFormat (validate_role s) = st_OutputFormat s" "st_RequiredFields (validate_role s) = st_RequiredFields s"
  "st_MaxRetries (validate_role s) = st_MaxRetries s" "st_RoutingPreference (validate_role s) = st_RoutingPreference s"
  "st_Role (validate_role s) \<noteq> []" "to_lower (trim_space (st_Role (validate_role s))) = st_Role (validate_role s)"
  by (simp_all add: validate_role_def Let_def)

lemma validate_format_fields [simp]:
  "st_ID (validate_format s) = st_ID s" "st_Description (validate_format s) = st_Description s"
  "st_TaskType (validate_format s) = st_TaskType s" "st_Tags (validate_format s) = st_Tags s"
  "st_DependsOn (validate_format s) = st_DependsOn s" "st_Role (validate_format s) = st_Role s"
  "st_RequiredFields (validate_format s) = st_RequiredFields s" "st_MaxRetries (validate_format s) = st_MaxRetries s"
  "st_RoutingPreference (validate_format s) = st_RoutingPreference s"
  "trim_space (st_ExpectedOutput (validate_format s)) = st_ExpectedOutput (validate_format s)"
  by (simp_all add: validate_format_def Let_def)

lemma validate_reviewer_fields [simp]:
  "st_ID (validate_reviewer s) = st_ID s" "st_Description (validate_reviewer s) = st_Description s"
  "st_TaskType (validate_reviewer s) = st_TaskType s" "st_Tags (validate_reviewer s) = st_Tags s"
  "st_DependsOn (validate_reviewer s) = st_DependsOn s" "st_Role (validate_reviewer s) = st_Role s"
  "st_ExpectedOutput (validate_reviewer s) = st_ExpectedOutput s" "st_MaxRetries (validate_reviewer s) = st_MaxRetries s"
  "st_RoutingPreference (validate_reviewer s) = st_RoutingPreference s"
  by (simp_all add: validate_reviewer_def)

lemma validate_reviewer_json:
  "st_Role s = ''reviewer'' \<Longrightarrow> st_OutputFormat (validate_reviewer s) = ''json'' \<and> st_RequiredFields (validate_reviewer s) \<noteq> []"
  "st_Role s \<noteq> ''reviewer'' \<Longrightarrow> validate_reviewer s = s"
  by (simp_all add: validate_reviewer_def)

lemma required_fields_kept: "fs \<noteq> [] \<Longrightarrow> [] \<notin> set (map trim_space fs) \<Longrightarrow> uniqueStrings fs \<noteq> []"
  by (cases fs) (auto simp: uniqueStrings_eq_Nil)

lemma validateSubtask_fields:
  assumes "validateSubtask customProfiles s0 = Inr s" "st_TaskType s0 \<noteq> []"
  shows "st_ID s = st_ID s0" "st_Description s = st_Description s0" "st_TaskType s = st_TaskType s0"
    "st_Tags s = st_Tags s0" "st_DependsOn s = st_DependsOn s0" "st_RoutingPreference s = st_RoutingPreference s0"
    "st_Role s = st_Role (validate_role s0)" "AgentProfileFor customProfiles (st_Role s) \<noteq> None"
  using assms by (auto simp: validateSubtask_def Let_def split: option.splits if_splits)

lemma validateSubtask_format:
  assumes v: "validateSubtask customProfiles s0 = Inr s" and t: "st_TaskType s0 \<noteq> []"
  shows "format_ok s"
proof -
  define r where "r = validate_reviewer (validate_format (validate_role s0))"
  from v t have f: "st_OutputFormat (validate_format (validate_role s0)) = ''text'' \<or>
      st_OutputFormat (validate_format (validate_role s0)) = ''json''"
    and j: "st_RequiredFields r = [] \<or> st_OutputFormat r = ''json''"
    and n: "0 \<le> st_MaxRetries r" "st_MaxRetries r \<le> 2" "[] \<notin> set (map trim_space (st_RequiredFields r))"
    and s: "s = (if st_OutputFormat r = ''json'' \<and> st_MaxRetries r = 0 then r\<lparr>st_MaxRetries := 1\<rparr> else r)
      \<lparr>st_RequiredFields := uniqueStrings (st_RequiredFields r)\<rparr>"
    by (auto simp: validateSubtask_def Let_def r_def split: option.splits if_splits)
  have e: "trim_space (st_ExpectedOutput r) = st_ExpectedOutput r" by (simp add: r_def)
  have tj: "st_OutputFormat r = ''text'' \<or> st_OutputFormat r = ''json''"
    using f by (cases "st_Role r = ''reviewer''") (simp_all add: r_def validate_reviewer_json)
  have rv: "st_Role r = ''reviewer'' \<longrightarrow> st_OutputFormat r = ''json'' \<and> st_RequiredFields r \<noteq> []"
    by (simp add: r_def validate_reviewer_json)
  have k: "st_RequiredFields r \<noteq> [] \<Longrightarrow> uniqueStrings (st_RequiredFields r) \<noteq> []"
    using required_fields_kept n(3) by blast
  have u: "uniqueStrings (st_RequiredFields r) \<noteq> [] \<Longrightarrow> st_RequiredFields r \<noteq> []"
    by (auto simp: uniqueStrings_eq_Nil)
  show ?thesis unfolding format_ok_def s using e tj rv k u n(1,2) j by auto
qed

lemma validateSubtask_fix:
  assumes t: "st_TaskType s \<noteq> []" and r: "st_Role s \<noteq> []" "to_lower (trim_space (st_Role s)) = st_Role s"
    and p: "AgentProfileFor customProfiles (st_Role s) \<noteq> None" and f: "format_ok s"
  shows "validateSubtask customProfiles s = Inr s"
proof -
  have 1: "validate_role s = s" using r by (simp add: validate_role_def Let_def)
  have 2: "validate_format s = s" using f format_literals
    by (auto simp: validate_format_def Let_def format_ok_def)
  have 3: "validate_reviewer s = s" using f by (auto simp: validate_reviewer_def format_ok_def)
  have u: "uniqueStrings (st_RequiredFields s) = st_RequiredFields s" using f by (simp add: format_ok_def)
  then have "list_all clean_string (st_RequiredFields s)" using uniqueStrings_clean [of "st_RequiredFields s"] by simp
  then have c: "[] \<notin> set (map trim_space (st_RequiredFields s))" by (auto simp: list_all_iff)
  from p obtain pr where pr: "AgentProfileFor customProfiles (st_Role s) = Some pr" by blast
  have same: "s\<lparr>st_RequiredFields := st_RequiredFields s\<rparr> = s" by simp
  have n: "0 \<le> st_MaxRetries s" "st_MaxRetries s \<le> 2" using f by (simp_all add: format_ok_def)
  from f consider "st_OutputFormat s = ''text''" "st_RequiredFields s = []" | "st_OutputFormat s = ''json''" "1 \<le> st_MaxRetries s"
    unfolding format_ok_def by fastforce
  then show ?thesis
    by cases (use t c n u same in \<open>simp_all add: validateSubtask_def 1 2 3 pr\<close>)
qed


lemma clean_idFor: "idFor i \<noteq> []" "trim_space (idFor i) = idFor i"
proof -
  have a: "alnum (CHR ''s'')" by (simp add: alnum_def)
  consider "i < 26" | "26 \<le> i" "i < 36" | "36 \<le> i" by linarith
  then show "trim_space (idFor i) = idFor i"
    by cases (simp_all add: idFor_cases trim_space_alnum a alnum_digit36 alnum_last_format format_base_nonempty)
qed (simp add: idFor_def)

lemma plan_defaults_ok:
  "st_TaskType (plan_defaults i s) \<noteq> []"
  "to_lower (trim_space (st_TaskType (plan_defaults i s))) = st_TaskType (plan_defaults i s)"
  "clean_string (st_ID (plan_defaults i s))"
  "trim_space (st_Description (plan_defaults i s)) = st_Description (plan_defaults i s)"
  using clean_idFor [of i] by (simp_all add: plan_defaults_def Let_def)

lemma plan_lists_fields [simp]:
  "st_ID (plan_lists s) = st_ID s" "st_Description (plan_lists s) = st_Description s"
  "st_TaskType (plan_lists s) = st_TaskType s" "st_Role (plan_lists s) = st_Role s"
  "st_RoutingPreference (plan_lists s) = st_RoutingPreference s" "format_ok (plan_lists s) = format_ok s"
  "st_Tags (plan_lists s) \<noteq> []" "uniqueStrings (st_DependsOn (plan_lists s)) = st_DependsOn (plan_lists s)"
  by (simp_all add: plan_lists_def format_ok_def)

lemma normalize_subtask_ok:
  assumes "normalize_subtask customProfiles i positions s0 = Inr s"
  shows "subtask_ok customProfiles s" "gm_get positions (st_ID s) = None"
proof -
  let ?a = "plan_defaults i s0"
  from assms obtain v where v: "validateSubtask customProfiles ?a = Inr v"
    and a: "gm_get positions (st_ID ?a) = None" "st_Description ?a \<noteq> []"
      "st_RoutingPreference ?a \<in> {[], ''quality'', ''latency''}"
    and s: "s = plan_lists v"
    unfolding normalize_subtask_def Let_def by (auto split: if_splits sum.splits)
  note f = validateSubtask_fields [OF v plan_defaults_ok(1)]
  show "subtask_ok customProfiles s"
    unfolding subtask_ok_def s using a plan_defaults_ok [of i s0] f validateSubtask_format [OF v plan_defaults_ok(1)]
    by simp
  show "gm_get positions (st_ID s) = None" using a f by (simp add: s)
qed

lemma normalize_subtask_fix:
  assumes ok: "subtask_ok customProfiles s" and p: "gm_get positions (st_ID s) = None"
  shows "normalize_subtask customProfiles i positions s = Inr s"
proof -
  have f: "clean_string (st_ID s)" "clean_string (st_Description s)" "st_TaskType s \<noteq> []"
    "to_lower (trim_space (st_TaskType s)) = st_TaskType s" "st_RoutingPreference s \<in> {[], ''quality'', ''latency''}"
    "st_Tags s \<noteq> []" "uniqueStrings (st_DependsOn s) = st_DependsOn s"
    and v: "validateSubtask customProfiles s = Inr s"
    using ok by (simp_all add: subtask_ok_def validateSubtask_fix)
  have "to_lower (trim_space (st_RoutingPreference s)) = st_RoutingPreference s"
    using f(5) format_literals by auto
  then have a: "plan_defaults i s = s" using f(1-4) by (simp add: plan_defaults_def Let_def)
  have b: "plan_lists s = s" using f(6,7) by (simp add: plan_lists_def)
  show ?thesis unfolding normalize_subtask_def a Let_def using p f(2,5) v b by auto
qed

text \<open>\<^verbatim>\<open>positions\<close> maps each identifier to its index.\<close>

definition plan_pos :: "subtask list \<Rightarrow> (string, nat) gomap \<Rightarrow> bool" where
  "plan_pos out positions \<longleftrightarrow> distinct (map st_ID out) \<and>
     (\<forall>i k. gm_get positions i = Some k \<longleftrightarrow> k < length out \<and> st_ID (out ! k) = i)"

lemma plan_pos_None: "plan_pos out positions \<Longrightarrow> gm_get positions i = None \<longleftrightarrow> i \<notin> st_ID ` set out"
proof -
  assume "plan_pos out positions"
  then have "gm_get positions i = Some k \<longleftrightarrow> k < length out \<and> st_ID (out ! k) = i" for k
    by (simp add: plan_pos_def)
  moreover have "i \<in> st_ID ` set out \<longleftrightarrow> (\<exists>k < length out. st_ID (out ! k) = i)"
    by (metis image_iff in_set_conv_nth)
  ultimately show ?thesis by (metis not_None_eq)
qed

lemma plan_pos_snoc:
  assumes "plan_pos out positions" "gm_get positions (st_ID s) = None"
  shows "plan_pos (out @ [s]) (gm_put (st_ID s) (length out) positions)"
proof -
  have n: "st_ID s \<notin> st_ID ` set out" using assms plan_pos_None by blast
  have "k < length out \<Longrightarrow> st_ID (out ! k) \<noteq> st_ID s" for k
    using n by (metis image_eqI nth_mem)
  with assms n show ?thesis unfolding plan_pos_def by (auto simp: nth_append less_Suc_eq)
qed

lemma plan_pos_unique: "plan_pos out p \<Longrightarrow> plan_pos out q \<Longrightarrow> gm_get p = gm_get q"
  unfolding plan_pos_def by (intro ext) (metis option.exhaust)

lemma normalize_plan_ok:
  "normalize_plan customProfiles ss out positions = Inr (out', positions') \<Longrightarrow> plan_pos out positions \<Longrightarrow>
   list_all (subtask_ok customProfiles) out \<Longrightarrow>
   plan_pos out' positions' \<and> list_all (subtask_ok customProfiles) out' \<and> length out' = length out + length ss"
proof (induction ss arbitrary: out positions)
  case (Cons s ss)
  then obtain s' where s': "normalize_subtask customProfiles (length out) positions s = Inr s'"
    and r: "normalize_plan customProfiles ss (out @ [s']) (gm_put (st_ID s') (length out) positions) = Inr (out', positions')"
    by (auto split: sum.splits)
  note n = normalize_subtask_ok [OF s']
  from Cons.IH [OF r plan_pos_snoc [OF Cons.prems(2) n(2)]] Cons.prems(3) n(1) show ?case by simp
qed simp

lemma normalize_plan_fix:
  "plan_pos out positions \<Longrightarrow> list_all (subtask_ok customProfiles) ss \<Longrightarrow> distinct (map st_ID (out @ ss)) \<Longrightarrow>
   \<exists>positions'. normalize_plan customProfiles ss out positions = Inr (out @ ss, positions') \<and> plan_pos (out @ ss) positions'"
proof (induction ss arbitrary: out positions)
  case (Cons s ss)
  have n: "gm_get positions (st_ID s) = None" using Cons.prems(1,3) by (simp add: plan_pos_None)
  then have "normalize_subtask customProfiles (length out) positions s = Inr s"
    using Cons.prems(2) by (simp add: normalize_subtask_fix)
  with Cons.IH [OF plan_pos_snoc [OF Cons.prems(1) n]] Cons.prems(2,3) show ?case by simp
qed simp

subsection \<open>Validation of plans\<close>

text \<open>The search only depends on the dependencies of the nodes it can reach.\<close>

lemma dfs_cong:
  "\<forall>x \<in> V. deps x = deps' x \<Longrightarrow> \<forall>x \<in> V. set (deps x) \<subseteq> V \<Longrightarrow> i \<in> V \<Longrightarrow>
     dfs_visit n deps i color = dfs_visit n deps' i color"
  "\<forall>x \<in> V. deps x = deps' x \<Longrightarrow> \<forall>x \<in> V. set (deps x) \<subseteq> V \<Longrightarrow> set is \<subseteq> V \<Longrightarrow>
     dfs_list n deps is color = dfs_list n deps' is color"
proof (induction n deps i color and n deps "is" color rule: dfs_visit_dfs_list.induct)
  case (2 n deps i color)
  have e: "deps' i = deps i" and s: "set (deps i) \<subseteq> V" using 2(2-4) by auto
  show ?case
  proof (cases "color i = 1 \<or> color i = 2")
    case False
    then have "dfs_list n deps (deps i) (color(i := 1)) = dfs_list n deps' (deps i) (color(i := 1))"
      using 2(1) [OF _ _ 2(2,3) s] by blast
    then show ?thesis unfolding dfs_visit.simps e by (simp only:)
  qed auto
next
  case (4 n deps i "is" color)
  have v: "dfs_visit n deps i color = dfs_visit n deps' i color" using 4(1,3,4,5) by auto
  consider (none) "dfs_visit n deps' i color = None" | (cyc) e where "dfs_visit n deps' i color = Some (Inl e)"
    | (ok) c where "dfs_visit n deps' i color = Some (Inr c)"
    by (metis not_Some_eq old.sum.exhaust)
  then show ?case
  proof cases
    case ok
    with v 4(2) [OF _ refl 4(3,4)] 4(5) have "dfs_list n deps is c = dfs_list n deps' is c" by auto
    with ok v show ?thesis by simp
  qed (use v in simp_all)
qed simp_all

lemma dfs_decides:
  assumes "finite V" "\<forall>x \<in> V. set (deps x) \<subseteq> V" "set is = V" "card V < n"
  shows "(\<exists>c. dfs_list n deps is (\<lambda>_. 0) = Some (Inr c)) \<and> acyclic (dep_rel deps \<inter> V \<times> V) \<or>
         (\<exists>i. dfs_list n deps is (\<lambda>_. 0) = Some (Inl i)) \<and> \<not> acyclic (dep_rel deps \<inter> V \<times> V)"
proof -
  let ?d = "\<lambda>x. if x \<in> V then deps x else []"
  have r: "dep_rel ?d = dep_rel deps \<inter> V \<times> V" using assms(2) by (auto simp: dep_rel_def)
  have "dfs_list n deps is (\<lambda>_. 0) = dfs_list n ?d is (\<lambda>_. 0)"
    by (rule dfs_cong(2) [of V]) (use assms in auto)
  moreover have "\<forall>x \<in> V. set (?d x) \<subseteq> V" "dep_rel ?d \<subseteq> V \<times> V" using assms(2) r by auto
  ultimately show ?thesis using dfs_from_white [OF assms(1) _ assms(3,4), of ?d] r by simp
qed

definition plan_rel :: "subtask list \<Rightarrow> (string \<times> string) set" where
  "plan_rel out = {(st_ID s, d) | s d. s \<in> set out \<and> d \<in> set (st_DependsOn s)}"

definition plan_ok :: "profiles \<Rightarrow> subtask list \<Rightarrow> bool" where
  "plan_ok customProfiles out \<longleftrightarrow> out \<noteq> [] \<and> length out \<le> 64 \<and> list_all (subtask_ok customProfiles) out \<and>
     distinct (map st_ID out) \<and> (\<forall>s \<in> set out. set (st_DependsOn s) \<subseteq> st_ID ` set out) \<and> acyclic (plan_rel out)"

lemma check_deps_None:
  "check_deps positions i ds = None \<longleftrightarrow> (\<forall>d \<in> set ds. d \<noteq> i \<and> gm_get positions d \<noteq> None)"
  by (induction ds) auto

lemma check_plan_None:
  "check_plan positions ss = None \<longleftrightarrow>
     (\<forall>s \<in> set ss. \<forall>d \<in> set (st_DependsOn s). d \<noteq> st_ID s \<and> gm_get positions d \<noteq> None)"
proof -
  have "check_plan positions ss = None \<longleftrightarrow>
      (\<forall>s \<in> set ss. check_deps positions (st_ID s) (st_DependsOn s) = None)"
    by (induction ss) (auto split: option.splits)
  then show ?thesis by (simp only: check_deps_None)
qed

lemma plan_deps_at:
  assumes "plan_pos out positions" "s \<in> set out"
  shows "plan_deps out positions (st_ID s) = st_DependsOn s"
proof -
  from assms(2) obtain k where k: "k < length out" "out ! k = s" by (auto simp: in_set_conv_nth)
  with assms(1) have "gm_get positions (st_ID s) = Some k" by (simp add: plan_pos_def)
  with k show ?thesis by (simp add: plan_deps_def)
qed

lemma plan_deps_rel:
  assumes p: "plan_pos out positions" and d: "\<forall>s \<in> set out. set (st_DependsOn s) \<subseteq> st_ID ` set out"
  shows "dep_rel (plan_deps out positions) \<inter> st_ID ` set out \<times> st_ID ` set out = plan_rel out"
proof -
  have "(i, e) \<in> dep_rel (plan_deps out positions) \<inter> st_ID ` set out \<times> st_ID ` set out \<longleftrightarrow> (i, e) \<in> plan_rel out" for i e
    using d plan_deps_at [OF p] unfolding dep_rel_def plan_rel_def by auto
  then show ?thesis by auto
qed

lemma plan_search:
  assumes p: "plan_pos out positions" and d: "\<forall>s \<in> set out. set (st_DependsOn s) \<subseteq> st_ID ` set out"
  defines "search \<equiv> dfs_list (Suc (length out)) (plan_deps out positions) (map st_ID out) (\<lambda>_. 0)"
  shows "(\<exists>c. search = Some (Inr c)) \<and> acyclic (plan_rel out) \<or>
         (\<exists>i. search = Some (Inl i)) \<and> \<not> acyclic (plan_rel out)"
  unfolding search_def plan_deps_rel [OF p d, symmetric]
proof (rule dfs_decides)
  show "\<forall>x \<in> st_ID ` set out. set (plan_deps out positions x) \<subseteq> st_ID ` set out"
    using d plan_deps_at [OF p] by auto
  show "card (st_ID ` set out) < Suc (length out)"
    by (simp add: less_Suc_eq_le card_image_le [THEN le_trans] card_length)
qed simp_all

lemma ValidatePlan_Inr:
  "ValidatePlan customProfiles ss = Inr out \<longleftrightarrow> ss \<noteq> [] \<and> length ss \<le> 64 \<and>
     (\<exists>positions c. normalize_plan customProfiles ss [] [] = Inr (out, positions) \<and> check_plan positions out = None \<and>
       dfs_list (Suc (length out)) (plan_deps out positions) (map st_ID out) (\<lambda>_. 0) = Some (Inr c))"
  unfolding ValidatePlan_def by (auto split: sum.splits option.splits prod.splits if_splits)

lemma plan_pos_Nil [simp]: "plan_pos [] []"
  by (simp add: plan_pos_def)

lemma ValidatePlan_sound:
  assumes "ValidatePlan customProfiles ss = Inr out"
  shows "plan_ok customProfiles out" "length out = length ss"
proof -
  from assms obtain positions c where ss: "ss \<noteq> []" "length ss \<le> 64"
    and n: "normalize_plan customProfiles ss [] [] = Inr (out, positions)" and ch: "check_plan positions out = None"
    and s: "dfs_list (Suc (length out)) (plan_deps out positions) (map st_ID out) (\<lambda>_. 0) = Some (Inr c)"
    unfolding ValidatePlan_Inr by blast
  from normalize_plan_ok [OF n] have p: "plan_pos out positions" and ok: "list_all (subtask_ok customProfiles) out"
    and len: "length out = length ss" by simp_all
  have d: "\<forall>s \<in> set out. set (st_DependsOn s) \<subseteq> st_ID ` set out"
    using ch unfolding check_plan_None plan_pos_None [OF p] by blast
  from plan_search [OF p d] s have "acyclic (plan_rel out)" by auto
  with ss len ok d p show "plan_ok customProfiles out" unfolding plan_ok_def plan_pos_def by auto
  show "length out = length ss" by (rule len)
qed

lemma ValidatePlan_fix:
  assumes "plan_ok customProfiles out"
  shows "ValidatePlan customProfiles out = Inr out"
proof -
  have o: "out \<noteq> []" "length out \<le> 64" "list_all (subtask_ok customProfiles) out" "distinct (map st_ID out)"
    and d: "\<forall>s \<in> set out. set (st_DependsOn s) \<subseteq> st_ID ` set out" and a: "acyclic (plan_rel out)"
    using assms by (simp_all add: plan_ok_def)
  from normalize_plan_fix [of "[]" "[]" customProfiles out] o obtain positions where
    n: "normalize_plan customProfiles out [] [] = Inr (out, positions)" and p: "plan_pos out positions" by auto
  have "d \<noteq> st_ID s" if "s \<in> set out" "d \<in> set (st_DependsOn s)" for s d
    using a that unfolding acyclic_def plan_rel_def by blast
  then have "check_plan positions out = None"
    unfolding check_plan_None plan_pos_None [OF p] using d by blast
  with plan_search [OF p d] a n o show ?thesis unfolding ValidatePlan_Inr by blast
qed

subsection \<open>The graph of a valid plan\<close>

lemma gm_put_append: "k \<notin> gm_keys m \<Longrightarrow> gm_put k v m = m @ [(k, v)]"
  by (induction m) auto

lemma add_plan_nodes_ok:
  "list_all (\<lambda>s. clean_string (st_ID s)) ss \<Longrightarrow> distinct (map fst (g_Nodes g) @ map st_ID ss) \<Longrightarrow>
   add_plan_nodes ss g = Inr (g\<lparr>g_Nodes := g_Nodes g @ map (\<lambda>s. (st_ID s, s)) ss\<rparr>)"
proof (induction ss arbitrary: g)
  case (Cons s ss)
  have n: "st_ID s \<notin> gm_keys (g_Nodes g)" using Cons.prems(2) by simp
  have i: "s\<lparr>st_ID := st_ID s\<rparr> = s" by simp
  have "AddNode s g = (None, g\<lparr>g_Nodes := g_Nodes g @ [(st_ID s, s)]\<rparr>)"
    using Cons.prems(1) n i by (simp add: AddNode_def Let_def gm_get_None gm_put_append)
  with Cons.IH [of "g\<lparr>g_Nodes := g_Nodes g @ [(st_ID s, s)]\<rparr>"] Cons.prems show ?case by simp
qed simp

lemma add_plan_deps_ok:
  "\<forall>d \<in> set ds. clean_string d \<and> d \<noteq> i \<Longrightarrow> clean_string i \<Longrightarrow> add_plan_deps i ds g = Inr (add_node_edges i ds g)"
proof (induction ds arbitrary: g)
  case (Cons d ds)
  then have "fst (AddEdge d i g) = None" by (simp add: AddEdge_def Let_def)
  then obtain g' where "AddEdge d i g = (None, g')" by (cases "AddEdge d i g") auto
  with Cons show ?case by simp
qed simp

lemma add_plan_edges_ok:
  "deps_clean (map (\<lambda>s. (st_ID s, s)) ss) \<Longrightarrow> add_plan_edges ss g = Inr (sync_edges (map (\<lambda>s. (st_ID s, s)) ss) g)"
proof (induction ss arbitrary: g)
  case (Cons s ss)
  then have "\<forall>d \<in> set (st_DependsOn s). clean_string d \<and> d \<noteq> st_ID s" "clean_string (st_ID s)"
    "deps_clean (map (\<lambda>s. (st_ID s, s)) ss)" by (simp_all add: deps_clean_def)
  with Cons.IH show ?case by (simp add: add_plan_deps_ok)
qed simp

lemma graph_wf_sync_edges: "graph_wf g \<Longrightarrow> graph_wf (sync_edges ns g)"
proof (induction ns arbitrary: g)
  case (Cons n ns)
  have "graph_wf (add_node_edges i ds g)" for i ds
    using Cons.prems by (induction ds arbitrary: g) (simp_all add: graph_wf_AddEdge)
  with Cons.IH show ?case by (cases n) simp
qed simp

text \<open>The nodes and edges of the graph of a plan.\<close>

lemma plan_ok_clean:
  assumes "plan_ok customProfiles out"
  shows "deps_clean (map (\<lambda>s. (st_ID s, s)) out)" "list_all (\<lambda>s. clean_string (st_ID s)) out"
proof -
  have o: "\<And>s. s \<in> set out \<Longrightarrow> clean_string (st_ID s) \<and> uniqueStrings (st_DependsOn s) = st_DependsOn s"
    and a: "acyclic (plan_rel out)"
    using assms by (simp_all add: plan_ok_def subtask_ok_def list_all_iff)
  have "clean_string d" if "s \<in> set out" "d \<in> set (st_DependsOn s)" for s d
    using o [OF that(1)] that(2) uniqueStrings_clean [of "st_DependsOn s"] by (simp add: list_all_iff)
  moreover have "d \<noteq> st_ID s" if "s \<in> set out" "d \<in> set (st_DependsOn s)" for s d
    using a that unfolding acyclic_def plan_rel_def by blast
  ultimately show "deps_clean (map (\<lambda>s. (st_ID s, s)) out)" using o by (auto simp: deps_clean_def)
  show "list_all (\<lambda>s. clean_string (st_ID s)) out" using o by (simp add: list_all_iff)
qed

lemma TaskGraphFromSubtasks_run:
  assumes v: "ValidatePlan customProfiles ss = Inr out"
  defines "g0 \<equiv> NewTaskGraph\<lparr>g_Nodes := map (\<lambda>s. (st_ID s, s)) out\<rparr>"
  defines "g \<equiv> sync_edges (map (\<lambda>s. (st_ID s, s)) out) g0"
  shows "TaskGraphFromSubtasks customProfiles ss = Inr g" "graph_wf g"
    "g_Nodes g = map (\<lambda>s. (st_ID s, s)) out"
    "set (g_Edges g) = (\<Union>s \<in> set out. (\<lambda>d. \<lparr>e_From = d, e_To = st_ID s\<rparr>) ` set (st_DependsOn s))"
proof -
  note ok = ValidatePlan_sound(1) [OF v]
  note c = plan_ok_clean [OF ok]
  have d: "distinct (map st_ID out)" using ok by (simp add: plan_ok_def)
  have n: "add_plan_nodes out NewTaskGraph = Inr g0"
    using add_plan_nodes_ok [OF c(2), of NewTaskGraph] d by (simp add: g0_def NewTaskGraph_def)
  then show "TaskGraphFromSubtasks customProfiles ss = Inr g"
    using v add_plan_edges_ok [OF c(1), of g0] by (simp add: TaskGraphFromSubtasks_def g_def)
  have w: "gm_wf (g_Nodes g0)" using d by (simp add: g0_def gm_wf_def comp_def)
  have "graph_wf g0" using w c(2) by (auto simp: graph_wf_def g0_def NewTaskGraph_def list_all_iff)
  then show "graph_wf g" unfolding g_def by (rule graph_wf_sync_edges)
  have "set (map (\<lambda>s. (st_ID s, s)) out) \<subseteq> set (g_Nodes g0)" by (simp add: g0_def)
  note k = sync_edges_known [OF w this c(1), folded g_def]
  then show "g_Nodes g = map (\<lambda>s. (st_ID s, s)) out" by (simp add: g0_def)
  show "set (g_Edges g) = (\<Union>s \<in> set out. (\<lambda>d. \<lparr>e_From = d, e_To = st_ID s\<rparr>) ` set (st_DependsOn s))"
    using k by (simp add: g0_def NewTaskGraph_def)
qed

lemma TaskGraphFromSubtasks_valid:
  assumes "ValidatePlan customProfiles ss = Inr out" "TaskGraphFromSubtasks customProfiles ss = Inr g"
  shows "dag_spec g" "graph_wf g" "g_Nodes g = map (\<lambda>s. (st_ID s, s)) out"
proof -
  note r = TaskGraphFromSubtasks_run [OF assms(1)]
  have g: "graph_wf g" "g_Nodes g = map (\<lambda>s. (st_ID s, s)) out"
    "set (g_Edges g) = (\<Union>s \<in> set out. (\<lambda>d. \<lparr>e_From = d, e_To = st_ID s\<rparr>) ` set (st_DependsOn s))"
    using r assms(2) by auto
  show "graph_wf g" "g_Nodes g = map (\<lambda>s. (st_ID s, s)) out" by (fact g)+
  note ok = ValidatePlan_sound(1) [OF assms(1), unfolded plan_ok_def]
  have w: "gm_wf (g_Nodes g)" using g(1) by (simp add: graph_wf_def)
  have k: "gm_keys (g_Nodes g) = st_ID ` set out" by (simp add: g(2) image_image)
  have e: "\<lparr>e_From = d, e_To = i\<rparr> \<in> set (g_Edges g) \<longleftrightarrow> (i, d) \<in> plan_rel out" for i d
    unfolding g(3) plan_rel_def by auto
  have "d \<in> set (all_deps g i) \<longleftrightarrow> (i, d) \<in> plan_rel out" for i d
    unfolding all_deps_mem [OF w] e by (auto simp: g(2) plan_rel_def dest!: map_of_SomeD)
  then have "dep_rel (all_deps g) = plan_rel out" by (auto simp: dep_rel_def)
  with ok k show "dag_spec g" unfolding dag_spec_def k by (auto simp: g(2,3))
qed

subsection \<open>The synthesis step\<close>

lemma synthesis_id_inj [simp]: "synthesis_id m = synthesis_id n \<longleftrightarrow> m = n"
  by (simp add: synthesis_id_def format_base_inj)

lemma synthesis_id_neq [simp]: "synthesis_id n \<noteq> ''synthesis''" "''synthesis'' \<noteq> synthesis_id n"
  by (simp_all add: synthesis_id_def)

lemma free_synthesis_id_fresh: "free_synthesis_id fuel used n i = Some j \<Longrightarrow> j \<notin> set used"
  by (induction fuel used n i rule: free_synthesis_id.induct) (auto split: if_splits)

lemma free_synthesis_id_None:
  "free_synthesis_id (Suc fuel) used n i = None \<Longrightarrow> set (i # map synthesis_id [n..<n + fuel]) \<subseteq> set used"
proof (induction fuel arbitrary: n i)
  case 0
  then show ?case by (simp split: if_splits)
next
  case (Suc fuel)
  from Suc.prems have i: "i \<in> set used" and r: "free_synthesis_id (Suc fuel) used (Suc n) (synthesis_id n) = None"
    by (subst (asm) free_synthesis_id.simps; simp split: if_splits)+
  from Suc.IH [OF r] have s: "set (synthesis_id n # map synthesis_id [Suc n..<Suc n + fuel]) \<subseteq> set used" .
  have "[n..<n + Suc fuel] = n # [Suc n..<Suc n + fuel]" by (simp add: upt_conv_Cons del: upt_Suc)
  with i s show ?case by (simp del: upt_Suc)
qed

lemma free_synthesis_id_enough: "free_synthesis_id (Suc (length used)) used n ''synthesis'' \<noteq> None"
proof
  let ?c = "''synthesis'' # map synthesis_id [n..<n + length used]"
  assume "free_synthesis_id (Suc (length used)) used n ''synthesis'' = None"
  then have "set ?c \<subseteq> set used" by (rule free_synthesis_id_None)
  then have "card (set ?c) \<le> card (set used)" by (intro card_mono) simp_all
  also have "\<dots> \<le> length used" by (rule card_length)
  finally have "card (set ?c) \<le> length used" .
  moreover have "distinct ?c" by (auto simp: distinct_map inj_on_def)
  then have "card (set ?c) = length ?c" by (rule distinct_card)
  ultimately show False by simp
qed

lemma addSynthesisSubtask_run:
  assumes "ss \<noteq> []" "length ss < 64"
  shows "\<exists>y. addSynthesisSubtask ss description = Some (ss @ [y]) \<and> st_Synthesis y \<and> st_ID y \<notin> st_ID ` set ss \<and>
     set (st_DependsOn y) = st_ID ` set ss - (\<Union>s \<in> set ss. set (st_DependsOn s))"
proof -
  obtain i where i: "free_synthesis_id (Suc (length ss)) (map st_ID ss) 2 ''synthesis'' = Some i"
    using free_synthesis_id_enough [of "map st_ID ss" 2] by auto
  from free_synthesis_id_fresh [OF i] have "i \<notin> st_ID ` set ss" by simp
  with i assms show ?thesis by (auto simp: addSynthesisSubtask_def Let_def)
qed

text \<open>Following the dependents of a subtask always ends at a leaf, on which the step depends.\<close>

lemma synthesis_reaches:
  assumes a: "acyclic (plan_rel ss)" and fin: "finite (plan_rel ss)"
    and y: "set (st_DependsOn y) = st_ID ` set ss - (\<Union>s \<in> set ss. set (st_DependsOn s))"
    and s: "s \<in> set ss"
  shows "(st_ID y, st_ID s) \<in> (plan_rel (ss @ [y]))\<^sup>+"
  using s
proof (induction "st_ID s" arbitrary: s rule: wf_induct_rule [OF finite_acyclic_wf [OF fin a]])
  case (1 s)
  show ?case
  proof (cases "st_ID s \<in> (\<Union>t \<in> set ss. set (st_DependsOn t))")
    case True
    then obtain t where t: "t \<in> set ss" "st_ID s \<in> set (st_DependsOn t)" by blast
    then have "(st_ID t, st_ID s) \<in> plan_rel ss" by (auto simp: plan_rel_def)
    with 1 t have "(st_ID y, st_ID t) \<in> (plan_rel (ss @ [y]))\<^sup>+" by blast
    moreover from t have "(st_ID t, st_ID s) \<in> plan_rel (ss @ [y])" by (auto simp: plan_rel_def)
    ultimately show ?thesis by (rule trancl_into_trancl)
  next
    case False
    with 1 y have "st_ID s \<in> set (st_DependsOn y)" by blast
    then have "(st_ID y, st_ID s) \<in> plan_rel (ss @ [y])" by (auto simp: plan_rel_def)
    then show ?thesis ..
  qed
qed

lemma finite_plan_rel: "finite (plan_rel ss)"
proof -
  have "plan_rel ss = (\<Union>s \<in> set ss. Pair (st_ID s) ` set (st_DependsOn s))" by (auto simp: plan_rel_def)
  then show ?thesis by simp
qed

subsection \<open>Properties\<close>

text \<open>A plan of three subtasks in a caller's spelling.\<close>

definition sample_plan :: "subtask list" where
  "sample_plan =
     [zero_subtask\<lparr>st_ID := '' design '', st_Description := ''Write the api ''\<rparr>,
      zero_subtask\<lparr>st_Description := ''review it'', st_Role := ''Reviewer'', st_DependsOn := [''design'', ''design '']\<rparr>,
      zero_subtask\<lparr>st_ID := ''doc'', st_Description := ''summarize'', st_DependsOn := [''sub-b'']\<rparr>]"

lemma sample_plan_valid: "\<exists>out. ValidatePlan [] sample_plan = Inr out"
proof -
  have "(case ValidatePlan [] sample_plan of Inl _ \<Rightarrow> False | Inr _ \<Rightarrow> True)" by code_simp
  then show ?thesis by (auto split: sum.splits)
qed

text \<open>C5: \<^verbatim>\<open>ValidatePlan\<close> returns a normal form. Its result has one subtask per subtask of the
  input, meets the contract of a plan (distinct trimmed identifiers, descriptions, known
  roles, consistent formats, fields and retries, dependencies on known subtasks only, no
  cycle), and validating it again returns it unchanged.\<close>

theorem ValidatePlan_normal_form:
  assumes "ValidatePlan customProfiles ss = Inr out"
  shows "plan_ok customProfiles out \<and> length out = length ss \<and> ValidatePlan customProfiles out = Inr out"
  using ValidatePlan_sound [OF assms] ValidatePlan_fix by blast

theorem ValidatePlan_normal_form_witness:
  "\<exists>out. ValidatePlan [] sample_plan = Inr out \<and> plan_ok [] out \<and> length out = 3"
proof -
  obtain out where o: "ValidatePlan [] sample_plan = Inr out" using sample_plan_valid by blast
  have "length sample_plan = 3" by (simp add: sample_plan_def)
  with ValidatePlan_normal_form [OF o] o show ?thesis by auto
qed

text \<open>The plans that \<^verbatim>\<open>ValidatePlan\<close> accepts without changing them are exactly the ones
  that meet the contract.\<close>

theorem ValidatePlan_fixed_points: "ValidatePlan customProfiles ss = Inr ss \<longleftrightarrow> plan_ok customProfiles ss"
  using ValidatePlan_sound ValidatePlan_fix by blast



text \<open>The synthesis step of a heuristic plan has a fresh identifier, whatever identifiers
  the plan uses, and transitively depends on every subtask of an acyclic plan, so that it
  runs last.\<close>

theorem synthesis_runs_last:
  assumes "ss \<noteq> []" "length ss < 64" "acyclic (plan_rel ss)"
  shows "\<exists>y. addSynthesisSubtask ss description = Some (ss @ [y]) \<and> st_ID y \<notin> st_ID ` set ss \<and>
    (\<forall>s \<in> set ss. (st_ID y, st_ID s) \<in> (plan_rel (ss @ [y]))\<^sup>+)"
proof -
  obtain y where "addSynthesisSubtask ss description = Some (ss @ [y])" "st_ID y \<notin> st_ID ` set ss"
    and "set (st_DependsOn y) = st_ID ` set ss - (\<Union>s \<in> set ss. set (st_DependsOn s))"
    using addSynthesisSubtask_run [OF assms(1,2)] by blast
  with synthesis_reaches [OF assms(3) finite_plan_rel] show ?thesis by blast
qed

theorem synthesis_runs_last_witness:
  "\<exists>y. addSynthesisSubtask [sample_node ''a'' [], sample_node ''synthesis'' [''a'']] ''x'' =
     Some [sample_node ''a'' [], sample_node ''synthesis'' [''a''], y] \<and> st_ID y \<noteq> ''synthesis''"
proof -
  let ?ss = "[sample_node ''a'' [], sample_node ''synthesis'' [''a'']]"
  have "acyclic (plan_rel ?ss)"
    by (intro acyclicI_order [of _ length]) (auto simp: plan_rel_def sample_node_def)
  from synthesis_runs_last [of ?ss, OF _ _ this] show ?thesis by (auto simp: sample_node_def)
qed

end
