(* ===== verification/Task_Store.thy ===== *)
theory Task_Store
  imports Task_Plan
begin

text \<open>
  The data of \<^verbatim>\<open>internal/taskmgr\<close> (tasks, subtask results, dispatch attempts, checkpoints),
  the checkpoint of a task (\<^verbatim>\<open>checkpoint.go\<close>), and the persistence interface \<^verbatim>\<open>Store\<close> with
  its in-memory implementation (\<^verbatim>\<open>memorystore.go\<close>). The interface is a record of operations,
  because the manager takes any implementation; the laws the manager relies on are the locale
  \<open>task_store\<close>, which the in-memory store is shown to satisfy. Deep copies are the identity on
  values, except that \<^verbatim>\<open>cloneTask\<close> also fills in missing request identifiers.
\<close>

subsection \<open>Data\<close>

datatype status =
    StatusPending | StatusRunning | StatusSynthesis | StatusAwaitingApproval
  | StatusCompleted | StatusFailed | StatusCancelled
  | StatusOther string

fun status_string :: "status \<Rightarrow> string" where
  "status_string StatusPending = ''pending''"
| "status_string StatusRunning = ''running''"
| "status_string StatusSynthesis = ''synthesizing''"
| "status_string StatusAwaitingApproval = ''awaiting_approval''"
| "status_string StatusCompleted = ''completed''"
| "status_string StatusFailed = ''failed''"
| "status_string StatusCancelled = ''cancelled''"
| "status_string (StatusOther s) = s"

datatype attempt_status =
    DispatchAttemptRunning | DispatchAttemptSucceeded | DispatchAttemptFailed
  | DispatchAttemptOther string

record score_factors =
  sf_ModelMatch :: float64
  sf_Hardware :: float64
  sf_ActiveTasks :: int
  sf_QueuedTasks :: int
  sf_PendingDependents :: int
  sf_CapacityPenalty :: float64
  sf_LoadPenalty :: float64
  sf_GPUCompatibilityScore :: float64
  sf_GPUUtilizationPenalty :: float64
  sf_NPUUtilizationPenalty :: float64
  sf_CPUUtilizationPenalty :: float64
  sf_MemoryUsagePenalty :: float64
  sf_CapabilityScore :: float64
  sf_MatchedCapabilities :: "string list"
  sf_ModelQualityScore :: float64
  sf_TopologyScore :: float64
  sf_EstimatedCompletionSeconds :: float64
  sf_EstimatedTokensPerSecond :: float64
  sf_ModelSizeGB :: float64
  sf_LatencyScore :: float64
  sf_LearnedBias :: float64
  sf_TelemetryFresh :: bool
  sf_TelemetryAgeMs :: int

record assignment =
  as_Subtask :: subtask
  as_NodeID :: string
  as_Address :: string
  as_Model :: string
  as_Engine :: string
  as_Score :: float64
  as_Factors :: score_factors

record dispatch_attempt =
  da_ID :: string
  da_RequestID :: string
  da_Number :: int
  da_NodeID :: string
  da_Model :: string
  da_Engine :: string
  da_Status :: attempt_status
  da_FailureClass :: string
  da_HTTPStatus :: int
  da_Error :: string
  da_StartedAt :: time
  da_FinishedAt :: "time option"
  da_DurationMs :: int

record subtask_result =
  sr_Assignment :: assignment
  sr_Status :: status
  sr_Output :: string
  sr_Error :: string
  sr_Attempts :: "dispatch_attempt list"

text \<open>
  A task. The context of a task is modelled by whether it is cancelled, and the channel
  \<^verbatim>\<open>changed\<close>, which is closed and replaced on every change, by the number of replacements.
\<close>

record task =
  t_ID :: string
  t_Origin :: string
  t_Sequence :: uint64
  t_Description :: string
  t_Status :: status
  t_Subtasks :: "subtask_result list"
  t_Graph :: "task_graph option"
  t_Resumable :: bool
  t_LastCheckpoint :: string
  t_RequireApproval :: bool
  t_Result :: string
  t_Error :: string
  t_CreatedAt :: time
  t_UpdatedAt :: time
  t_cancelled :: bool
  t_changed :: nat

record checkpoint =
  cp_ID :: string
  cp_TaskID :: string
  cp_Sequence :: nat
  cp_Status :: status
  cp_Graph :: "task_graph option"
  cp_Subtasks :: "subtask_result list"
  cp_Outputs :: "(string, string) gomap"
  cp_Frontier :: "string list"
  cp_Error :: string
  cp_Resumable :: bool
  cp_Timestamp :: time

datatype tm_error =
    TaskNotFound string
  | SubtaskNotFound string string
  | SubtaskFinished string string
  | SubtaskNotPendingOrRunning string string
  | SubtaskNotRunning string string
  | InvalidAttemptStatus
  | AttemptFinished int string
  | AttemptNotFound int string
  | NotAwaitingApproval string
  | NotResumable string
  | PersistFailed string tm_error
  | TaskIDRequired
  | CheckpointIDRequired
  | NoCheckpoint string
  | StoredTaskNoID
  | SyncTaskNoID
  | EncodeFailed string
  | PageRecordTooLarge
  | NoPageProgress
  | PathRequired
  | StoreFailure string

abbreviation sr_ID :: "subtask_result \<Rightarrow> string" where
  "sr_ID r \<equiv> st_ID (as_Subtask (sr_Assignment r))"

abbreviation sr_DependsOn :: "subtask_result \<Rightarrow> string list" where
  "sr_DependsOn r \<equiv> st_DependsOn (as_Subtask (sr_Assignment r))"

abbreviation sr_open :: "subtask_result \<Rightarrow> bool" where
  "sr_open r \<equiv> sr_Status r = StatusPending \<or> sr_Status r = StatusRunning"

definition DispatchAttemptID :: "string \<Rightarrow> string \<Rightarrow> int \<Rightarrow> string" where
  "DispatchAttemptID taskID subtaskID number = taskID @ '':'' @ subtaskID @ '':'' @ format_int 10 number"

definition DispatchRequestID :: "string \<Rightarrow> string \<Rightarrow> string" where
  "DispatchRequestID taskID subtaskID = taskID @ '':'' @ subtaskID"

definition clone_attempt :: "string \<Rightarrow> string \<Rightarrow> dispatch_attempt \<Rightarrow> dispatch_attempt" where
  "clone_attempt taskID subtaskID a =
     (if da_RequestID a = [] then a\<lparr>da_RequestID := DispatchRequestID taskID subtaskID\<rparr> else a)"

definition clone_result :: "string \<Rightarrow> subtask_result \<Rightarrow> subtask_result" where
  "clone_result taskID r = r\<lparr>sr_Attempts := map (clone_attempt taskID (sr_ID r)) (sr_Attempts r)\<rparr>"

definition cloneTask :: "task \<Rightarrow> task" where
  "cloneTask t = t\<lparr>t_Subtasks := map (clone_result (t_ID t)) (t_Subtasks t)\<rparr>"

subsection \<open>Checkpoints\<close>

definition completed_ids :: "task \<Rightarrow> string \<Rightarrow> bool" where
  "completed_ids t i \<longleftrightarrow> list_ex (\<lambda>s. sr_Status s = StatusCompleted \<and> sr_ID s = i) (t_Subtasks t)"

definition computeFrontier :: "task \<Rightarrow> string list" where
  "computeFrontier t =
     (case t_Graph t of
        Some g \<Rightarrow> map st_ID (ReadyNodes g (completed_ids t))
      | None \<Rightarrow> map sr_ID (filter (\<lambda>s. sr_Status s \<noteq> StatusCompleted \<and>
                   list_all (completed_ids t) (sr_DependsOn s)) (t_Subtasks t)))"

definition collectOutputs :: "task \<Rightarrow> (string, string) gomap" where
  "collectOutputs t =
     foldl (\<lambda>outputs s. if sr_Status s = StatusCompleted \<and> sr_Output s \<noteq> []
                         then gm_put (sr_ID s) (sr_Output s) outputs else outputs) [] (t_Subtasks t)"

text \<open>\<^verbatim>\<open>checkpointForTask\<close> also stamps the task with the checkpoint and its resumability.\<close>

definition checkpointForTask :: "time \<Rightarrow> task \<Rightarrow> checkpoint \<times> task" where
  "checkpointForTask now t =
     (let outputs = collectOutputs t;
          frontier = computeFrontier t;
          seq = length outputs;
          cpID = ''cp-'' @ t_ID t @ ''-'' @ format_base 10 seq;
          resumable = (t_Status t \<noteq> StatusCompleted)
      in (\<lparr>cp_ID = cpID, cp_TaskID = t_ID t, cp_Sequence = seq, cp_Status = t_Status t,
           cp_Graph = t_Graph t, cp_Subtasks = t_Subtasks t, cp_Outputs = outputs,
           cp_Frontier = frontier, cp_Error = t_Error t, cp_Resumable = resumable,
           cp_Timestamp = now\<rparr>,
          t\<lparr>t_LastCheckpoint := cpID, t_Resumable := resumable\<rparr>))"

subsection \<open>The persistence interface\<close>

text \<open>
  \<^verbatim>\<open>Store\<close> over a state of type \<open>'s\<close>. The last field is the optional method that a store may
  implement to save a task and a checkpoint in one transaction.
\<close>

record 's store_ops =
  so_Load :: "'s \<Rightarrow> tm_error + task list"
  so_Save :: "task \<Rightarrow> 's \<Rightarrow> tm_error option \<times> 's"
  so_SaveCheckpoint :: "checkpoint \<Rightarrow> 's \<Rightarrow> tm_error option \<times> 's"
  so_Checkpoints :: "string \<Rightarrow> 's \<Rightarrow> tm_error + checkpoint list"
  so_LatestCheckpoint :: "string \<Rightarrow> 's \<Rightarrow> tm_error + checkpoint"
  so_SaveTaskAndCheckpoint :: "(task \<Rightarrow> checkpoint \<Rightarrow> 's \<Rightarrow> tm_error option \<times> 's) option"

definition saveTaskAndCheckpoint ::
  "'s store_ops \<Rightarrow> task \<Rightarrow> checkpoint \<Rightarrow> 's \<Rightarrow> tm_error option \<times> 's" where
  "saveTaskAndCheckpoint ops t cp s =
     (case so_SaveTaskAndCheckpoint ops of
        Some f \<Rightarrow> f t cp s
      | None \<Rightarrow>
          (case so_SaveCheckpoint ops cp s of
             (Some e, s1) \<Rightarrow> (Some e, s1)
           | (None, s1) \<Rightarrow> so_Save ops t s1))"

subsection \<open>The in-memory store\<close>

record memoryStore =
  ms_tasks :: "(string, task) gomap"
  ms_checkpoints :: "(string, checkpoint) gomap"
  ms_latest :: "(string, checkpoint) gomap"

definition NewMemoryStore :: memoryStore where
  "NewMemoryStore = \<lparr>ms_tasks = [], ms_checkpoints = [], ms_latest = []\<rparr>"

definition ms_Load :: "memoryStore \<Rightarrow> tm_error + task list" where
  "ms_Load s =
     Inr (concat (map (\<lambda>k. case gm_get (ms_tasks s) k of None \<Rightarrow> [] | Some t \<Rightarrow> [cloneTask t])
       (sort (map fst (ms_tasks s)))))"

definition ms_Save :: "task \<Rightarrow> memoryStore \<Rightarrow> tm_error option \<times> memoryStore" where
  "ms_Save t s =
     (if t_ID t = [] then (Some TaskIDRequired, s)
      else (None, s\<lparr>ms_tasks := gm_put (t_ID t) (cloneTask t) (ms_tasks s)\<rparr>))"

definition ms_SaveCheckpoint :: "checkpoint \<Rightarrow> memoryStore \<Rightarrow> tm_error option \<times> memoryStore" where
  "ms_SaveCheckpoint cp s =
     (if cp_ID cp = [] \<or> cp_TaskID cp = [] then (Some CheckpointIDRequired, s)
      else (None, s\<lparr>ms_checkpoints := gm_put (cp_ID cp) cp (ms_checkpoints s),
                    ms_latest := gm_put (cp_TaskID cp) cp (ms_latest s)\<rparr>))"

definition ms_SaveTaskAndCheckpoint ::
  "task \<Rightarrow> checkpoint \<Rightarrow> memoryStore \<Rightarrow> tm_error option \<times> memoryStore" where
  "ms_SaveTaskAndCheckpoint t cp s =
     (if t_ID t = [] then (Some TaskIDRequired, s)
      else if cp_ID cp = [] \<or> cp_TaskID cp \<noteq> t_ID t then (Some CheckpointIDRequired, s)
      else (None, s\<lparr>ms_tasks := gm_put (t_ID t) (cloneTask t) (ms_tasks s),
                    ms_checkpoints := gm_put (cp_ID cp) cp (ms_checkpoints s),
                    ms_latest := gm_put (t_ID t) cp (ms_latest s)\<rparr>))"

definition ms_Checkpoints :: "string \<Rightarrow> memoryStore \<Rightarrow> tm_error + checkpoint list" where
  "ms_Checkpoints taskID s =
     (let prefix = ''cp-'' @ taskID @ ''-''
      in Inr (sort_key cp_Sequence
           (map snd (filter (\<lambda>(key, _). has_prefix key prefix) (ms_checkpoints s)))))"

definition ms_LatestCheckpoint :: "string \<Rightarrow> memoryStore \<Rightarrow> tm_error + checkpoint" where
  "ms_LatestCheckpoint taskID s =
     (case gm_get (ms_latest s) taskID of
        None \<Rightarrow> Inl (NoCheckpoint taskID)
      | Some cp \<Rightarrow> Inr cp)"

definition memory_ops :: "memoryStore store_ops" where
  "memory_ops =
     \<lparr>so_Load = ms_Load, so_Save = ms_Save, so_SaveCheckpoint = ms_SaveCheckpoint,
      so_Checkpoints = ms_Checkpoints, so_LatestCheckpoint = ms_LatestCheckpoint,
      so_SaveTaskAndCheckpoint = Some ms_SaveTaskAndCheckpoint\<rparr>"

subsection \<open>Laws of cloning\<close>

text \<open>What a store keeps of a task: everything but its context and its change channel.\<close>

definition durable :: "task \<Rightarrow> task" where
  "durable t = t\<lparr>t_cancelled := False, t_changed := 0\<rparr>"

lemma DispatchRequestID_nonempty [simp]: "DispatchRequestID i j \<noteq> []"
  by (simp add: DispatchRequestID_def)

lemma clone_attempt_idem [simp]: "clone_attempt i j (clone_attempt i j a) = clone_attempt i j a"
  by (simp add: clone_attempt_def)

lemma clone_attempt_fields [simp]:
  "da_ID (clone_attempt i j a) = da_ID a" "da_Number (clone_attempt i j a) = da_Number a"
  "da_Status (clone_attempt i j a) = da_Status a" "da_NodeID (clone_attempt i j a) = da_NodeID a"
  "da_FinishedAt (clone_attempt i j a) = da_FinishedAt a" "da_StartedAt (clone_attempt i j a) = da_StartedAt a"
  by (simp_all add: clone_attempt_def)

lemma clone_result_fields [simp]:
  "sr_Assignment (clone_result i r) = sr_Assignment r" "sr_Status (clone_result i r) = sr_Status r"
  "sr_Output (clone_result i r) = sr_Output r" "sr_Error (clone_result i r) = sr_Error r"
  "sr_Attempts (clone_result i r) = map (clone_attempt i (sr_ID r)) (sr_Attempts r)"
  by (simp_all add: clone_result_def)

lemma clone_result_idem [simp]: "clone_result i (clone_result i r) = clone_result i r"
  by (simp add: clone_result_def comp_def)

lemma cloneTask_fields [simp]:
  "t_ID (cloneTask t) = t_ID t" "t_Origin (cloneTask t) = t_Origin t" "t_Sequence (cloneTask t) = t_Sequence t"
  "t_Description (cloneTask t) = t_Description t" "t_Status (cloneTask t) = t_Status t"
  "t_Graph (cloneTask t) = t_Graph t" "t_Resumable (cloneTask t) = t_Resumable t"
  "t_LastCheckpoint (cloneTask t) = t_LastCheckpoint t" "t_RequireApproval (cloneTask t) = t_RequireApproval t"
  "t_Result (cloneTask t) = t_Result t" "t_Error (cloneTask t) = t_Error t"
  "t_CreatedAt (cloneTask t) = t_CreatedAt t" "t_UpdatedAt (cloneTask t) = t_UpdatedAt t"
  "t_cancelled (cloneTask t) = t_cancelled t" "t_changed (cloneTask t) = t_changed t"
  "t_Subtasks (cloneTask t) = map (clone_result (t_ID t)) (t_Subtasks t)"
  by (simp_all add: cloneTask_def)

lemma cloneTask_idem [simp]: "cloneTask (cloneTask t) = cloneTask t"
  by (simp add: cloneTask_def comp_def)

lemma durable_fields [simp]:
  "t_ID (durable t) = t_ID t" "t_Origin (durable t) = t_Origin t" "t_Sequence (durable t) = t_Sequence t"
  "t_Status (durable t) = t_Status t" "t_Subtasks (durable t) = t_Subtasks t"
  "t_Result (durable t) = t_Result t" "t_Error (durable t) = t_Error t" "t_Resumable (durable t) = t_Resumable t"
  by (simp_all add: durable_def)

lemma durable_idem [simp]: "durable (durable t) = durable t"
  by (simp add: durable_def)

lemma durable_clone: "durable (cloneTask t) = cloneTask (durable t)"
  by (simp add: durable_def cloneTask_def)

lemma checkpointForTask_simps [simp]:
  "cp_TaskID (fst (checkpointForTask now t)) = t_ID t" "cp_ID (fst (checkpointForTask now t)) \<noteq> []"
  "t_ID (snd (checkpointForTask now t)) = t_ID t" "t_Status (snd (checkpointForTask now t)) = t_Status t"
  "t_Subtasks (snd (checkpointForTask now t)) = t_Subtasks t"
  by (simp_all add: checkpointForTask_def Let_def)

subsection \<open>The contract of a store\<close>

locale task_store =
  fixes ops :: "'s store_ops"
    and stored :: "'s \<Rightarrow> string \<Rightarrow> task option"
    and latest :: "'s \<Rightarrow> string \<Rightarrow> checkpoint option"
    and store_inv :: "'s \<Rightarrow> bool"
  assumes Save_ok: "store_inv s \<Longrightarrow> so_Save ops t s = (None, s') \<Longrightarrow>
      store_inv s' \<and> stored s' = (stored s)(t_ID t \<mapsto> durable (cloneTask t)) \<and> latest s' = latest s"
    and Save_err: "store_inv s \<Longrightarrow> so_Save ops t s = (Some e, s') \<Longrightarrow>
      store_inv s' \<and> stored s' = stored s \<and> latest s' = latest s"
    and SaveCheckpoint_ok: "store_inv s \<Longrightarrow> so_SaveCheckpoint ops cp s = (None, s') \<Longrightarrow>
      store_inv s' \<and> stored s' = stored s \<and> latest s' = (latest s)(cp_TaskID cp \<mapsto> cp)"
    and SaveCheckpoint_err: "store_inv s \<Longrightarrow> so_SaveCheckpoint ops cp s = (Some e, s') \<Longrightarrow>
      store_inv s' \<and> stored s' = stored s \<and> latest s' = latest s"
    and SaveBoth_ok: "store_inv s \<Longrightarrow> so_SaveTaskAndCheckpoint ops = Some f \<Longrightarrow> f t cp s = (None, s') \<Longrightarrow>
      store_inv s' \<and> stored s' = (stored s)(t_ID t \<mapsto> durable (cloneTask t)) \<and>
      latest s' = (latest s)(t_ID t \<mapsto> cp)"
    and SaveBoth_err: "store_inv s \<Longrightarrow> so_SaveTaskAndCheckpoint ops = Some f \<Longrightarrow> f t cp s = (Some e, s') \<Longrightarrow>
      store_inv s' \<and> stored s' = stored s \<and> latest s' = latest s"
    and Load_ok: "store_inv s \<Longrightarrow> so_Load ops s = Inr ts \<Longrightarrow>
      distinct (map t_ID ts) \<and> (\<forall>i. stored s i = map_option durable (find (\<lambda>t. t_ID t = i) ts))"
    and Latest_ok: "store_inv s \<Longrightarrow> so_LatestCheckpoint ops i s = Inr cp \<longleftrightarrow> latest s i = Some cp"
begin

lemma save_both:
  assumes i: "store_inv s" and r: "saveTaskAndCheckpoint ops t cp s = (None, s')" and c: "cp_TaskID cp = t_ID t"
  shows "store_inv s' \<and> stored s' = (stored s)(t_ID t \<mapsto> durable (cloneTask t)) \<and>
    latest s' = (latest s)(t_ID t \<mapsto> cp)"
proof (cases "so_SaveTaskAndCheckpoint ops")
  case None
  with r obtain s1 where s1: "so_SaveCheckpoint ops cp s = (None, s1)" and s': "so_Save ops t s1 = (None, s')"
    by (auto simp: saveTaskAndCheckpoint_def split: prod.splits option.splits)
  from SaveCheckpoint_ok [OF i s1] Save_ok [of s1 t s'] s' c show ?thesis by simp
next
  case (Some f)
  with r SaveBoth_ok [OF i Some] show ?thesis by (simp add: saveTaskAndCheckpoint_def)
qed

lemma save_both_err:
  assumes i: "store_inv s" and r: "saveTaskAndCheckpoint ops t cp s = (Some e, s')"
  shows "store_inv s' \<and> stored s' = stored s"
proof (cases "so_SaveTaskAndCheckpoint ops")
  case None
  then show ?thesis
  proof (cases "so_SaveCheckpoint ops cp s")
    case (Pair o1 s1)
    with None r i SaveCheckpoint_ok [OF i, of cp s1] SaveCheckpoint_err [OF i, of cp _ s1] Save_err [of s1 t e s']
    show ?thesis by (auto simp: saveTaskAndCheckpoint_def split: option.splits)
  qed
next
  case (Some f)
  with r SaveBoth_err [OF i Some] show ?thesis by (simp add: saveTaskAndCheckpoint_def)
qed

text \<open>What was saved is what a later load and a later look at the latest checkpoint return.\<close>

lemma save_then_load:
  assumes "store_inv s" "saveTaskAndCheckpoint ops t cp s = (None, s')" "cp_TaskID cp = t_ID t"
    and "so_Load ops s' = Inr ts"
  shows "\<exists>t' \<in> set ts. durable t' = durable (cloneTask t)" "so_LatestCheckpoint ops (t_ID t) s' = Inr cp"
proof -
  note b = save_both [OF assms(1-3)]
  from Load_ok [OF _ assms(4)] b have "map_option durable (find (\<lambda>t'. t_ID t' = t_ID t) ts) = Some (durable (cloneTask t))"
    by (metis fun_upd_same)
  then show "\<exists>t' \<in> set ts. durable t' = durable (cloneTask t)" by (auto dest: find_Some_mem)
  from b show "so_LatestCheckpoint ops (t_ID t) s' = Inr cp" by (simp add: Latest_ok)
qed

end

subsection \<open>The in-memory store satisfies the contract\<close>

definition ms_inv :: "memoryStore \<Rightarrow> bool" where
  "ms_inv s \<longleftrightarrow> gm_wf (ms_tasks s) \<and> (\<forall>(i, t) \<in> set (ms_tasks s). t_ID t = i \<and> cloneTask t = t)"

definition ms_stored :: "memoryStore \<Rightarrow> string \<Rightarrow> task option" where
  "ms_stored s i = map_option durable (gm_get (ms_tasks s) i)"

definition ms_latest_of :: "memoryStore \<Rightarrow> string \<Rightarrow> checkpoint option" where
  "ms_latest_of s i = gm_get (ms_latest s) i"

lemma ms_inv_put: "ms_inv s \<Longrightarrow> ms_inv (s\<lparr>ms_tasks := gm_put (t_ID t) (cloneTask t) (ms_tasks s)\<rparr>)"
  by (auto simp: ms_inv_def set_gm_put)

lemma ms_inv_other [simp]: "ms_inv (s\<lparr>ms_checkpoints := c, ms_latest := l\<rparr>) = ms_inv s"
  by (simp add: ms_inv_def)

lemma ms_stored_put:
  "ms_stored (s\<lparr>ms_tasks := gm_put (t_ID t) (cloneTask t) (ms_tasks s)\<rparr>) = (ms_stored s)(t_ID t \<mapsto> durable (cloneTask t))"
  by (auto simp: ms_stored_def)

lemma find_map_id: "(\<And>x. x \<in> set xs \<Longrightarrow> f (g x) = x) \<Longrightarrow> find (\<lambda>t. f t = i) (map g xs) = (if i \<in> set xs then Some (g i) else None)"
  by (induction xs) auto

lemma ms_Load_eq:
  assumes "ms_inv s"
  shows "ms_Load s = Inr (map (\<lambda>k. the (gm_get (ms_tasks s) k)) (sort (map fst (ms_tasks s))))"
proof -
  have "(case gm_get (ms_tasks s) k of None \<Rightarrow> [] | Some t \<Rightarrow> [cloneTask t]) = [the (gm_get (ms_tasks s) k)]"
    if "k \<in> gm_keys (ms_tasks s)" for k
    using that assms by (auto simp: ms_inv_def gm_get_None split: option.split dest!: map_of_SomeD)
  then have "concat (map (\<lambda>k. case gm_get (ms_tasks s) k of None \<Rightarrow> [] | Some t \<Rightarrow> [cloneTask t]) ks) =
      map (\<lambda>k. the (gm_get (ms_tasks s) k)) ks" if "set ks \<subseteq> gm_keys (ms_tasks s)" for ks
    using that by (induction ks) auto
  then show ?thesis by (simp add: ms_Load_def)
qed

lemma ms_Load_ok:
  assumes i: "ms_inv s" and l: "ms_Load s = Inr ts"
  shows "distinct (map t_ID ts)" "ms_stored s i = map_option durable (find (\<lambda>t. t_ID t = i) ts)"
proof -
  let ?ks = "sort (map fst (ms_tasks s))" and ?g = "\<lambda>k. the (gm_get (ms_tasks s) k)"
  have ts: "ts = map ?g ?ks" using l ms_Load_eq [OF i] by simp
  have g: "t_ID (?g k) = k" if "k \<in> gm_keys (ms_tasks s)" for k
  proof -
    from that obtain t where t: "gm_get (ms_tasks s) k = Some t" using gm_get_None [of "ms_tasks s" k] by blast
    then have "(k, t) \<in> set (ms_tasks s)" by (rule map_of_SomeD)
    with i t show ?thesis by (auto simp: ms_inv_def)
  qed
  have "map t_ID ts = ?ks" using g unfolding ts by (auto intro!: map_idI)
  then show "distinct (map t_ID ts)" using i by (simp add: ms_inv_def gm_wf_def)
  have "find (\<lambda>t. t_ID t = i) ts = (if i \<in> gm_keys (ms_tasks s) then Some (?g i) else None)"
    unfolding ts using find_map_id [of ?ks t_ID ?g i] g by simp
  moreover have "gm_get (ms_tasks s) i = (if i \<in> gm_keys (ms_tasks s) then Some (?g i) else None)"
    using gm_get_None [of "ms_tasks s" i] by auto
  ultimately show "ms_stored s i = map_option durable (find (\<lambda>t. t_ID t = i) ts)" by (simp add: ms_stored_def)
qed

lemma ms_SaveBoth_ok:
  assumes "ms_inv s" "ms_SaveTaskAndCheckpoint t cp s = (None, s')"
  shows "ms_inv s' \<and> ms_stored s' = (ms_stored s)(t_ID t \<mapsto> durable (cloneTask t)) \<and>
    ms_latest_of s' = (ms_latest_of s)(t_ID t \<mapsto> cp)"
proof -
  have s': "s' = s\<lparr>ms_tasks := gm_put (t_ID t) (cloneTask t) (ms_tasks s),
      ms_checkpoints := gm_put (cp_ID cp) cp (ms_checkpoints s), ms_latest := gm_put (t_ID t) cp (ms_latest s)\<rparr>"
    using assms(2) by (simp add: ms_SaveTaskAndCheckpoint_def split: if_splits)
  have "ms_inv s'" using ms_inv_put [OF assms(1), of t] unfolding s' ms_inv_def by simp
  then show ?thesis unfolding s' by (auto simp: ms_stored_def ms_latest_of_def)
qed

interpretation mem: task_store memory_ops ms_stored ms_latest_of ms_inv
proof
  fix s :: memoryStore and t s'
  assume i: "ms_inv s"
  show "so_Save memory_ops t s = (None, s') \<Longrightarrow>
      ms_inv s' \<and> ms_stored s' = (ms_stored s)(t_ID t \<mapsto> durable (cloneTask t)) \<and> ms_latest_of s' = ms_latest_of s"
    using i ms_inv_put ms_stored_put
    by (auto simp: memory_ops_def ms_Save_def ms_latest_of_def fun_eq_iff split: if_splits)
  show "so_Save memory_ops t s = (Some e, s') \<Longrightarrow>
      ms_inv s' \<and> ms_stored s' = ms_stored s \<and> ms_latest_of s' = ms_latest_of s" for e
    using i by (auto simp: memory_ops_def ms_Save_def split: if_splits)
  show "so_SaveCheckpoint memory_ops cp s = (None, s') \<Longrightarrow>
      ms_inv s' \<and> ms_stored s' = ms_stored s \<and> ms_latest_of s' = (ms_latest_of s)(cp_TaskID cp \<mapsto> cp)" for cp
    using i by (auto simp: memory_ops_def ms_SaveCheckpoint_def ms_stored_def ms_latest_of_def fun_eq_iff split: if_splits)
  show "so_SaveCheckpoint memory_ops cp s = (Some e, s') \<Longrightarrow>
      ms_inv s' \<and> ms_stored s' = ms_stored s \<and> ms_latest_of s' = ms_latest_of s" for cp e
    using i by (auto simp: memory_ops_def ms_SaveCheckpoint_def split: if_splits)
  show "so_SaveTaskAndCheckpoint memory_ops = Some f \<Longrightarrow> f t cp s = (None, s') \<Longrightarrow>
      ms_inv s' \<and> ms_stored s' = (ms_stored s)(t_ID t \<mapsto> durable (cloneTask t)) \<and>
      ms_latest_of s' = (ms_latest_of s)(t_ID t \<mapsto> cp)" for f cp
    using ms_SaveBoth_ok [OF i] by (auto simp: memory_ops_def)
  show "so_SaveTaskAndCheckpoint memory_ops = Some f \<Longrightarrow> f t cp s = (Some e, s') \<Longrightarrow>
      ms_inv s' \<and> ms_stored s' = ms_stored s \<and> ms_latest_of s' = ms_latest_of s" for f cp e
    using i by (auto simp: memory_ops_def ms_SaveTaskAndCheckpoint_def split: if_splits)
  show "so_Load memory_ops s = Inr ts \<Longrightarrow>
      distinct (map t_ID ts) \<and> (\<forall>i. ms_stored s i = map_option durable (find (\<lambda>t. t_ID t = i) ts))" for ts
    using ms_Load_ok [OF i] by (simp add: memory_ops_def)
  show "so_LatestCheckpoint memory_ops i s = Inr cp \<longleftrightarrow> ms_latest_of s i = Some cp" for i cp
    by (auto simp: memory_ops_def ms_LatestCheckpoint_def ms_latest_of_def split: option.split)
qed

subsection \<open>Frontier and outputs\<close>

lemma collect_fold:
  "gm_wf m \<Longrightarrow> gm_wf (foldl (\<lambda>outputs s. if sr_Status s = StatusCompleted \<and> sr_Output s \<noteq> []
      then gm_put (sr_ID s) (sr_Output s) outputs else outputs) m ss) \<and>
   gm_keys (foldl (\<lambda>outputs s. if sr_Status s = StatusCompleted \<and> sr_Output s \<noteq> []
      then gm_put (sr_ID s) (sr_Output s) outputs else outputs) m ss) =
     gm_keys m \<union> sr_ID ` {s \<in> set ss. sr_Status s = StatusCompleted \<and> sr_Output s \<noteq> []}"
proof (induction ss arbitrary: m)
  case (Cons s ss)
  have "gm_wf (if sr_Status s = StatusCompleted \<and> sr_Output s \<noteq> [] then gm_put (sr_ID s) (sr_Output s) m else m)"
    using Cons.prems by simp
  from Cons.IH [OF this] show ?case by auto
qed simp

lemma collectOutputs_keys:
  "gm_wf (collectOutputs t)"
  "gm_keys (collectOutputs t) = sr_ID ` {s \<in> set (t_Subtasks t). sr_Status s = StatusCompleted \<and> sr_Output s \<noteq> []}"
  using collect_fold [of "[]" "t_Subtasks t"] by (simp_all add: collectOutputs_def)

lemma frontier_graph:
  assumes "t_Graph t = Some g" "graph_wf g"
  shows "set (computeFrontier t) =
    {i \<in> gm_keys (g_Nodes g). \<not> completed_ids t i \<and> (\<forall>d \<in> set (Dependencies g i). completed_ids t d)}"
proof -
  have n: "(i, node) \<in> set (g_Nodes g) \<Longrightarrow> st_ID node = i" for i node
    using assms(2) unfolding graph_wf_def by blast
  have "set (computeFrontier t) = st_ID ` set (ReadyNodes g (completed_ids t))"
    by (simp add: computeFrontier_def assms(1))
  also have "\<dots> = {i \<in> gm_keys (g_Nodes g). \<not> completed_ids t i \<and> (\<forall>d \<in> set (Dependencies g i). completed_ids t d)}"
    unfolding ReadyNodes_set using n by (force simp: image_iff)
  finally show ?thesis .
qed

subsection \<open>Properties\<close>

definition sample_task :: task where
  "sample_task =
     \<lparr>t_ID = ''task-1'', t_Origin = [], t_Sequence = 0, t_Description = ''demo'', t_Status = StatusRunning,
      t_Subtasks = [], t_Graph = Some sample_graph, t_Resumable = True, t_LastCheckpoint = [],
      t_RequireApproval = False, t_Result = [], t_Error = [], t_CreatedAt = 5, t_UpdatedAt = 5,
      t_cancelled = False, t_changed = 0\<rparr>"





end
