(* ===== verification/Task_Manager.thy ===== *)
theory Task_Manager
  imports Task_Store
begin

text \<open>
  \<^verbatim>\<open>taskmgr.Manager\<close>: the lifecycle of tasks and of their dispatch attempts
  (\<^verbatim>\<open>lifecycle.go\<close>, \<^verbatim>\<open>dispatch_attempts.go\<close>, the resume operation of \<^verbatim>\<open>checkpoint.go\<close>).

  Every operation runs under the persistence lock of its task, so it is one function on the
  manager. The calls of the finalizer run without a lock and are the exception: an operation
  that may end in synthesis is split into the part before the call and \<^verbatim>\<open>finishSynthesis\<close>
  after it, so that other operations can be interleaved. A clock \<open>clk\<close> gives the i-th
  reading of \<^verbatim>\<open>time.Now\<close> during the call. \<open>ops\<close> is the store implementation, and
  \<open>m_store\<close> the state of the store, if the manager has one.
\<close>

subsection \<open>State\<close>

record 's manager =
  m_tasks :: "(string, task) gomap"
  m_recentTasks :: "string list"
  m_recentTasksValid :: bool
  m_seq :: nat
  m_syncOrigin :: string
  m_syncSeq :: "(string, uint64) gomap"
  m_finalizer :: bool
  m_store :: "'s option"
  m_changes :: nat

type_synonym clock = "nat \<Rightarrow> time"

definition newManager :: "nat \<Rightarrow> 's option \<Rightarrow> bool \<Rightarrow> 's manager" where
  "newManager syncID store finalizer =
     \<lparr>m_tasks = [], m_recentTasks = [], m_recentTasksValid = False, m_seq = 0,
      m_syncOrigin = ''taskmgr-'' @ format_base 10 syncID, m_syncSeq = [],
      m_finalizer = finalizer, m_store = store, m_changes = 0\<rparr>"

definition SetFinalizer :: "bool \<Rightarrow> 's manager \<Rightarrow> 's manager" where
  "SetFinalizer finalizer m = m\<lparr>m_finalizer := finalizer\<rparr>"

definition invalidateRecentTasksLocked :: "'s manager \<Rightarrow> 's manager" where
  "invalidateRecentTasksLocked m =
     m\<lparr>m_recentTasksValid := False, m_recentTasks := [], m_changes := Suc (m_changes m)\<rparr>"

definition signalChanged :: "task \<Rightarrow> task" where
  "signalChanged t = t\<lparr>t_changed := Suc (t_changed t)\<rparr>"

definition genID :: "nat \<Rightarrow> string" where
  "genID seq = ''task-'' @ format_base 36 seq"

definition aggregateOutputs :: "subtask_result list \<Rightarrow> string" where
  "aggregateOutputs subtasks =
     foldl (\<lambda>result s.
         if sr_Status s \<noteq> StatusCompleted \<or> trim_space (sr_Output s) = [] then result
         else (if result = [] then [] else result @ newlines 2) @
              ''## '' @ st_Description (as_Subtask (sr_Assignment s)) @ newlines 1 @ trim_space (sr_Output s))
       [] subtasks"

subsection \<open>Persistence\<close>

definition nextSyncSequenceLocked :: "string \<Rightarrow> 's manager \<Rightarrow> uint64 \<times> 's manager" where
  "nextSyncSequenceLocked origin m =
     (let n = gm_get0 (m_syncSeq m) origin + 1
      in (n, m\<lparr>m_syncSeq := gm_put origin n (m_syncSeq m)\<rparr>))"

text \<open>Both ways of persisting a task first give it the origin of the manager and the next sequence.\<close>

definition stamp :: "task \<Rightarrow> 's manager \<Rightarrow> task \<times> 's manager" where
  "stamp t m =
     (let (n, m1) = nextSyncSequenceLocked (m_syncOrigin m) m
      in (t\<lparr>t_Origin := m_syncOrigin m, t_Sequence := n\<rparr>, invalidateRecentTasksLocked m1))"

definition saveTaskAndCheckpointLocked ::
  "'s store_ops \<Rightarrow> time \<Rightarrow> task \<Rightarrow> 's manager \<Rightarrow> tm_error option \<times> task \<times> 's manager" where
  "saveTaskAndCheckpointLocked ops now t m =
     (case m_store m of
        None \<Rightarrow> (None, t, m)
      | Some s \<Rightarrow>
          (let (cp, snapshot) = checkpointForTask now (cloneTask t)
           in case saveTaskAndCheckpoint ops snapshot cp s of
                (Some e, s') \<Rightarrow> (Some (PersistFailed (t_ID t) e), t, m\<lparr>m_store := Some s'\<rparr>)
              | (None, s') \<Rightarrow>
                  (None, t\<lparr>t_LastCheckpoint := t_LastCheckpoint snapshot, t_Resumable := t_Resumable snapshot\<rparr>,
                   m\<lparr>m_store := Some s'\<rparr>)))"

definition persistTaskAndCheckpointLocked ::
  "'s store_ops \<Rightarrow> time \<Rightarrow> task \<Rightarrow> 's manager \<Rightarrow> tm_error option \<times> task \<times> 's manager" where
  "persistTaskAndCheckpointLocked ops now t m =
     (let (t1, m1) = stamp t m in saveTaskAndCheckpointLocked ops now t1 m1)"

definition persistLocked ::
  "'s store_ops \<Rightarrow> task \<Rightarrow> 's manager \<Rightarrow> tm_error option \<times> task \<times> 's manager" where
  "persistLocked ops t m =
     (let (t1, m1) = stamp t m
      in case m_store m1 of
           None \<Rightarrow> (None, t1, m1)
         | Some s \<Rightarrow>
             (case so_Save ops (cloneTask t1) s of
                (Some e, s') \<Rightarrow> (Some (PersistFailed (t_ID t1) e), t1, m1\<lparr>m_store := Some s'\<rparr>)
              | (None, s') \<Rightarrow> (None, t1, m1\<lparr>m_store := Some s'\<rparr>)))"

text \<open>Writing a task back under its identifier, after an update through its pointer.\<close>

definition put_task :: "string \<Rightarrow> task \<Rightarrow> 's manager \<Rightarrow> 's manager" where
  "put_task i t m = m\<lparr>m_tasks := gm_put i t (m_tasks m)\<rparr>"

definition update_persist ::
  "'s store_ops \<Rightarrow> string \<Rightarrow> task \<Rightarrow> 's manager \<Rightarrow> tm_error option \<times> 's manager" where
  "update_persist ops i t m = (case persistLocked ops t m of (e, t', m') \<Rightarrow> (e, put_task i t' m'))"

definition update_checkpoint ::
  "'s store_ops \<Rightarrow> time \<Rightarrow> string \<Rightarrow> task \<Rightarrow> 's manager \<Rightarrow> tm_error option \<times> task \<times> 's manager" where
  "update_checkpoint ops now i t m =
     (case persistTaskAndCheckpointLocked ops now t m of (e, t', m') \<Rightarrow> (e, t', put_task i t' m'))"

subsection \<open>Creation and cancellation\<close>

definition new_results :: "assignment list \<Rightarrow> subtask_result list" where
  "new_results assignments =
     map (\<lambda>a. \<lparr>sr_Assignment = a, sr_Status = StatusPending, sr_Output = [], sr_Error = [], sr_Attempts = []\<rparr>) assignments"

definition new_task ::
  "clock \<Rightarrow> string \<Rightarrow> string \<Rightarrow> task_graph option \<Rightarrow> assignment list \<Rightarrow> bool \<Rightarrow> task" where
  "new_task clk i description graph assignments requireApproval =
     (let t = \<lparr>t_ID = i, t_Origin = [], t_Sequence = 0, t_Description = description, t_Status = StatusRunning,
               t_Subtasks = new_results assignments, t_Graph = graph, t_Resumable = True, t_LastCheckpoint = [],
               t_RequireApproval = requireApproval, t_Result = [], t_Error = [],
               t_CreatedAt = clk 0, t_UpdatedAt = clk 1, t_cancelled = False, t_changed = 0\<rparr>
      in if assignments = [] then
           t\<lparr>t_Status := StatusFailed, t_Error := ''task has no assigned subtasks'', t_Resumable := False\<rparr>
         else t)"

definition CreateWithGraphAndOptionsChecked ::
  "'s store_ops \<Rightarrow> profiles \<Rightarrow> clock \<Rightarrow> string \<Rightarrow> task_graph option \<Rightarrow> assignment list \<Rightarrow> bool \<Rightarrow> 's manager \<Rightarrow>
     (tm_error + task) \<times> 's manager" where
  "CreateWithGraphAndOptionsChecked ops customProfiles clk description graph0 assignments requireApproval m0 =
     (let m = m0\<lparr>m_seq := Suc (m_seq m0)\<rparr>;
          i = genID (m_seq m);
          graph = (if graph0 = None \<and> assignments \<noteq> []
                   then (case TaskGraphFromSubtasks customProfiles (map as_Subtask assignments) of
                           Inl _ \<Rightarrow> None | Inr g \<Rightarrow> Some g)
                   else graph0);
          t = new_task clk i description graph assignments requireApproval
      in case persistTaskAndCheckpointLocked ops (clk 2) t m of
           (Some e, _, m1) \<Rightarrow> (Inl e, m1)
         | (None, t1, m1) \<Rightarrow> (Inr (cloneTask t1), invalidateRecentTasksLocked (put_task i t1 m1)))"

definition terminal :: "status \<Rightarrow> bool" where
  "terminal s \<longleftrightarrow> s = StatusCompleted \<or> s = StatusFailed \<or> s = StatusCancelled"

definition cancel_result :: "subtask_result \<Rightarrow> subtask_result" where
  "cancel_result s = (if sr_open s then s\<lparr>sr_Status := StatusCancelled, sr_Error := ''task cancelled''\<rparr> else s)"

definition cancel_task :: "time \<Rightarrow> task \<Rightarrow> task" where
  "cancel_task now t =
     signalChanged (t\<lparr>t_cancelled := True, t_Status := StatusCancelled, t_Error := ''task cancelled'',
       t_Subtasks := map cancel_result (t_Subtasks t),
       t_Resumable := list_ex (\<lambda>s. sr_Status s = StatusCompleted) (t_Subtasks t), t_UpdatedAt := now\<rparr>)"

definition CancelAndSnapshotChecked ::
  "'s store_ops \<Rightarrow> clock \<Rightarrow> string \<Rightarrow> 's manager \<Rightarrow> (task option \<times> bool \<times> tm_error option) \<times> 's manager" where
  "CancelAndSnapshotChecked ops clk i m =
     (case gm_get (m_tasks m) i of
        None \<Rightarrow> ((None, False, None), m)
      | Some t \<Rightarrow>
          if terminal (t_Status t) then ((None, False, None), m)
          else (case update_checkpoint ops (clk 1) i (cancel_task (clk 0) t) m of
                  (e, t', m') \<Rightarrow> ((Some (cloneTask t'), True, e), m')))"

subsection \<open>Subtasks\<close>

definition set_result :: "string \<Rightarrow> (subtask_result \<Rightarrow> subtask_result) \<Rightarrow> task \<Rightarrow> task" where
  "set_result subtaskID f t = t\<lparr>t_Subtasks := update_first (\<lambda>s. sr_ID s = subtaskID) f (t_Subtasks t)\<rparr>"

abbreviation find_result :: "task \<Rightarrow> string \<Rightarrow> subtask_result option" where
  "find_result t subtaskID \<equiv> find (\<lambda>s. sr_ID s = subtaskID) (t_Subtasks t)"

definition StartSubtaskChecked ::
  "'s store_ops \<Rightarrow> clock \<Rightarrow> string \<Rightarrow> string \<Rightarrow> 's manager \<Rightarrow> tm_error option \<times> 's manager" where
  "StartSubtaskChecked ops clk taskID subtaskID m =
     (case gm_get (m_tasks m) taskID of
        None \<Rightarrow> (Some (SubtaskNotFound subtaskID taskID), m)
      | Some t \<Rightarrow>
          if t_Status t = StatusCancelled then (None, m)
          else (case find_result t subtaskID of
                  None \<Rightarrow> (Some (SubtaskNotFound subtaskID taskID), m)
                | Some s \<Rightarrow>
                    if \<not> sr_open s then (Some (SubtaskFinished subtaskID taskID), m)
                    else update_persist ops taskID
                           (signalChanged ((set_result subtaskID (\<lambda>s. s\<lparr>sr_Status := StatusRunning\<rparr>) t)\<lparr>t_UpdatedAt := clk 0\<rparr>)) m))"

definition ReassignSubtaskChecked ::
  "'s store_ops \<Rightarrow> clock \<Rightarrow> string \<Rightarrow> string \<Rightarrow> assignment \<Rightarrow> 's manager \<Rightarrow> tm_error option \<times> 's manager" where
  "ReassignSubtaskChecked ops clk taskID subtaskID assignment m =
     (case gm_get (m_tasks m) taskID of
        None \<Rightarrow> (Some (TaskNotFound taskID), m)
      | Some t \<Rightarrow>
          (case find_result t subtaskID of
             None \<Rightarrow> (Some (SubtaskNotFound subtaskID taskID), m)
           | Some s \<Rightarrow>
               if \<not> sr_open s then (Some (SubtaskNotPendingOrRunning subtaskID taskID), m)
               else update_persist ops taskID
                      (signalChanged ((set_result subtaskID (\<lambda>s. s\<lparr>sr_Assignment := assignment\<rparr>) t)\<lparr>t_UpdatedAt := clk 0\<rparr>)) m))"

definition subtaskFinished :: "task \<Rightarrow> string \<Rightarrow> bool" where
  "subtaskFinished t subtaskID =
     (case find_result t subtaskID of None \<Rightarrow> False | Some s \<Rightarrow> \<not> sr_open s)"

text \<open>
  What \<^verbatim>\<open>completeSubtaskLocked\<close> hands to \<^verbatim>\<open>finishSubtaskCompletion\<close>: the snapshot for the
  finalizer, if synthesis is due, and the error of persisting the outcome.
\<close>

record completion =
  co_snapshot :: "task option"
  co_persistErr :: "tm_error option"

definition settle_result :: "string \<Rightarrow> string option \<Rightarrow> subtask_result \<Rightarrow> subtask_result" where
  "settle_result output taskErr s =
     (case taskErr of
        Some e \<Rightarrow> s\<lparr>sr_Status := StatusFailed, sr_Error := e\<rparr>
      | None \<Rightarrow> s\<lparr>sr_Status := StatusCompleted, sr_Output := output\<rparr>)"

definition roll_up :: "bool \<Rightarrow> task \<Rightarrow> task" where
  "roll_up finalizer t =
     (if list_ex sr_open (t_Subtasks t) then t\<lparr>t_Resumable := True\<rparr>
      else
        (let t = t\<lparr>t_Result := aggregateOutputs (t_Subtasks t)\<rparr>
         in if list_ex (\<lambda>s. sr_Status s = StatusFailed) (t_Subtasks t)
            then t\<lparr>t_Status := StatusFailed, t_Error := ''one or more subtasks failed'', t_Resumable := True\<rparr>
            else if t_RequireApproval t then t\<lparr>t_Status := StatusAwaitingApproval, t_Resumable := True\<rparr>
            else if finalizer then t\<lparr>t_Status := StatusSynthesis, t_Resumable := True\<rparr>
            else t\<lparr>t_Status := StatusCompleted, t_Resumable := False\<rparr>))"

definition synthesis_due :: "bool \<Rightarrow> task \<Rightarrow> bool" where
  "synthesis_due finalizer t \<longleftrightarrow> \<not> list_ex sr_open (t_Subtasks t) \<and>
     \<not> list_ex (\<lambda>s. sr_Status s = StatusFailed) (t_Subtasks t) \<and> \<not> t_RequireApproval t \<and> finalizer"

definition completeSubtaskLocked ::
  "'s store_ops \<Rightarrow> clock \<Rightarrow> string \<Rightarrow> task \<Rightarrow> string \<Rightarrow> string \<Rightarrow> string option \<Rightarrow> 's manager \<Rightarrow>
     (tm_error + completion) \<times> 's manager" where
  "completeSubtaskLocked ops clk i t subtaskID output taskErr m =
     (case find_result t subtaskID of
        None \<Rightarrow> (Inl (SubtaskNotFound subtaskID (t_ID t)), m)
      | Some _ \<Rightarrow>
          (let t1 = set_result subtaskID (settle_result output taskErr) t;
               t2 = roll_up (m_finalizer m) t1;
               snapshot = (if synthesis_due (m_finalizer m) t1 then Some (cloneTask t2) else None)
           in case update_checkpoint ops (clk 1) i (signalChanged (t2\<lparr>t_UpdatedAt := clk 0\<rparr>)) m of
                (e, t3, m') \<Rightarrow> (Inr \<lparr>co_snapshot = snapshot, co_persistErr = e\<rparr>, m')))"

text \<open>
  The first part of \<^verbatim>\<open>CompleteSubtaskChecked\<close>. \<open>Inr None\<close> is the silent return for a stale
  outcome; \<open>Inr (Some c)\<close> continues with \<^verbatim>\<open>finishSubtaskCompletion\<close>.
\<close>

definition CompleteSubtask_begin ::
  "'s store_ops \<Rightarrow> clock \<Rightarrow> string \<Rightarrow> string \<Rightarrow> string \<Rightarrow> string option \<Rightarrow> 's manager \<Rightarrow>
     (tm_error + completion option) \<times> 's manager" where
  "CompleteSubtask_begin ops clk taskID subtaskID output taskErr m =
     (case gm_get (m_tasks m) taskID of
        None \<Rightarrow> (Inl (TaskNotFound taskID), m)
      | Some t \<Rightarrow>
          if t_Status t = StatusCancelled \<or> subtaskFinished t subtaskID then (Inr None, m)
          else (case completeSubtaskLocked ops clk taskID t subtaskID output taskErr m of
                  (Inl e, m') \<Rightarrow> (Inl e, m')
                | (Inr c, m') \<Rightarrow> (Inr (Some c), m')))"

subsection \<open>Approval and synthesis\<close>

text \<open>\<^verbatim>\<open>finishSynthesis\<close> once the finalizer has returned \<open>result\<close>.\<close>

definition synthesize :: "string + string \<Rightarrow> task \<Rightarrow> task" where
  "synthesize result t =
     (case result of
        Inl e \<Rightarrow> t\<lparr>t_Status := StatusFailed, t_Error := ''result synthesis failed: '' @ e, t_Resumable := True\<rparr>
      | Inr r \<Rightarrow>
          if trim_space r = []
          then t\<lparr>t_Status := StatusFailed, t_Error := ''result synthesis failed: model returned an empty result'', t_Resumable := True\<rparr>
          else t\<lparr>t_Result := trim_space r, t_Status := StatusCompleted, t_Resumable := False\<rparr>)"

definition finishSynthesis ::
  "'s store_ops \<Rightarrow> clock \<Rightarrow> string \<Rightarrow> string + string \<Rightarrow> 's manager \<Rightarrow> tm_error option \<times> 's manager" where
  "finishSynthesis ops clk taskID result m =
     (case gm_get (m_tasks m) taskID of
        None \<Rightarrow> (None, m)
      | Some t \<Rightarrow>
          if t_Status t \<noteq> StatusSynthesis then (None, m)
          else (case update_checkpoint ops (clk 1) taskID (signalChanged ((synthesize result t)\<lparr>t_UpdatedAt := clk 0\<rparr>)) m of
                  (e, _, m') \<Rightarrow> (e, m')))"

text \<open>\<^verbatim>\<open>finishSubtaskCompletion\<close> and the whole of \<^verbatim>\<open>CompleteSubtaskChecked\<close>, for a finalizer
  \<open>fin\<close> during whose call no other operation runs.\<close>

definition finishSubtaskCompletion ::
  "'s store_ops \<Rightarrow> clock \<Rightarrow> (task \<Rightarrow> string + string) \<Rightarrow> string \<Rightarrow> completion \<Rightarrow> 's manager \<Rightarrow> tm_error option \<times> 's manager" where
  "finishSubtaskCompletion ops clk fin taskID c m =
     (case co_snapshot c of
        None \<Rightarrow> (co_persistErr c, m)
      | Some snapshot \<Rightarrow>
          if co_persistErr c \<noteq> None then (co_persistErr c, m)
          else finishSynthesis ops clk taskID (fin snapshot) m)"

definition CompleteSubtaskChecked ::
  "'s store_ops \<Rightarrow> clock \<Rightarrow> clock \<Rightarrow> (task \<Rightarrow> string + string) \<Rightarrow> string \<Rightarrow> string \<Rightarrow> string \<Rightarrow> string option \<Rightarrow> 's manager \<Rightarrow>
     tm_error option \<times> 's manager" where
  "CompleteSubtaskChecked ops clk clk' fin taskID subtaskID output taskErr m =
     (case CompleteSubtask_begin ops clk taskID subtaskID output taskErr m of
        (Inl e, m') \<Rightarrow> (Some e, m')
      | (Inr None, m') \<Rightarrow> (None, m')
      | (Inr (Some c), m') \<Rightarrow> finishSubtaskCompletion ops clk' fin taskID c m')"

text \<open>The first part of \<^verbatim>\<open>ApproveChecked\<close>; a snapshot in the result continues with \<^verbatim>\<open>finishSynthesis\<close>.\<close>

definition Approve_begin ::
  "'s store_ops \<Rightarrow> clock \<Rightarrow> string \<Rightarrow> 's manager \<Rightarrow> (tm_error + completion) \<times> 's manager" where
  "Approve_begin ops clk taskID m =
     (case gm_get (m_tasks m) taskID of
        None \<Rightarrow> (Inl (TaskNotFound taskID), m)
      | Some t \<Rightarrow>
          if t_Status t \<noteq> StatusAwaitingApproval then (Inl (NotAwaitingApproval taskID), m)
          else if \<not> m_finalizer m then
            (case update_checkpoint ops (clk 1) taskID
                    (signalChanged (t\<lparr>t_Status := StatusCompleted, t_Resumable := False, t_UpdatedAt := clk 0\<rparr>)) m of
               (e, _, m') \<Rightarrow> (Inr \<lparr>co_snapshot = None, co_persistErr = e\<rparr>, m'))
          else
            (case update_checkpoint ops (clk 1) taskID
                    (signalChanged (t\<lparr>t_Status := StatusSynthesis, t_UpdatedAt := clk 0\<rparr>)) m of
               (e, t', m') \<Rightarrow> (Inr \<lparr>co_snapshot = Some (cloneTask t'), co_persistErr = e\<rparr>, m')))"

subsection \<open>Resumption\<close>

definition reset_result :: "subtask_result \<Rightarrow> subtask_result" where
  "reset_result s = (if sr_Status s \<noteq> StatusCompleted then s\<lparr>sr_Status := StatusPending, sr_Error := []\<rparr> else s)"

definition resume_task :: "time \<Rightarrow> task \<Rightarrow> task" where
  "resume_task now t =
     signalChanged (t\<lparr>t_Status := StatusRunning, t_Error := [], t_UpdatedAt := now,
       t_Subtasks := map reset_result (t_Subtasks t), t_cancelled := False\<rparr>)"

definition ResumeTaskChecked ::
  "'s store_ops \<Rightarrow> clock \<Rightarrow> string \<Rightarrow> 's manager \<Rightarrow> (tm_error + task) \<times> 's manager" where
  "ResumeTaskChecked ops clk taskID m =
     (case gm_get (m_tasks m) taskID of
        None \<Rightarrow> (Inl (TaskNotFound taskID), m)
      | Some t \<Rightarrow>
          if t_Status t = StatusCompleted \<or> \<not> t_Resumable t \<or>
             t_Status t \<noteq> StatusFailed \<and> t_Status t \<noteq> StatusCancelled
          then (Inl (NotResumable taskID), m)
          else (case update_checkpoint ops (clk 1) taskID (resume_task (clk 0) t) m of
                  (Some e, _, m') \<Rightarrow> (Inl e, m')
                | (None, t', m') \<Rightarrow> (Inr (cloneTask t'), m')))"

subsection \<open>Dispatch attempts\<close>

definition new_attempt :: "string \<Rightarrow> string \<Rightarrow> assignment \<Rightarrow> nat \<Rightarrow> time \<Rightarrow> dispatch_attempt" where
  "new_attempt taskID subtaskID a number now =
     \<lparr>da_ID = DispatchAttemptID taskID subtaskID (int number), da_RequestID = DispatchRequestID taskID subtaskID,
      da_Number = int number, da_NodeID = as_NodeID a, da_Model = as_Model a, da_Engine = as_Engine a,
      da_Status = DispatchAttemptRunning, da_FailureClass = [], da_HTTPStatus = 0, da_Error = [],
      da_StartedAt = now, da_FinishedAt = None, da_DurationMs = 0\<rparr>"

definition BeginDispatchAttemptChecked ::
  "'s store_ops \<Rightarrow> clock \<Rightarrow> string \<Rightarrow> string \<Rightarrow> assignment \<Rightarrow> 's manager \<Rightarrow> (tm_error + int) \<times> 's manager" where
  "BeginDispatchAttemptChecked ops clk taskID subtaskID assignment m =
     (case gm_get (m_tasks m) taskID of
        None \<Rightarrow> (Inl (TaskNotFound taskID), m)
      | Some t \<Rightarrow>
          (case find_result t subtaskID of
             None \<Rightarrow> (Inl (SubtaskNotFound subtaskID taskID), m)
           | Some s \<Rightarrow>
               if sr_Status s \<noteq> StatusRunning then (Inl (SubtaskNotRunning subtaskID taskID), m)
               else
                 (let number = length (sr_Attempts s) + 1;
                      a = new_attempt taskID subtaskID assignment number (clk 0);
                      t1 = set_result subtaskID (\<lambda>s. s\<lparr>sr_Attempts := sr_Attempts s @ [a]\<rparr>) t
                  in case update_persist ops taskID (signalChanged (t1\<lparr>t_UpdatedAt := clk 0\<rparr>)) m of
                       (Some e, m') \<Rightarrow> (Inl e, m')
                     | (None, m') \<Rightarrow> (Inr (int number), m'))))"

text \<open>\<^verbatim>\<open>duration.Milliseconds()\<close> truncates towards zero.\<close>

definition milliseconds :: "duration \<Rightarrow> int" where
  "milliseconds d = (if d < 0 then - ((- d) div 1000000) else d div 1000000)"

definition finish_attempt ::
  "attempt_status \<Rightarrow> string \<Rightarrow> int \<Rightarrow> string option \<Rightarrow> time \<Rightarrow> duration \<Rightarrow> dispatch_attempt \<Rightarrow> dispatch_attempt" where
  "finish_attempt status failureClass httpStatus attemptErr now d a =
     a\<lparr>da_Status := status, da_FailureClass := failureClass, da_HTTPStatus := httpStatus,
       da_Error := (case attemptErr of None \<Rightarrow> da_Error a | Some e \<Rightarrow> e),
       da_FinishedAt := Some now, da_DurationMs := milliseconds d\<rparr>"

definition set_attempt :: "int \<Rightarrow> (dispatch_attempt \<Rightarrow> dispatch_attempt) \<Rightarrow> subtask_result \<Rightarrow> subtask_result" where
  "set_attempt number f s = s\<lparr>sr_Attempts := update_first (\<lambda>a. da_Number a = number) f (sr_Attempts s)\<rparr>"

abbreviation find_attempt :: "subtask_result \<Rightarrow> int \<Rightarrow> dispatch_attempt option" where
  "find_attempt s number \<equiv> find (\<lambda>a. da_Number a = number) (sr_Attempts s)"

definition FinishDispatchAttemptChecked ::
  "'s store_ops \<Rightarrow> clock \<Rightarrow> string \<Rightarrow> string \<Rightarrow> int \<Rightarrow> attempt_status \<Rightarrow> string \<Rightarrow> int \<Rightarrow> string option \<Rightarrow> duration \<Rightarrow>
     's manager \<Rightarrow> tm_error option \<times> 's manager" where
  "FinishDispatchAttemptChecked ops clk taskID subtaskID number status failureClass httpStatus attemptErr d m =
     (if status \<noteq> DispatchAttemptSucceeded \<and> status \<noteq> DispatchAttemptFailed then (Some InvalidAttemptStatus, m)
      else case gm_get (m_tasks m) taskID of
             None \<Rightarrow> (Some (TaskNotFound taskID), m)
           | Some t \<Rightarrow>
               (case find_result t subtaskID of
                  None \<Rightarrow> (Some (SubtaskNotFound subtaskID taskID), m)
                | Some s \<Rightarrow>
                    (case find_attempt s number of
                       None \<Rightarrow> (Some (AttemptNotFound number subtaskID), m)
                     | Some a \<Rightarrow>
                         if da_Status a \<noteq> DispatchAttemptRunning then (Some (AttemptFinished number subtaskID), m)
                         else update_persist ops taskID
                                (signalChanged ((set_result subtaskID
                                   (set_attempt number (finish_attempt status failureClass httpStatus attemptErr (clk 0) d)) t)
                                 \<lparr>t_UpdatedAt := clk 0\<rparr>)) m)))"

text \<open>
  The first part of \<^verbatim>\<open>CompleteDispatchAttemptWithAssignmentChecked\<close>. \<open>Inr None\<close> means that
  the attempt finished but did not win: its subtask was settled or its task cancelled.
  The winner's completion continues with \<^verbatim>\<open>finishSubtaskCompletion\<close>.
\<close>

definition CompleteDispatchAttempt_begin ::
  "'s store_ops \<Rightarrow> clock \<Rightarrow> string \<Rightarrow> string \<Rightarrow> int \<Rightarrow> assignment option \<Rightarrow> string \<Rightarrow> int \<Rightarrow> duration \<Rightarrow> string \<Rightarrow>
     's manager \<Rightarrow> (tm_error + completion option) \<times> 's manager" where
  "CompleteDispatchAttempt_begin ops clk taskID subtaskID number assignment failureClass httpStatus d output m =
     (case gm_get (m_tasks m) taskID of
        None \<Rightarrow> (Inl (TaskNotFound taskID), m)
      | Some t \<Rightarrow>
          (case find_result t subtaskID of
             None \<Rightarrow> (Inl (SubtaskNotFound subtaskID taskID), m)
           | Some s \<Rightarrow>
               (case find_attempt s number of
                  None \<Rightarrow> (Inl (AttemptNotFound number subtaskID), m)
                | Some a \<Rightarrow>
                    if da_Status a \<noteq> DispatchAttemptRunning then (Inl (AttemptFinished number subtaskID), m)
                    else
                      (let t1 = (set_result subtaskID
                             (set_attempt number (finish_attempt DispatchAttemptSucceeded failureClass httpStatus None (clk 0) d)) t)
                             \<lparr>t_UpdatedAt := clk 0\<rparr>
                       in if t_Status t = StatusCancelled \<or> sr_Status s \<noteq> StatusRunning then
                            (case update_persist ops taskID (signalChanged t1) m of
                               (Some e, m') \<Rightarrow> (Inl e, m')
                             | (None, m') \<Rightarrow> (Inr None, m'))
                          else
                            (let t2 = (case assignment of
                                         None \<Rightarrow> t1
                                       | Some asg \<Rightarrow> set_result subtaskID (\<lambda>s. s\<lparr>sr_Assignment := asg\<rparr>) t1)
                             in case completeSubtaskLocked ops (\<lambda>n. clk (Suc n)) taskID t2 subtaskID output None m of
                                  (Inl e, m') \<Rightarrow> (Inl e, put_task taskID t2 m')
                                | (Inr c, m') \<Rightarrow> (Inr (Some c), m'))))))"

subsection \<open>Identifiers\<close>

text \<open>\<^verbatim>\<open>taskSequence\<close> of \<^verbatim>\<open>recovery.go\<close> reads the number back out of an identifier.\<close>

definition taskSequence :: "string \<Rightarrow> nat" where
  "taskSequence i =
     (if has_prefix i ''task-'' then
        (case parse_int 36 32 (drop 5 i) of None \<Rightarrow> 0 | Some n \<Rightarrow> nat n)
      else 0)"

lemma taskSequence_genID: "n < 2 ^ 31 \<Longrightarrow> taskSequence (genID n) = n"
proof -
  assume n: "n < 2 ^ 31"
  have "format_int 36 (int n) = format_base 36 n" by (simp add: format_int_def)
  moreover have "parse_int 36 32 (format_int 36 (int n)) = Some (int n)"
    by (rule parse_format_int) (use n in simp_all)
  ultimately show ?thesis by (simp add: taskSequence_def genID_def has_prefix_def)
qed

lemma genID_nonempty [simp]: "genID n \<noteq> []"
  by (simp add: genID_def)

subsection \<open>Writes\<close>

abbreviation next_seq :: "'s manager \<Rightarrow> uint64" where
  "next_seq m \<equiv> gm_get0 (m_syncSeq m) (m_syncOrigin m) + 1"

abbreviation restamp :: "'s manager \<Rightarrow> string \<Rightarrow> bool \<Rightarrow> task \<Rightarrow> task" where
  "restamp m l r t \<equiv>
     t\<lparr>t_Origin := m_syncOrigin m, t_Sequence := next_seq m, t_LastCheckpoint := l, t_Resumable := r\<rparr>"

text \<open>
  Every update of a task ends in one of two calls that persist it. On the manager both have
  the same effect: the task is written under its identifier with the next sequence number of
  the manager's origin, and the cache of recent tasks is dropped.
\<close>

definition wrote :: "'s manager \<Rightarrow> string \<Rightarrow> task \<Rightarrow> 's manager \<Rightarrow> bool" where
  "wrote m i t m' \<longleftrightarrow> (\<exists>l r. m_tasks m' = gm_put i (restamp m l r t) (m_tasks m)) \<and>
     m_syncSeq m' = gm_put (m_syncOrigin m) (next_seq m) (m_syncSeq m) \<and> m_seq m' = m_seq m \<and>
     m_syncOrigin m' = m_syncOrigin m \<and> m_finalizer m' = m_finalizer m \<and> \<not> m_recentTasksValid m'"

lemma stamp_eq: "stamp t m = (t\<lparr>t_Origin := m_syncOrigin m, t_Sequence := next_seq m\<rparr>,
    invalidateRecentTasksLocked (m\<lparr>m_syncSeq := gm_put (m_syncOrigin m) (next_seq m) (m_syncSeq m)\<rparr>))"
  by (simp add: stamp_def nextSyncSequenceLocked_def Let_def)

lemma update_persist_wrote:
  assumes "update_persist ops i t m = (e, m')"
  shows "wrote m i t m'"
proof -
  have "m_tasks m' = gm_put i (restamp m (t_LastCheckpoint t) (t_Resumable t) t) (m_tasks m)"
    using assms by (auto simp: update_persist_def persistLocked_def stamp_eq put_task_def
      invalidateRecentTasksLocked_def split: option.splits prod.splits)
  moreover have "m_syncSeq m' = gm_put (m_syncOrigin m) (next_seq m) (m_syncSeq m) \<and> m_seq m' = m_seq m \<and>
     m_syncOrigin m' = m_syncOrigin m \<and> m_finalizer m' = m_finalizer m \<and> \<not> m_recentTasksValid m'"
    using assms by (auto simp: update_persist_def persistLocked_def stamp_eq put_task_def
      invalidateRecentTasksLocked_def split: option.splits prod.splits)
  ultimately show ?thesis unfolding wrote_def by blast
qed

lemma save_locked_cases:
  "saveTaskAndCheckpointLocked ops now t m = (e, t', m') \<Longrightarrow>
     (\<exists>l r. t' = t\<lparr>t_LastCheckpoint := l, t_Resumable := r\<rparr>) \<and> (\<exists>s. m' = m\<lparr>m_store := s\<rparr>)"
proof (cases "m_store m")
  case None
  moreover assume "saveTaskAndCheckpointLocked ops now t m = (e, t', m')"
  ultimately have "t' = t\<lparr>t_LastCheckpoint := t_LastCheckpoint t, t_Resumable := t_Resumable t\<rparr>"
    "m' = m\<lparr>m_store := m_store m\<rparr>" by (simp_all add: saveTaskAndCheckpointLocked_def)
  then show ?thesis by blast
next
  case (Some s)
  obtain cp snap where c: "checkpointForTask now (cloneTask t) = (cp, snap)" by fastforce
  obtain e' s' where s': "saveTaskAndCheckpoint ops snap cp s = (e', s')" by fastforce
  assume "saveTaskAndCheckpointLocked ops now t m = (e, t', m')"
  with Some c s' have m': "m' = m\<lparr>m_store := Some s'\<rparr>" and
    "t' = (case e' of None \<Rightarrow> t\<lparr>t_LastCheckpoint := t_LastCheckpoint snap, t_Resumable := t_Resumable snap\<rparr> | Some _ \<Rightarrow> t)"
    by (auto simp: saveTaskAndCheckpointLocked_def split: option.splits)
  moreover have "t = t\<lparr>t_LastCheckpoint := t_LastCheckpoint t, t_Resumable := t_Resumable t\<rparr>" by simp
  ultimately show ?thesis by (metis option.exhaust option.simps(4,5))
qed

lemma update_checkpoint_wrote:
  assumes "update_checkpoint ops now i t m = (e, t', m')"
  shows "wrote m i t m'" "\<exists>l r. t' = restamp m l r t \<and> m_tasks m' = gm_put i t' (m_tasks m)"
proof -
  let ?t = "t\<lparr>t_Origin := m_syncOrigin m, t_Sequence := next_seq m\<rparr>"
  let ?m = "invalidateRecentTasksLocked (m\<lparr>m_syncSeq := gm_put (m_syncOrigin m) (next_seq m) (m_syncSeq m)\<rparr>)"
  obtain e1 t1 m1 where r: "saveTaskAndCheckpointLocked ops now ?t ?m = (e1, t1, m1)" by (cases "saveTaskAndCheckpointLocked ops now ?t ?m") auto
  with assms have a: "t' = t1" "m' = put_task i t1 m1"
    by (auto simp: update_checkpoint_def persistTaskAndCheckpointLocked_def stamp_eq)
  from save_locked_cases [OF r] obtain l u s where t1: "t1 = restamp m l u t" and m1: "m1 = ?m\<lparr>m_store := s\<rparr>"
    by auto
  show "\<exists>l r. t' = restamp m l r t \<and> m_tasks m' = gm_put i t' (m_tasks m)"
    using a t1 by (auto simp: m1 put_task_def invalidateRecentTasksLocked_def)
  then show "wrote m i t m'"
    unfolding wrote_def using a by (auto simp: m1 put_task_def invalidateRecentTasksLocked_def)
qed

subsection \<open>The lifecycle of one task\<close>

text \<open>
  The abstract state machine that the operations implement: one rule per way in which an
  operation changes a task, with the guard under which it does, before the bookkeeping of
  persistence.
\<close>

abbreviation touch :: "time \<Rightarrow> task \<Rightarrow> task" where
  "touch now t \<equiv> signalChanged (t\<lparr>t_UpdatedAt := now\<rparr>)"

inductive lifecycle :: "task \<Rightarrow> task \<Rightarrow> bool" where
  lc_cancel: "\<not> terminal (t_Status t) \<Longrightarrow> lifecycle t (cancel_task now t)"
| lc_start: "find_result t sid = Some s \<Longrightarrow> sr_open s \<Longrightarrow>
    lifecycle t (touch now (set_result sid (\<lambda>s. s\<lparr>sr_Status := StatusRunning\<rparr>) t))"
| lc_reassign: "find_result t sid = Some s \<Longrightarrow> sr_open s \<Longrightarrow> st_ID (as_Subtask a) = sid \<Longrightarrow>
    lifecycle t (touch now (set_result sid (\<lambda>s. s\<lparr>sr_Assignment := a\<rparr>) t))"
| lc_settle: "find_result t sid = Some s \<Longrightarrow> sr_open s \<Longrightarrow>
    lifecycle t (touch now (roll_up fin (set_result sid (settle_result output err) t)))"
| lc_begin: "find_result t sid = Some s \<Longrightarrow> sr_Status s = StatusRunning \<Longrightarrow> n = length (sr_Attempts s) + 1 \<Longrightarrow>
    lifecycle t (touch now (set_result sid (\<lambda>s. s\<lparr>sr_Attempts := sr_Attempts s @ [new_attempt tid sid a n now]\<rparr>) t))"
| lc_finish: "find_result t sid = Some s \<Longrightarrow> find_attempt s n = Some a \<Longrightarrow> da_Status a = DispatchAttemptRunning \<Longrightarrow>
    lifecycle t (touch now (set_result sid (set_attempt n (finish_attempt st fc hs er now d)) t))"
| lc_win: "find_result t sid = Some s \<Longrightarrow> sr_Status s = StatusRunning \<Longrightarrow>
    find_attempt s n = Some a \<Longrightarrow> da_Status a = DispatchAttemptRunning \<Longrightarrow>
    (case asg of None \<Rightarrow> True | Some b \<Rightarrow> st_ID (as_Subtask b) = sid) \<Longrightarrow>
    lifecycle t (touch now (roll_up fin (set_result sid
      (\<lambda>s. settle_result output None
         ((case asg of None \<Rightarrow> id | Some b \<Rightarrow> (\<lambda>s. s\<lparr>sr_Assignment := b\<rparr>))
           (set_attempt n (finish_attempt DispatchAttemptSucceeded fc hs None now0 d) s))) (t\<lparr>t_UpdatedAt := now0\<rparr>))))"
| lc_approve: "t_Status t = StatusAwaitingApproval \<Longrightarrow>
    lifecycle t (touch now (t\<lparr>t_Status := StatusCompleted, t_Resumable := False\<rparr>))"
| lc_release: "t_Status t = StatusAwaitingApproval \<Longrightarrow> lifecycle t (touch now (t\<lparr>t_Status := StatusSynthesis\<rparr>))"
| lc_synthesis: "t_Status t = StatusSynthesis \<Longrightarrow> lifecycle t (touch now (synthesize result t))"
| lc_resume: "t_Status t = StatusFailed \<or> t_Status t = StatusCancelled \<Longrightarrow> lifecycle t (resume_task now t)"

text \<open>What the status of a task says about the statuses of its subtasks.\<close>

fun allowed :: "status \<Rightarrow> status \<Rightarrow> bool" where
  "allowed StatusRunning s = (s = StatusPending \<or> s = StatusRunning \<or> s = StatusCompleted \<or> s = StatusFailed)"
| "allowed StatusSynthesis s = (s = StatusCompleted)"
| "allowed StatusAwaitingApproval s = (s = StatusCompleted)"
| "allowed StatusCompleted s = (s = StatusCompleted)"
| "allowed StatusFailed s = (s = StatusCompleted \<or> s = StatusFailed)"
| "allowed StatusCancelled s = (s = StatusCompleted \<or> s = StatusFailed \<or> s = StatusCancelled)"
| "allowed StatusPending s = False"
| "allowed (StatusOther _) s = False"

definition attempts_ok :: "dispatch_attempt list \<Rightarrow> bool" where
  "attempts_ok as \<longleftrightarrow> map da_Number as = map int [1..<Suc (length as)]"

definition task_inv :: "task \<Rightarrow> bool" where
  "task_inv t \<longleftrightarrow> t_Status t \<noteq> StatusPending \<and> (\<forall>x. t_Status t \<noteq> StatusOther x) \<and>
     list_all (\<lambda>s. allowed (t_Status t) (sr_Status s) \<and> attempts_ok (sr_Attempts s)) (t_Subtasks t)"

text \<open>
  What never changes again: a completed subtask keeps its output and its assignment, a
  finished attempt is never rewritten and attempts are only ever added, and a completed task
  keeps its status and its result.
\<close>

definition attempts_keep :: "dispatch_attempt list \<Rightarrow> dispatch_attempt list \<Rightarrow> bool" where
  "attempts_keep as bs \<longleftrightarrow> length as \<le> length bs \<and>
     (\<forall>k < length as. da_Status (as ! k) \<noteq> DispatchAttemptRunning \<longrightarrow> bs ! k = as ! k)"

definition result_keep :: "subtask_result \<Rightarrow> subtask_result \<Rightarrow> bool" where
  "result_keep s s' \<longleftrightarrow> sr_ID s' = sr_ID s \<and> attempts_keep (sr_Attempts s) (sr_Attempts s') \<and>
     (sr_Status s = StatusCompleted \<longrightarrow>
        sr_Status s' = StatusCompleted \<and> sr_Output s' = sr_Output s \<and> sr_Assignment s' = sr_Assignment s)"

definition evolves :: "task \<Rightarrow> task \<Rightarrow> bool" where
  "evolves t t' \<longleftrightarrow> t_ID t' = t_ID t \<and> list_all2 result_keep (t_Subtasks t) (t_Subtasks t') \<and>
     (t_Status t = StatusCompleted \<longrightarrow> t_Status t' = StatusCompleted \<and> t_Result t' = t_Result t)"

lemma attempts_keep_refl [simp]: "attempts_keep as as"
  by (simp add: attempts_keep_def)

lemma attempts_keep_trans: "attempts_keep as bs \<Longrightarrow> attempts_keep bs cs \<Longrightarrow> attempts_keep as cs"
  by (auto simp: attempts_keep_def)

lemma result_keep_refl [simp]: "result_keep s s"
  by (simp add: result_keep_def)

lemma result_keep_trans: "result_keep s s' \<Longrightarrow> result_keep s' s'' \<Longrightarrow> result_keep s s''"
  by (auto simp: result_keep_def intro: attempts_keep_trans)

lemma evolves_refl [simp]: "evolves t t"
  by (simp add: evolves_def list.rel_refl)

lemma evolves_trans: "evolves t t' \<Longrightarrow> evolves t' t'' \<Longrightarrow> evolves t t''"
  unfolding evolves_def using list_all2_trans [of result_keep result_keep result_keep] result_keep_trans by metis

subsection \<open>Invariants of the lifecycle\<close>

lemma list_all2_update_first:
  assumes "\<And>x. R x x" "\<And>x. find P xs = Some x \<Longrightarrow> R x (f x)"
  shows "list_all2 R xs (update_first P f xs)"
  using assms(2) by (induction xs) (auto intro: list.rel_refl assms(1) split: if_splits)

lemma list_all2_map_self: "(\<And>x. R x (f x)) \<Longrightarrow> list_all2 R xs (map f xs)"
  by (induction xs) auto

lemma list_all_update_found:
  "list_all Q xs \<Longrightarrow> (\<And>x. find P xs = Some x \<Longrightarrow> Q (f x)) \<Longrightarrow> list_all Q (update_first P f xs)"
  by (induction xs) (auto split: if_splits)

lemma attempts_ok_snoc: "attempts_ok as \<Longrightarrow> da_Number a = int (length as) + 1 \<Longrightarrow> attempts_ok (as @ [a])"
  by (simp add: attempts_ok_def)

lemma attempts_ok_update: "attempts_ok as \<Longrightarrow> (\<And>a. da_Number (f a) = da_Number a) \<Longrightarrow> attempts_ok (update_first P f as)"
  by (simp add: attempts_ok_def map_update_first)

lemma attempts_keep_snoc [simp]: "attempts_keep as (as @ bs)"
  by (simp add: attempts_keep_def nth_append)

lemma update_first_nth:
  "find P xs = Some x \<Longrightarrow> k < length xs \<Longrightarrow> xs ! k \<noteq> x \<Longrightarrow> update_first P f xs ! k = xs ! k"
  by (induction xs arbitrary: k) (auto simp: nth_Cons split: if_splits nat.split)

lemma attempts_keep_update:
  assumes "find (\<lambda>a. da_Number a = n) as = Some a" "da_Status a = DispatchAttemptRunning"
  shows "attempts_keep as (update_first (\<lambda>a. da_Number a = n) f as)"
  using update_first_nth [OF assms(1)] assms(2) by (auto simp: attempts_keep_def)

lemma finish_attempt_Number [simp]: "da_Number (finish_attempt st fc hs er now d a) = da_Number a"
  by (simp add: finish_attempt_def)

lemma set_attempt_fields [simp]:
  "sr_Assignment (set_attempt n f s) = sr_Assignment s" "sr_Status (set_attempt n f s) = sr_Status s"
  "sr_Output (set_attempt n f s) = sr_Output s"
  "sr_Attempts (set_attempt n f s) = update_first (\<lambda>a. da_Number a = n) f (sr_Attempts s)"
  by (simp_all add: set_attempt_def)

lemma settle_result_fields [simp]:
  "sr_Assignment (settle_result out err s) = sr_Assignment s" "sr_Attempts (settle_result out err s) = sr_Attempts s"
  "sr_Status (settle_result out err s) = (if err = None then StatusCompleted else StatusFailed)"
  by (simp_all add: settle_result_def split: option.split)

lemma set_result_fields [simp]:
  "t_ID (set_result sid f t) = t_ID t" "t_Status (set_result sid f t) = t_Status t"
  "t_Result (set_result sid f t) = t_Result t"
  "t_Subtasks (set_result sid f t) = update_first (\<lambda>s. sr_ID s = sid) f (t_Subtasks t)"
  by (simp_all add: set_result_def)

lemma signalChanged_fields [simp]:
  "t_ID (signalChanged t) = t_ID t" "t_Status (signalChanged t) = t_Status t"
  "t_Result (signalChanged t) = t_Result t" "t_Subtasks (signalChanged t) = t_Subtasks t"
  by (simp_all add: signalChanged_def)

lemma roll_up_fields [simp]:
  "t_ID (roll_up fin t) = t_ID t" "t_Subtasks (roll_up fin t) = t_Subtasks t"
  by (simp_all add: roll_up_def Let_def)

lemma synthesize_fields [simp]:
  "t_ID (synthesize r t) = t_ID t" "t_Subtasks (synthesize r t) = t_Subtasks t"
  by (simp_all add: synthesize_def split: sum.split)

lemmas find_result_mem = find_Some_mem [of "\<lambda>s. sr_ID s = sid" for sid]

text \<open>An open subtask shows that its task is running.\<close>

lemma open_running:
  assumes "task_inv t" "find_result t sid = Some s" "sr_open s"
  shows "t_Status t = StatusRunning"
proof -
  from find_Some_mem [OF assms(2)] assms(1) have "allowed (t_Status t) (sr_Status s)"
    by (auto simp: task_inv_def list_all_iff)
  with assms(3) show ?thesis by (cases "t_Status t") auto
qed

lemma roll_up_inv:
  assumes r: "t_Status t = StatusRunning"
    and a: "list_all (\<lambda>s. allowed StatusRunning (sr_Status s) \<and> attempts_ok (sr_Attempts s)) (t_Subtasks t)"
  shows "task_inv (roll_up fin t)"
proof (cases "list_ex sr_open (t_Subtasks t)")
  case True
  with assms show ?thesis by (simp add: task_inv_def roll_up_def)
next
  case False
  then have "\<And>s. s \<in> set (t_Subtasks t) \<Longrightarrow> sr_Status s = StatusCompleted \<or> sr_Status s = StatusFailed"
    using a by (auto simp: list_all_iff list_ex_iff)
  with False a show ?thesis
    by (auto simp: task_inv_def roll_up_def Let_def list_all_iff list_ex_iff)
qed

lemma task_inv_touch [simp]: "task_inv (signalChanged t) = task_inv t" "task_inv (t\<lparr>t_UpdatedAt := now\<rparr>) = task_inv t"
  by (simp_all add: task_inv_def)

lemma set_result_inv:
  assumes inv: "task_inv t" and f: "\<And>s. find_result t sid = Some s \<Longrightarrow>
      allowed (t_Status t) (sr_Status (f s)) \<and> attempts_ok (sr_Attempts (f s))"
  shows "task_inv (set_result sid f t)"
  using inv unfolding task_inv_def by (simp add: list_all_update_found f)

lemma found_ok: "task_inv t \<Longrightarrow> find_result t sid = Some s \<Longrightarrow> allowed (t_Status t) (sr_Status s) \<and> attempts_ok (sr_Attempts s)"
  by (auto simp: task_inv_def list_all_iff dest: find_Some_mem)

lemma settle_inv:
  assumes inv: "task_inv t" and s: "find_result t sid = Some s" "sr_open s"
    and f: "allowed StatusRunning (sr_Status (f s))" "attempts_ok (sr_Attempts (f s))"
  shows "task_inv (roll_up fin (set_result sid f t))"
proof (rule roll_up_inv)
  have r: "t_Status t = StatusRunning" by (rule open_running [OF inv s])
  then show "t_Status (set_result sid f t) = StatusRunning" by simp
  have "task_inv (set_result sid f t)" by (rule set_result_inv [OF inv]) (use s f r in simp)
  then show "list_all (\<lambda>s. allowed StatusRunning (sr_Status s) \<and> attempts_ok (sr_Attempts s)) (t_Subtasks (set_result sid f t))"
    using r by (simp add: task_inv_def)
qed

lemma lifecycle_inv: "lifecycle t t' \<Longrightarrow> task_inv t \<Longrightarrow> task_inv t'"
proof (induction rule: lifecycle.induct)
  case (lc_cancel t now)
  have "allowed StatusCancelled (sr_Status (cancel_result s)) \<and> attempts_ok (sr_Attempts (cancel_result s))"
    if "allowed (t_Status t) (sr_Status s)" "attempts_ok (sr_Attempts s)" for s
    using that lc_cancel(1) by (cases "t_Status t") (auto simp: cancel_result_def terminal_def)
  with lc_cancel(2) show ?case by (auto simp: task_inv_def cancel_task_def list_all_iff)
next
  case (lc_start t sid s now)
  have "task_inv (set_result sid (\<lambda>s. s\<lparr>sr_Status := StatusRunning\<rparr>) t)"
    using open_running [OF lc_start(3,1,2)] found_ok [OF lc_start(3,1)] lc_start(1)
    by (intro set_result_inv [OF lc_start(3)]) simp
  then show ?case by simp
next
  case (lc_reassign t sid s a now)
  have "task_inv (set_result sid (\<lambda>s. s\<lparr>sr_Assignment := a\<rparr>) t)"
    using found_ok [OF lc_reassign(4,1)] lc_reassign(1)
    by (intro set_result_inv [OF lc_reassign(4)]) simp
  then show ?case by simp
next
  case (lc_settle t sid s now fin out err)
  have "task_inv (roll_up fin (set_result sid (settle_result out err) t))"
    using found_ok [OF lc_settle(3,1)] by (intro settle_inv [OF lc_settle(3,1,2)]) auto
  then show ?case by simp
next
  case (lc_begin t sid s n now tid a)
  have "task_inv (set_result sid (\<lambda>s. s\<lparr>sr_Attempts := sr_Attempts s @ [new_attempt tid sid a n now]\<rparr>) t)"
    using found_ok [OF lc_begin(4,1)] lc_begin(1,3)
    by (intro set_result_inv [OF lc_begin(4)]) (simp add: attempts_ok_snoc new_attempt_def)
  then show ?case by simp
next
  case (lc_finish t sid s n a now st fc hs er d)
  have "task_inv (set_result sid (set_attempt n (finish_attempt st fc hs er now d)) t)"
    using found_ok [OF lc_finish(4,1)] lc_finish(1)
    by (intro set_result_inv [OF lc_finish(4)]) (simp add: attempts_ok_update)
  then show ?case by simp
next
  case (lc_win t sid s n a asg now fin out fc hs now0 d)
  let ?f = "\<lambda>s. settle_result out None
    ((case asg of None \<Rightarrow> id | Some b \<Rightarrow> (\<lambda>s. s\<lparr>sr_Assignment := b\<rparr>))
      (set_attempt n (finish_attempt DispatchAttemptSucceeded fc hs None now0 d) s))"
  have inv: "task_inv (t\<lparr>t_UpdatedAt := now0\<rparr>)" and s: "find_result (t\<lparr>t_UpdatedAt := now0\<rparr>) sid = Some s"
    using lc_win(1,6) by simp_all
  have "task_inv (roll_up fin (set_result sid ?f (t\<lparr>t_UpdatedAt := now0\<rparr>)))"
    using found_ok [OF inv s] lc_win(2)
    by (intro settle_inv [OF inv s]) (auto simp: attempts_ok_update split: option.split)
  then show ?case by simp
next
  case (lc_approve t now)
  then show ?case by (auto simp: task_inv_def)
next
  case (lc_release t now)
  then show ?case by (auto simp: task_inv_def)
next
  case (lc_synthesis t now result)
  then show ?case by (auto simp: task_inv_def synthesize_def list_all_iff split: sum.split)
next
  case (lc_resume t now)
  then show ?case by (auto simp: task_inv_def resume_task_def reset_result_def list_all_iff)
qed

lemma set_result_keeps:
  assumes "\<And>s. find_result t sid = Some s \<Longrightarrow> result_keep s (f s)"
  shows "list_all2 result_keep (t_Subtasks t) (update_first (\<lambda>s. sr_ID s = sid) f (t_Subtasks t))"
  using assms by (intro list_all2_update_first) simp_all

lemma not_completed:
  assumes "task_inv t" "find_result t sid = Some s" "sr_open s"
  shows "t_Status t \<noteq> StatusCompleted"
  using open_running [OF assms] by simp

lemma lifecycle_evolves: "lifecycle t t' \<Longrightarrow> task_inv t \<Longrightarrow> evolves t t'"
proof (induction rule: lifecycle.induct)
  case (lc_cancel t now)
  have "result_keep s (cancel_result s)" for s by (auto simp: result_keep_def cancel_result_def)
  with lc_cancel(1) show ?case
    by (auto simp: evolves_def cancel_task_def terminal_def intro: list_all2_map_self)
next
  case (lc_start t sid s now)
  have "list_all2 result_keep (t_Subtasks t) (update_first (\<lambda>s. sr_ID s = sid) (\<lambda>s. s\<lparr>sr_Status := StatusRunning\<rparr>) (t_Subtasks t))"
    by (rule set_result_keeps) (use lc_start in \<open>auto simp: result_keep_def\<close>)
  with not_completed [OF lc_start(3,1,2)] show ?case by (simp add: evolves_def)
next
  case (lc_reassign t sid s a now)
  have "list_all2 result_keep (t_Subtasks t) (update_first (\<lambda>s. sr_ID s = sid) (\<lambda>s. s\<lparr>sr_Assignment := a\<rparr>) (t_Subtasks t))"
    by (rule set_result_keeps) (use lc_reassign in \<open>auto simp: result_keep_def dest: find_Some_mem\<close>)
  with not_completed [OF lc_reassign(4,1,2)] show ?case by (simp add: evolves_def)
next
  case (lc_settle t sid s now fin out err)
  have "list_all2 result_keep (t_Subtasks t) (update_first (\<lambda>s. sr_ID s = sid) (settle_result out err) (t_Subtasks t))"
    by (rule set_result_keeps) (use lc_settle in \<open>auto simp: result_keep_def\<close>)
  with not_completed [OF lc_settle(3,1,2)] show ?case by (simp add: evolves_def)
next
  case (lc_begin t sid s n now tid a)
  have "list_all2 result_keep (t_Subtasks t) (update_first (\<lambda>s. sr_ID s = sid)
      (\<lambda>s. s\<lparr>sr_Attempts := sr_Attempts s @ [new_attempt tid sid a n now]\<rparr>) (t_Subtasks t))"
    by (rule set_result_keeps) (use lc_begin in \<open>auto simp: result_keep_def\<close>)
  then show ?case by (simp add: evolves_def)
next
  case (lc_finish t sid s n a now st fc hs er d)
  have "list_all2 result_keep (t_Subtasks t) (update_first (\<lambda>s. sr_ID s = sid)
      (set_attempt n (finish_attempt st fc hs er now d)) (t_Subtasks t))"
    by (rule set_result_keeps) (use lc_finish in \<open>auto simp: result_keep_def attempts_keep_update\<close>)
  then show ?case by (simp add: evolves_def)
next
  case (lc_win t sid s n a asg now fin out fc hs now0 d)
  let ?f = "\<lambda>s. settle_result out None
    ((case asg of None \<Rightarrow> id | Some b \<Rightarrow> (\<lambda>s. s\<lparr>sr_Assignment := b\<rparr>))
      (set_attempt n (finish_attempt DispatchAttemptSucceeded fc hs None now0 d) s))"
  have "result_keep s (?f s)"
    using lc_win(1-5) by (cases asg) (auto simp: result_keep_def attempts_keep_update dest: find_Some_mem)
  then have "list_all2 result_keep (t_Subtasks t) (update_first (\<lambda>s. sr_ID s = sid) ?f (t_Subtasks t))"
    using lc_win(1) by (intro set_result_keeps) simp
  with not_completed [OF lc_win(6,1)] lc_win(2) show ?case by (simp add: evolves_def)
next
  case (lc_approve t now)
  then show ?case by (simp add: evolves_def list.rel_refl)
next
  case (lc_release t now)
  then show ?case by (simp add: evolves_def list.rel_refl)
next
  case (lc_synthesis t now result)
  then show ?case by (simp add: evolves_def list.rel_refl)
next
  case (lc_resume t now)
  have "result_keep s (reset_result s)" for s by (auto simp: result_keep_def reset_result_def)
  with lc_resume show ?case by (auto simp: evolves_def resume_task_def intro: list_all2_map_self)
qed

subsection \<open>The operations implement the lifecycle\<close>

text \<open>
  An operation leaves the manager's tasks alone, or it takes one task one lifecycle step
  further and writes it.
\<close>

definition stepped :: "'s store_ops \<Rightarrow> 's manager \<Rightarrow> 's manager \<Rightarrow> bool" where
  "stepped ops m m' \<longleftrightarrow> m' = m \<or>
     (\<exists>i t t'. gm_get (m_tasks m) i = Some t \<and> lifecycle t t' \<and>
        (m' = snd (update_persist ops i t' m) \<or> (\<exists>now. m' = snd (snd (update_checkpoint ops now i t' m)))))"

lemma stepped_refl [simp]: "stepped ops m m"
  by (simp add: stepped_def)

lemma persist_stepped:
  "gm_get (m_tasks m) i = Some t \<Longrightarrow> lifecycle t t' \<Longrightarrow> stepped ops m (snd (update_persist ops i t' m))"
  unfolding stepped_def by blast

lemma checkpoint_stepped:
  "gm_get (m_tasks m) i = Some t \<Longrightarrow> lifecycle t t' \<Longrightarrow> stepped ops m (snd (snd (update_checkpoint ops now i t' m)))"
  unfolding stepped_def by blast

lemma stepped_wrote:
  assumes "stepped ops m m'" "m' \<noteq> m"
  obtains i t t' where "gm_get (m_tasks m) i = Some t" "lifecycle t t'" "wrote m i t' m'"
proof -
  have p: "wrote m i t (snd (update_persist ops i t m))" for i t
    by (rule update_persist_wrote [of ops i t m "fst (update_persist ops i t m)"]) simp
  have c: "wrote m i t (snd (snd (update_checkpoint ops now i t m)))" for i t now
    by (rule update_checkpoint_wrote(1) [of ops now i t m "fst (update_checkpoint ops now i t m)"
      "fst (snd (update_checkpoint ops now i t m))"]) simp
  from assms that p c show thesis unfolding stepped_def by blast
qed

lemma Cancel_stepped: "stepped ops m (snd (CancelAndSnapshotChecked ops clk i m))"
  by (auto simp: CancelAndSnapshotChecked_def case_prod_beta split: option.split intro!: checkpoint_stepped lc_cancel)

lemma snd_result_case: "snd (case p of (Some e, t, m) \<Rightarrow> (Inl e, m) | (None, t, m) \<Rightarrow> (Inr (g t), m)) = snd (snd p)"
  by (cases p) (auto split: option.split)

lemma snd_result_case2: "snd (case p of (Some e, m) \<Rightarrow> (Inl e, m) | (None, m) \<Rightarrow> (Inr x, m)) = snd p"
  by (cases p) (auto split: option.split)

lemma Start_stepped: "stepped ops m (snd (StartSubtaskChecked ops clk taskID subtaskID m))"
  by (auto simp: StartSubtaskChecked_def split: option.split intro!: persist_stepped lc_start)

lemma Reassign_stepped:
  "st_ID (as_Subtask a) = subtaskID \<Longrightarrow> stepped ops m (snd (ReassignSubtaskChecked ops clk taskID subtaskID a m))"
  by (auto simp: ReassignSubtaskChecked_def split: option.split intro!: persist_stepped lc_reassign)

lemma completeSubtaskLocked_Some:
  assumes "find_result t sid = Some s"
  shows "completeSubtaskLocked ops clk i t sid out err m =
    (let t1 = set_result sid (settle_result out err) t; t2 = roll_up (m_finalizer m) t1;
         u = update_checkpoint ops (clk 1) i (touch (clk 0) t2) m
     in (Inr \<lparr>co_snapshot = (if synthesis_due (m_finalizer m) t1 then Some (cloneTask t2) else None),
              co_persistErr = fst u\<rparr>, snd (snd u)))"
  using assms by (simp add: completeSubtaskLocked_def Let_def case_prod_beta)

lemma Complete_stepped: "stepped ops m (snd (CompleteSubtask_begin ops clk taskID subtaskID out err m))"
proof (cases "gm_get (m_tasks m) taskID")
  case (Some t)
  show ?thesis
  proof (cases "t_Status t = StatusCancelled \<or> subtaskFinished t subtaskID \<or> find_result t subtaskID = None")
    case True
    with Some show ?thesis by (auto simp: CompleteSubtask_begin_def completeSubtaskLocked_def)
  next
    case False
    then obtain s where s: "find_result t subtaskID = Some s" "sr_open s" by (auto simp: subtaskFinished_def)
    from checkpoint_stepped [OF Some lc_settle [OF s]] Some False show ?thesis
      by (simp add: CompleteSubtask_begin_def completeSubtaskLocked_Some [OF s(1)] Let_def)
  qed
qed (simp add: CompleteSubtask_begin_def)

lemma finishSynthesis_stepped: "stepped ops m (snd (finishSynthesis ops clk taskID result m))"
  by (auto simp: finishSynthesis_def case_prod_beta split: option.split intro!: checkpoint_stepped lc_synthesis)

lemma Approve_stepped: "stepped ops m (snd (Approve_begin ops clk taskID m))"
  by (auto simp: Approve_begin_def case_prod_beta split: option.split intro!: checkpoint_stepped lc_approve lc_release)

lemma Resume_stepped: "stepped ops m (snd (ResumeTaskChecked ops clk taskID m))"
  by (auto simp: ResumeTaskChecked_def snd_result_case split: option.split intro!: checkpoint_stepped lc_resume)

lemma Begin_stepped: "stepped ops m (snd (BeginDispatchAttemptChecked ops clk taskID subtaskID a m))"
  by (auto simp: BeginDispatchAttemptChecked_def Let_def snd_result_case2 split: option.split intro!: persist_stepped lc_begin)

lemma Finish_stepped: "stepped ops m (snd (FinishDispatchAttemptChecked ops clk taskID subtaskID n st fc hs er d m))"
  by (auto simp: FinishDispatchAttemptChecked_def split: option.split intro!: persist_stepped lc_finish)

lemma set_result_comp:
  assumes "\<And>s. sr_ID s = sid \<Longrightarrow> sr_ID (f s) = sid"
  shows "set_result sid g (set_result sid f t) = set_result sid (\<lambda>s. g (f s)) t"
proof -
  have "update_first (\<lambda>s. sr_ID s = sid) g (update_first (\<lambda>s. sr_ID s = sid) f xs) =
      update_first (\<lambda>s. sr_ID s = sid) (\<lambda>s. g (f s)) xs" for xs
    using assms by (induction xs) auto
  then show ?thesis by (simp add: set_result_def)
qed

lemma set_result_UpdatedAt: "(set_result sid f t)\<lparr>t_UpdatedAt := now\<rparr> = set_result sid f (t\<lparr>t_UpdatedAt := now\<rparr>)"
  by (simp add: set_result_def)

lemma find_set_result:
  "(\<And>s. sr_ID s = sid \<Longrightarrow> sr_ID (f s) = sid) \<Longrightarrow> find_result (set_result sid f t) sid = map_option f (find_result t sid)"
  by (simp add: find_update_first)

lemma lost_stepped:
  assumes "gm_get (m_tasks m) taskID = Some t" "find_result t subtaskID = Some s" "find_attempt s n = Some a"
    "da_Status a = DispatchAttemptRunning"
  shows "stepped ops m (snd (update_persist ops taskID (touch now (set_result subtaskID
    (set_attempt n (finish_attempt st fc hs er now d)) t)) m))"
  by (rule persist_stepped [OF assms(1) lc_finish [OF assms(2-4)]])

lemma win_eq:
  assumes "case asg of None \<Rightarrow> True | Some b \<Rightarrow> st_ID (as_Subtask b) = sid"
  shows "(case asg of None \<Rightarrow> (set_result sid (set_attempt n f) t)\<lparr>t_UpdatedAt := now\<rparr>
      | Some b \<Rightarrow> set_result sid (\<lambda>s. s\<lparr>sr_Assignment := b\<rparr>) ((set_result sid (set_attempt n f) t)\<lparr>t_UpdatedAt := now\<rparr>)) =
    set_result sid (\<lambda>s. (case asg of None \<Rightarrow> id | Some b \<Rightarrow> (\<lambda>s. s\<lparr>sr_Assignment := b\<rparr>)) (set_attempt n f s)) (t\<lparr>t_UpdatedAt := now\<rparr>)"
  using assms by (auto simp: set_result_UpdatedAt set_result_comp split: option.split)

lemma CompleteDispatch_stepped:
  assumes asg: "case asg of None \<Rightarrow> True | Some b \<Rightarrow> st_ID (as_Subtask b) = subtaskID"
  shows "stepped ops m (snd (CompleteDispatchAttempt_begin ops clk taskID subtaskID n asg fc hs d out m))"
proof (cases "gm_get (m_tasks m) taskID")
  case (Some t)
  show ?thesis
  proof (cases "\<exists>s a. find_result t subtaskID = Some s \<and> find_attempt s n = Some a \<and> da_Status a = DispatchAttemptRunning")
    case True
    then obtain s a where s: "find_result t subtaskID = Some s" "find_attempt s n = Some a"
      "da_Status a = DispatchAttemptRunning" by blast
    let ?F = "finish_attempt DispatchAttemptSucceeded fc hs None (clk 0) d"
    let ?f = "\<lambda>s. (case asg of None \<Rightarrow> id | Some b \<Rightarrow> (\<lambda>s. s\<lparr>sr_Assignment := b\<rparr>)) (set_attempt n ?F s)"
    let ?t2 = "set_result subtaskID ?f (t\<lparr>t_UpdatedAt := clk 0\<rparr>)"
    have idf: "sr_ID s = subtaskID \<Longrightarrow> sr_ID (?f s) = subtaskID" for s using asg by (cases asg) auto
    have f2: "find_result ?t2 subtaskID = Some (?f s)" using find_set_result [of subtaskID ?f] idf s(1) by simp
    show ?thesis
    proof (cases "t_Status t = StatusCancelled \<or> sr_Status s \<noteq> StatusRunning")
      case True
      with Some s lost_stepped [OF Some s] show ?thesis
        by (simp add: CompleteDispatchAttempt_begin_def Let_def snd_result_case2)
    next
      case False
      have e: "set_result subtaskID (settle_result out None) ?t2 =
          set_result subtaskID (\<lambda>s. settle_result out None (?f s)) (t\<lparr>t_UpdatedAt := clk 0\<rparr>)"
        by (rule set_result_comp) (rule idf)
      have r: "sr_Status s = StatusRunning" using False by blast
      note w = checkpoint_stepped [OF Some lc_win [OF s(1) r s(2,3) asg]]
      show ?thesis
        using Some s False w
        by (simp add: CompleteDispatchAttempt_begin_def Let_def win_eq [OF asg] completeSubtaskLocked_Some [OF f2] e)
    qed
  next
    case False
    with Some show ?thesis by (auto simp: CompleteDispatchAttempt_begin_def split: option.split)
  qed
qed (simp add: CompleteDispatchAttempt_begin_def)

subsection \<open>Runs of the manager\<close>

text \<open>
  The operations interleave in any order. A finalizer may return at any time, with any
  result, because \<^verbatim>\<open>finishSynthesis\<close> checks the status of the task again. Callers reassign a
  subtask to a node and a model but never to another subtask.
\<close>

inductive mgr_step :: "'s store_ops \<Rightarrow> profiles \<Rightarrow> 's manager \<Rightarrow> 's manager \<Rightarrow> bool" for ops customProfiles where
  step_create: "mgr_step ops customProfiles m
    (snd (CreateWithGraphAndOptionsChecked ops customProfiles clk description graph assignments requireApproval m))"
| step_cancel: "mgr_step ops customProfiles m (snd (CancelAndSnapshotChecked ops clk i m))"
| step_start: "mgr_step ops customProfiles m (snd (StartSubtaskChecked ops clk taskID subtaskID m))"
| step_reassign: "st_ID (as_Subtask a) = subtaskID \<Longrightarrow>
    mgr_step ops customProfiles m (snd (ReassignSubtaskChecked ops clk taskID subtaskID a m))"
| step_complete: "mgr_step ops customProfiles m (snd (CompleteSubtask_begin ops clk taskID subtaskID out err m))"
| step_synthesis: "mgr_step ops customProfiles m (snd (finishSynthesis ops clk taskID result m))"
| step_approve: "mgr_step ops customProfiles m (snd (Approve_begin ops clk taskID m))"
| step_resume: "mgr_step ops customProfiles m (snd (ResumeTaskChecked ops clk taskID m))"
| step_begin: "mgr_step ops customProfiles m (snd (BeginDispatchAttemptChecked ops clk taskID subtaskID a m))"
| step_finish: "mgr_step ops customProfiles m (snd (FinishDispatchAttemptChecked ops clk taskID subtaskID n st fc hs er d m))"
| step_dispatch: "case asg of None \<Rightarrow> True | Some b \<Rightarrow> st_ID (as_Subtask b) = subtaskID \<Longrightarrow>
    mgr_step ops customProfiles m (snd (CompleteDispatchAttempt_begin ops clk taskID subtaskID n asg fc hs d out m))"
| step_finalizer: "mgr_step ops customProfiles m (SetFinalizer fin m)"

abbreviation mgr_runs :: "'s store_ops \<Rightarrow> profiles \<Rightarrow> 's manager \<Rightarrow> 's manager \<Rightarrow> bool" where
  "mgr_runs ops customProfiles \<equiv> (mgr_step ops customProfiles)\<^sup>*\<^sup>*"

lemma mgr_step_cases:
  assumes "mgr_step ops customProfiles m m'"
  obtains (create) clk description graph assignments requireApproval where
      "m' = snd (CreateWithGraphAndOptionsChecked ops customProfiles clk description graph assignments requireApproval m)"
    | (stepped) "stepped ops m m'"
    | (finalizer) fin where "m' = SetFinalizer fin m"
  using assms
  by (cases rule: mgr_step.cases)
    (blast intro: Cancel_stepped Start_stepped Reassign_stepped Complete_stepped finishSynthesis_stepped
      Approve_stepped Resume_stepped Begin_stepped Finish_stepped CompleteDispatch_stepped)+

definition mgr_inv :: "'s manager \<Rightarrow> bool" where
  "mgr_inv m \<longleftrightarrow> gm_wf (m_tasks m) \<and>
     (\<forall>i t. gm_get (m_tasks m) i = Some t \<longrightarrow> t_ID t = i \<and> i \<noteq> [] \<and> task_inv t \<and> taskSequence i \<le> m_seq m)"

lemma mgr_inv_new: "mgr_inv (newManager n store fin)"
  by (simp add: mgr_inv_def newManager_def)

lemma taskSequence_genID_le: "taskSequence (genID n) \<le> n"
proof (cases "n < 2 ^ 31")
  case False
  have "parse_int 36 32 (format_base 36 n) = None"
    using False format_base_head [of 36 n] format_base_nonempty [of 36 n] by (simp add: parse_int_def parse_format_base)
  then show ?thesis by (simp add: taskSequence_def genID_def has_prefix_def)
qed (simp add: taskSequence_genID)

lemma fresh_id:
  assumes "mgr_inv m" "Suc (m_seq m) < 2 ^ 31"
  shows "gm_get (m_tasks m) (genID (Suc (m_seq m))) = None"
  using assms taskSequence_genID [of "Suc (m_seq m)"] unfolding mgr_inv_def
  by (metis Suc_n_not_le_n not_None_eq)

text \<open>What a creation does to the tasks and to the counter.\<close>

lemma Create_effect:
  assumes "CreateWithGraphAndOptionsChecked ops customProfiles clk description graph assignments requireApproval m = (r, m')"
  shows "m_seq m' = Suc (m_seq m) \<and> m_syncOrigin m' = m_syncOrigin m \<and>
    (m_tasks m' = m_tasks m \<or> (\<exists>g l u. m_tasks m' =
       gm_put (genID (Suc (m_seq m))) (restamp m l u (new_task clk (genID (Suc (m_seq m))) description g assignments requireApproval)) (m_tasks m)))"
proof -
  let ?m = "m\<lparr>m_seq := Suc (m_seq m)\<rparr>"
  define g where "g = (if graph = None \<and> assignments \<noteq> []
    then (case TaskGraphFromSubtasks customProfiles (map as_Subtask assignments) of Inl _ \<Rightarrow> None | Inr g \<Rightarrow> Some g) else graph)"
  let ?t = "new_task clk (genID (Suc (m_seq m))) description g assignments requireApproval"
  let ?t1 = "?t\<lparr>t_Origin := m_syncOrigin m, t_Sequence := next_seq m\<rparr>"
  let ?m1 = "invalidateRecentTasksLocked (?m\<lparr>m_syncSeq := gm_put (m_syncOrigin m) (next_seq m) (m_syncSeq m)\<rparr>)"
  obtain e t1 m1 where p: "saveTaskAndCheckpointLocked ops (clk 2) ?t1 ?m1 = (e, t1, m1)" using prod_cases3 by blast
  then have q: "persistTaskAndCheckpointLocked ops (clk 2) ?t ?m = (e, t1, m1)"
    by (simp add: persistTaskAndCheckpointLocked_def stamp_eq)
  from save_locked_cases [OF p] obtain l u s where t1: "t1 = restamp m l u ?t" and m1: "m1 = ?m1\<lparr>m_store := s\<rparr>" by auto
  from assms q have "m' = (case e of Some _ \<Rightarrow> m1 | None \<Rightarrow> invalidateRecentTasksLocked (put_task (genID (Suc (m_seq m))) t1 m1))"
    unfolding CreateWithGraphAndOptionsChecked_def Let_def g_def [symmetric] by (auto split: option.splits)
  then show ?thesis
    using t1 by (cases e) (auto simp: m1 invalidateRecentTasksLocked_def put_task_def)
qed

lemma new_task_fields [simp]:
  "t_ID (new_task clk i d g as ra) = i" "t_Subtasks (new_task clk i d g as ra) = new_results as"
  by (simp_all add: new_task_def Let_def)

lemma task_inv_new: "task_inv (new_task clk i d g as ra)"
  by (simp add: task_inv_def new_task_def Let_def new_results_def list_all_iff attempts_ok_def)

lemma task_inv_restamp [simp]: "task_inv (restamp m l r t) = task_inv t"
  by (simp add: task_inv_def)

lemma evolves_restamp [simp]: "evolves t (restamp m l r t') = evolves t t'"
  by (simp add: evolves_def)

lemma mgr_inv_put:
  assumes "mgr_inv m" "m_tasks m' = gm_put i t (m_tasks m)" "m_seq m \<le> m_seq m'"
    and "t_ID t = i" "i \<noteq> []" "task_inv t" "taskSequence i \<le> m_seq m'"
  shows "mgr_inv m'"
proof -
  have "t_ID u = j \<and> j \<noteq> [] \<and> task_inv u \<and> taskSequence j \<le> m_seq m'" if "gm_get (m_tasks m') j = Some u" for j u
  proof (cases "j = i")
    case True
    with that assms(2) have "u = t" by simp
    with True assms(4-7) show ?thesis by blast
  next
    case False
    with that assms(2) have "gm_get (m_tasks m) j = Some u" by simp
    then have "t_ID u = j \<and> j \<noteq> [] \<and> task_inv u \<and> taskSequence j \<le> m_seq m"
      using assms(1) unfolding mgr_inv_def by blast
    with assms(3) show ?thesis by linarith
  qed
  moreover have "gm_wf (m_tasks m')" using assms(1,2) by (simp add: mgr_inv_def)
  ultimately show ?thesis unfolding mgr_inv_def by blast
qed

lemma mgr_inv_same: "mgr_inv m \<Longrightarrow> m_tasks m' = m_tasks m \<Longrightarrow> m_seq m \<le> m_seq m' \<Longrightarrow> mgr_inv m'"
  unfolding mgr_inv_def by (metis le_trans)

lemma mgr_step_inv:
  assumes "mgr_step ops customProfiles m m'" "mgr_inv m"
  shows "mgr_inv m' \<and> m_seq m \<le> m_seq m'"
  using assms(1)
proof (cases rule: mgr_step_cases)
  case (create clk description graph assignments requireApproval)
  then obtain r where "CreateWithGraphAndOptionsChecked ops customProfiles clk description graph assignments requireApproval m = (r, m')"
    by (metis prod.collapse)
  from Create_effect [OF this] have q: "m_seq m' = Suc (m_seq m)" and
    "m_tasks m' = m_tasks m \<or> (\<exists>t. m_tasks m' = gm_put (genID (Suc (m_seq m))) t (m_tasks m) \<and>
      t_ID t = genID (Suc (m_seq m)) \<and> task_inv t)"
    by (auto simp: task_inv_new)
  then have "mgr_inv m'"
  proof (elim disjE exE conjE)
    assume "m_tasks m' = m_tasks m"
    then show ?thesis by (rule mgr_inv_same [OF assms(2)]) (simp add: q)
  next
    fix t assume t: "m_tasks m' = gm_put (genID (Suc (m_seq m))) t (m_tasks m)" "t_ID t = genID (Suc (m_seq m))" "task_inv t"
    show ?thesis by (rule mgr_inv_put [OF assms(2) t(1) _ t(2) _ t(3)]) (simp_all add: q taskSequence_genID_le)
  qed
  then show ?thesis by (simp add: q)
next
  case stepped
  show ?thesis
  proof (cases "m' = m")
    case False
    with stepped obtain i t t' where s: "gm_get (m_tasks m) i = Some t" "lifecycle t t'" "wrote m i t' m'"
      by (rule stepped_wrote)
    have t: "t_ID t = i" "i \<noteq> []" "task_inv t" "taskSequence i \<le> m_seq m" using assms(2) s(1) by (auto simp: mgr_inv_def)
    have t': "task_inv t'" "t_ID t' = i" using lifecycle_inv [OF s(2) t(3)] lifecycle_evolves [OF s(2) t(3)] t(1)
      by (auto simp: evolves_def)
    from s(3) obtain l r where w: "m_tasks m' = gm_put i (restamp m l r t') (m_tasks m)" and q: "m_seq m' = m_seq m"
      by (auto simp: wrote_def)
    have "mgr_inv m'" by (rule mgr_inv_put [OF assms(2) w]) (use t t' q in simp_all)
    then show ?thesis by (simp add: q)
  qed (use assms in simp)
next
  case (finalizer fin)
  then have "m_tasks m' = m_tasks m" "m_seq m' = m_seq m" by (simp_all add: SetFinalizer_def)
  with mgr_inv_same [OF assms(2) this(1)] show ?thesis by simp
qed

lemma mgr_runs_inv: "mgr_runs ops customProfiles m m' \<Longrightarrow> mgr_inv m \<Longrightarrow> mgr_inv m' \<and> m_seq m \<le> m_seq m'"
  by (induction rule: rtranclp_induct) (use mgr_step_inv le_trans in blast)+

lemma mgr_step_evolves:
  assumes s: "mgr_step ops customProfiles m m'" and inv: "mgr_inv m" and b: "m_seq m' < 2 ^ 31"
    and t: "gm_get (m_tasks m) i = Some t"
  shows "\<exists>t'. gm_get (m_tasks m') i = Some t' \<and> evolves t t'"
  using s
proof (cases rule: mgr_step_cases)
  case (create clk description graph assignments requireApproval)
  then obtain r where "CreateWithGraphAndOptionsChecked ops customProfiles clk description graph assignments requireApproval m = (r, m')"
    by (metis prod.collapse)
  from Create_effect [OF this] have q: "m_seq m' = Suc (m_seq m)" and
    c: "m_tasks m' = m_tasks m \<or> (\<exists>u. m_tasks m' = gm_put (genID (Suc (m_seq m))) u (m_tasks m))" by blast+
  from fresh_id [OF inv] q b t have "genID (Suc (m_seq m)) \<noteq> i" by auto
  with c t show ?thesis by auto
next
  case stepped
  show ?thesis
  proof (cases "m' = m")
    case False
    with stepped obtain j u u' where s: "gm_get (m_tasks m) j = Some u" "lifecycle u u'" "wrote m j u' m'"
      by (rule stepped_wrote)
    have "task_inv u" using inv s(1) by (auto simp: mgr_inv_def)
    from lifecycle_evolves [OF s(2) this] s t show ?thesis by (auto simp: wrote_def)
  qed (use t in simp)
next
  case (finalizer fin)
  with t show ?thesis by (simp add: SetFinalizer_def)
qed

lemma mgr_runs_evolves:
  assumes "mgr_runs ops customProfiles m m'" "mgr_inv m" "m_seq m' < 2 ^ 31" "gm_get (m_tasks m) i = Some t"
  shows "\<exists>t'. gm_get (m_tasks m') i = Some t' \<and> evolves t t'"
  using assms
proof (induction rule: rtranclp_induct)
  case (step m1 m2)
  have i1: "mgr_inv m1" using mgr_runs_inv [OF step.hyps(1)] step.prems by blast
  have "m_seq m1 < 2 ^ 31" using mgr_step_inv [OF step.hyps(2) i1] step.prems(2) by linarith
  with step.IH step.prems obtain t1 where t1: "gm_get (m_tasks m1) i = Some t1" "evolves t t1" by blast
  from mgr_step_evolves [OF step.hyps(2) i1 step.prems(2) t1(1)] t1(2) show ?case by (blast intro: evolves_trans)
qed auto

subsection \<open>Winners\<close>

lemma find_list_all2:
  "list_all2 result_keep xs ys \<Longrightarrow>
     rel_option result_keep (find (\<lambda>s. sr_ID s = i) xs) (find (\<lambda>s. sr_ID s = i) ys)"
  by (induction rule: list_all2_induct) (auto simp: result_keep_def)

lemma evolves_completed:
  assumes "evolves t t'" "find_result t i = Some s" "sr_Status s = StatusCompleted"
  shows "\<exists>s'. find_result t' i = Some s' \<and> sr_Status s' = StatusCompleted \<and> sr_Output s' = sr_Output s"
proof -
  from assms(1) have "rel_option result_keep (find_result t i) (find_result t' i)"
    by (simp add: evolves_def find_list_all2)
  with assms(2,3) show ?thesis by (auto simp: result_keep_def rel_option_iff split: option.splits)
qed

lemma settled_no_winner:
  assumes "gm_get (m_tasks m) taskID = Some t" "find_result t subtaskID = Some s" "sr_Status s \<noteq> StatusRunning"
  shows "fst (CompleteDispatchAttempt_begin ops clk taskID subtaskID n asg fc hs d out m) \<noteq> Inr (Some c)"
  using assms by (auto simp: CompleteDispatchAttempt_begin_def Let_def split: option.split prod.split)

lemma winner_settles:
  assumes asg: "case asg of None \<Rightarrow> True | Some b \<Rightarrow> st_ID (as_Subtask b) = subtaskID"
    and w: "CompleteDispatchAttempt_begin ops clk taskID subtaskID n asg fc hs d out m = (Inr (Some c), m')"
  shows "\<exists>t s t' s'. gm_get (m_tasks m) taskID = Some t \<and> find_result t subtaskID = Some s \<and> sr_Status s = StatusRunning \<and>
    gm_get (m_tasks m') taskID = Some t' \<and> find_result t' subtaskID = Some s' \<and>
    sr_Status s' = StatusCompleted \<and> sr_Output s' = out"
proof -
  from w obtain t s a where t: "gm_get (m_tasks m) taskID = Some t" and s: "find_result t subtaskID = Some s"
    and a: "find_attempt s n = Some a" "da_Status a = DispatchAttemptRunning"
    and r: "t_Status t \<noteq> StatusCancelled" "sr_Status s = StatusRunning"
    by (auto simp: CompleteDispatchAttempt_begin_def Let_def split: option.splits if_splits prod.splits)
  let ?F = "finish_attempt DispatchAttemptSucceeded fc hs None (clk 0) d"
  let ?f = "\<lambda>s. (case asg of None \<Rightarrow> id | Some b \<Rightarrow> (\<lambda>s. s\<lparr>sr_Assignment := b\<rparr>)) (set_attempt n ?F s)"
  let ?t2 = "set_result subtaskID ?f (t\<lparr>t_UpdatedAt := clk 0\<rparr>)"
  let ?t3 = "touch (clk (Suc 0)) (roll_up (m_finalizer m) (set_result subtaskID (settle_result out None) ?t2))"
  have idf: "sr_ID s = subtaskID \<Longrightarrow> sr_ID (?f s) = subtaskID" for s using asg by (cases asg) auto
  have f2: "find_result ?t2 subtaskID = Some (?f s)" using find_set_result [of subtaskID ?f] idf s by simp
  have m': "m' = snd (snd (update_checkpoint ops (clk (Suc (Suc 0))) taskID ?t3 m))"
    using w t s a r
    by (simp add: CompleteDispatchAttempt_begin_def Let_def win_eq [OF asg] completeSubtaskLocked_Some [OF f2])
  obtain e t' m1 where u: "update_checkpoint ops (clk (Suc (Suc 0))) taskID ?t3 m = (e, t', m1)" using prod_cases3 by blast
  from update_checkpoint_wrote(2) [OF u] obtain l v where t': "t' = restamp m l v ?t3" "m_tasks m1 = gm_put taskID t' (m_tasks m)"
    by blast
  have "find_result t' subtaskID = Some (settle_result out None (?f s))"
    using find_set_result [of subtaskID "settle_result out None" ?t2] f2 by (simp add: t'(1))
  moreover have "sr_Output (settle_result out None x) = out" for x by (simp add: settle_result_def)
  ultimately show ?thesis using t s r t' m' u by auto
qed

subsection \<open>Properties\<close>

text \<open>A manager with one task of two independent subtasks, the first of them being dispatched.\<close>

definition sample_assignment :: "string \<Rightarrow> assignment" where
  "sample_assignment i =
     \<lparr>as_Subtask = sample_node i [], as_NodeID = ''n1'', as_Address = [], as_Model = ''m'', as_Engine = [], as_Score = 0,
      as_Factors = \<lparr>sf_ModelMatch = 0, sf_Hardware = 0, sf_ActiveTasks = 0, sf_QueuedTasks = 0, sf_PendingDependents = 0,
        sf_CapacityPenalty = 0, sf_LoadPenalty = 0, sf_GPUCompatibilityScore = 0, sf_GPUUtilizationPenalty = 0,
        sf_NPUUtilizationPenalty = 0, sf_CPUUtilizationPenalty = 0, sf_MemoryUsagePenalty = 0, sf_CapabilityScore = 0,
        sf_MatchedCapabilities = [], sf_ModelQualityScore = 0, sf_TopologyScore = 0, sf_EstimatedCompletionSeconds = 0,
        sf_EstimatedTokensPerSecond = 0, sf_ModelSizeGB = 0, sf_LatencyScore = 0, sf_LearnedBias = 0,
        sf_TelemetryFresh = False, sf_TelemetryAgeMs = 0\<rparr>\<rparr>"

definition sample_mgr0 :: "memoryStore manager" where
  "sample_mgr0 = newManager 1 (Some NewMemoryStore) False"

definition sample_mgr1 :: "memoryStore manager" where
  "sample_mgr1 = snd (CreateWithGraphAndOptionsChecked memory_ops [] int ''demo'' (Some NewTaskGraph)
     [sample_assignment ''a'', sample_assignment ''b''] False sample_mgr0)"

definition sample_mgr2 :: "memoryStore manager" where
  "sample_mgr2 = snd (StartSubtaskChecked memory_ops int ''task-1'' ''a'' sample_mgr1)"

definition sample_mgr3 :: "memoryStore manager" where
  "sample_mgr3 = snd (BeginDispatchAttemptChecked memory_ops int ''task-1'' ''a'' (sample_assignment ''a'') sample_mgr2)"

lemma sample_runs: "mgr_runs memory_ops [] sample_mgr0 sample_mgr1" "mgr_runs memory_ops [] sample_mgr0 sample_mgr3"
proof -
  have 1: "mgr_step memory_ops [] sample_mgr0 sample_mgr1" unfolding sample_mgr1_def by (rule step_create)
  have 2: "mgr_step memory_ops [] sample_mgr1 sample_mgr2" unfolding sample_mgr2_def by (rule step_start)
  have 3: "mgr_step memory_ops [] sample_mgr2 sample_mgr3" unfolding sample_mgr3_def by (rule step_begin)
  from 1 2 3 show "mgr_runs memory_ops [] sample_mgr0 sample_mgr1" "mgr_runs memory_ops [] sample_mgr0 sample_mgr3"
    by (auto intro: rtranclp.rtrancl_into_rtrancl)
qed

lemma sample_inv: "mgr_inv sample_mgr0" "mgr_inv sample_mgr1" "mgr_inv sample_mgr3"
  using mgr_inv_new [of 1 "Some NewMemoryStore" False] mgr_runs_inv [OF sample_runs(1)] mgr_runs_inv [OF sample_runs(2)]
  by (simp_all add: sample_mgr0_def)

lemma sample_seq: "m_seq sample_mgr3 = 1"
  by code_simp







text \<open>A new task never overwrites another one. Below the limit of 2147483647 tasks, the
  identifier that \<^verbatim>\<open>CreateWithGraphAndOptionsChecked\<close> generates is not in use, whatever
  tasks were created or imported before, and all other tasks are left as they are.\<close>

theorem create_is_fresh:
  assumes "mgr_inv m" "Suc (m_seq m) < 2 ^ 31"
    and "CreateWithGraphAndOptionsChecked ops customProfiles clk description graph assignments requireApproval m = (Inr t, m')"
  shows "gm_get (m_tasks m) (genID (Suc (m_seq m))) = None \<and>
    (\<forall>i. i \<noteq> genID (Suc (m_seq m)) \<longrightarrow> gm_get (m_tasks m') i = gm_get (m_tasks m) i)"
  using fresh_id [OF assms(1,2)] Create_effect [OF assms(3)] by auto

theorem create_is_fresh_witness: "gm_get (m_tasks sample_mgr3) (genID 2) = None"
proof -
  let ?r = "CreateWithGraphAndOptionsChecked memory_ops [] int ''x'' (Some NewTaskGraph) [sample_assignment ''z''] False sample_mgr3"
  have "(case fst ?r of Inr _ \<Rightarrow> True | Inl _ \<Rightarrow> False)" by code_simp
  then obtain t where "?r = (Inr t, snd ?r)" by (cases ?r) (auto split: sum.splits)
  moreover have "Suc (m_seq sample_mgr3) < 2 ^ 31" by (simp add: sample_seq)
  ultimately have "gm_get (m_tasks sample_mgr3) (genID (Suc (m_seq sample_mgr3))) = None"
    using create_is_fresh [OF sample_inv(3)] by blast
  then show ?thesis by (simp add: sample_seq numeral_2_eq_2)
qed

text \<open>Every change of a task is visible to incremental synchronisation. A step that
  changes a task stamps it with the manager's origin and the next sequence number, which is
  above every number this origin had used, unless the 64-bit counter is exhausted.\<close>

theorem changed_task_gets_next_sequence:
  assumes "mgr_inv m" "mgr_step ops customProfiles m m'" "m_seq m' < 2 ^ 31"
    and "gm_get (m_tasks m) i = Some t" "gm_get (m_tasks m') i = Some t'" "t' \<noteq> t"
    and "gm_get0 (m_syncSeq m) (m_syncOrigin m) < - 1"
  shows "t_Origin t' = m_syncOrigin m \<and> gm_get0 (m_syncSeq m) (m_syncOrigin m) < t_Sequence t'"
  using assms(2)
proof (cases rule: mgr_step_cases)
  case (create clk description graph assignments requireApproval)
  then obtain r where "CreateWithGraphAndOptionsChecked ops customProfiles clk description graph assignments requireApproval m = (r, m')"
    by (metis prod.collapse)
  from Create_effect [OF this] have q: "m_seq m' = Suc (m_seq m)" and
    c: "m_tasks m' = m_tasks m \<or> (\<exists>u. m_tasks m' = gm_put (genID (Suc (m_seq m))) u (m_tasks m))" by blast+
  from fresh_id [OF assms(1)] q assms(3,4) have "genID (Suc (m_seq m)) \<noteq> i" by auto
  with c assms(4-6) show ?thesis by auto
next
  case stepped
  moreover have "m' \<noteq> m" using assms(4-6) by auto
  ultimately obtain j u u' where "gm_get (m_tasks m) j = Some u" "wrote m j u' m'" by (rule stepped_wrote)
  with assms(4-7) word_inc_gt show ?thesis by (auto simp: wrote_def split: if_splits)
next
  case (finalizer fin)
  with assms(4-6) show ?thesis by (simp add: SetFinalizer_def)
qed

theorem changed_task_gets_next_sequence_witness:
  "\<exists>t'. gm_get (m_tasks sample_mgr2) ''task-1'' = Some t' \<and> t_Origin t' = ''taskmgr-1'' \<and> 1 < t_Sequence t'"
proof -
  have s: "mgr_step memory_ops [] sample_mgr1 sample_mgr2" unfolding sample_mgr2_def by (rule step_start)
  have q: "m_seq sample_mgr2 = 1" "m_syncOrigin sample_mgr1 = ''taskmgr-1''" "gm_get0 (m_syncSeq sample_mgr1) ''taskmgr-1'' = 1" by code_simp+
  have "map_option t_changed (gm_get (m_tasks sample_mgr1) ''task-1'') = Some 0"
    "map_option t_changed (gm_get (m_tasks sample_mgr2) ''task-1'') = Some 1" by code_simp+
  then obtain t t' where t: "gm_get (m_tasks sample_mgr1) ''task-1'' = Some t" "gm_get (m_tasks sample_mgr2) ''task-1'' = Some t'"
    and "t_changed t = 0" "t_changed t' = 1" by auto
  then have "t' \<noteq> t" by auto
  note t = t this
  have "(1 :: uint64) < - 1" by code_simp
  with changed_task_gets_next_sequence [OF sample_inv(2) s _ t] q t show ?thesis by auto
qed

text \<open>C12: a cancellation is complete. It marks the task cancelled, cancels its context, leaves
  no subtask pending or running, and keeps every subtask that had completed or failed; a task
  that had already ended is not touched.\<close>

theorem cancel_is_complete:
  assumes "gm_get (m_tasks m) i = Some t" "CancelAndSnapshotChecked ops clk i m = ((snap, cancelled, e), m')"
  shows "(cancelled \<longleftrightarrow> \<not> terminal (t_Status t)) \<and> (\<not> cancelled \<longrightarrow> m' = m) \<and>
    (cancelled \<longrightarrow> (\<exists>t'. gm_get (m_tasks m') i = Some t' \<and> t_Status t' = StatusCancelled \<and> t_cancelled t' \<and>
       \<not> list_ex sr_open (t_Subtasks t') \<and>
       list_all2 (\<lambda>s s'. s' = (if sr_open s then s\<lparr>sr_Status := StatusCancelled, sr_Error := ''task cancelled''\<rparr> else s))
         (t_Subtasks t) (t_Subtasks t')))"
proof (cases "terminal (t_Status t)")
  case True
  with assms show ?thesis by (simp add: CancelAndSnapshotChecked_def)
next
  case False
  obtain e1 t1 m1 where u: "update_checkpoint ops (clk 1) i (cancel_task (clk 0) t) m = (e1, t1, m1)" using prod_cases3 by blast
  with assms False have c: "cancelled" "m' = m1" by (simp_all add: CancelAndSnapshotChecked_def)
  from update_checkpoint_wrote(2) [OF u] obtain l r where t1: "t1 = restamp m l r (cancel_task (clk 0) t)"
    "m_tasks m1 = gm_put i t1 (m_tasks m)" by blast
  have "t_Status t1 = StatusCancelled" "t_cancelled t1" "t_Subtasks t1 = map cancel_result (t_Subtasks t)"
    by (simp_all add: t1(1) cancel_task_def signalChanged_def)
  moreover have "\<not> list_ex sr_open (map cancel_result ss)" for ss by (induction ss) (auto simp: cancel_result_def)
  moreover have "list_all2 (\<lambda>s s'. s' = (if sr_open s then s\<lparr>sr_Status := StatusCancelled, sr_Error := ''task cancelled''\<rparr> else s))
      ss (map cancel_result ss)" for ss by (induction ss) (auto simp: cancel_result_def)
  ultimately show ?thesis using False c t1(2) by simp
qed

theorem cancel_is_complete_witness:
  "\<exists>t'. gm_get (m_tasks (snd (CancelAndSnapshotChecked memory_ops int ''task-1'' sample_mgr3))) ''task-1'' = Some t' \<and>
     t_Status t' = StatusCancelled \<and> \<not> list_ex sr_open (t_Subtasks t')"
proof -
  have "map_option t_Status (gm_get (m_tasks sample_mgr3) ''task-1'') = Some StatusRunning" by code_simp
  then obtain t where t: "gm_get (m_tasks sample_mgr3) ''task-1'' = Some t" "t_Status t = StatusRunning" by auto
  obtain sn c e m' where r: "CancelAndSnapshotChecked memory_ops int ''task-1'' sample_mgr3 = ((sn, c, e), m')"
    using prod_cases4 by (metis prod.exhaust)
  from cancel_is_complete [OF t(1) r] t(2) r show ?thesis by (auto simp: terminal_def)
qed

definition sample_failed :: "memoryStore manager" where
  "sample_failed = put_task ''t''
     (sample_task\<lparr>t_ID := ''t'', t_Status := StatusFailed,
        t_Subtasks := [\<lparr>sr_Assignment = sample_assignment ''a'', sr_Status = StatusCompleted, sr_Output = ''ok'', sr_Error = [], sr_Attempts = []\<rparr>]\<rparr>)
     (newManager 1 None True)"

lemma stalled_step:
  assumes "lifecycle t t'" "t_Status t = StatusRunning" "\<not> list_ex sr_open (t_Subtasks t)"
  shows "t_Status t' = StatusCancelled \<or> t_Status t' = StatusRunning \<and> \<not> list_ex sr_open (t_Subtasks t')"
proof -
  have n: "\<not> sr_open s" if "find_result t sid = Some s" for sid s
    using find_Some_mem [OF that] assms(3) by (auto simp: list_ex_iff)
  have f: "\<not> list_ex sr_open (update_first P (set_attempt k f) ss)" if "\<not> list_ex sr_open ss" for P k f ss
    using that by (induction ss) auto
  from assms(1) show ?thesis
  proof (cases rule: lifecycle.cases)
    case (lc_finish sid s k a now st fc hs er d)
    with assms(2,3) f show ?thesis by simp
  qed (use n assms(2) in \<open>auto simp: cancel_task_def\<close>)
qed

text \<open>C13: a task whose synthesis failed cannot be saved by resuming it. All its subtasks are
  completed, so \<^verbatim>\<open>ResumeTaskChecked\<close> makes it running again with no subtask to dispatch, and
  from such a state no step of the lifecycle other than a cancellation leads anywhere: the
  task stays running.\<close>

theorem resume_after_synthesis_failure_stalls:
  assumes "gm_get (m_tasks m) i = Some t" "t_Status t = StatusFailed"
    and "list_all (\<lambda>s. sr_Status s = StatusCompleted) (t_Subtasks t)"
    and "ResumeTaskChecked ops clk i m = (Inr r, m')"
  shows "\<exists>t'. gm_get (m_tasks m') i = Some t' \<and> t_Status t' = StatusRunning \<and> \<not> list_ex sr_open (t_Subtasks t') \<and>
    (\<forall>t''. (\<lambda>a b. lifecycle a b \<and> t_Status b \<noteq> StatusCancelled)\<^sup>*\<^sup>* t' t'' \<longrightarrow> t_Status t'' = StatusRunning)"
proof -
  obtain e t1 m1 where u: "update_checkpoint ops (clk 1) i (resume_task (clk 0) t) m = (e, t1, m1)" using prod_cases3 by blast
  with assms have m': "m' = m1" by (auto simp: ResumeTaskChecked_def split: if_splits option.splits)
  from update_checkpoint_wrote(2) [OF u] obtain l v where t1: "t1 = restamp m l v (resume_task (clk 0) t)"
    "m_tasks m1 = gm_put i t1 (m_tasks m)" by blast
  have s: "t_Status t1 = StatusRunning" "\<not> list_ex sr_open (t_Subtasks t1)"
    using assms(3) by (auto simp: t1(1) resume_task_def reset_result_def list_all_iff list_ex_iff)
  have "t_Status w = StatusRunning \<and> \<not> list_ex sr_open (t_Subtasks w)"
    if "(\<lambda>a b. lifecycle a b \<and> t_Status b \<noteq> StatusCancelled)\<^sup>*\<^sup>* t1 w" for w
    using that by (induction rule: rtranclp_induct) (use s stalled_step in blast)+
  then show ?thesis using m' t1(2) s by auto
qed

theorem resume_after_synthesis_failure_stalls_witness:
  "\<exists>r m' t'. ResumeTaskChecked memory_ops int ''t'' sample_failed = (Inr r, m') \<and>
     gm_get (m_tasks m') ''t'' = Some t' \<and> t_Status t' = StatusRunning \<and> \<not> list_ex sr_open (t_Subtasks t')"
proof -
  have "(case fst (ResumeTaskChecked memory_ops int ''t'' sample_failed) of Inr _ \<Rightarrow> True | Inl _ \<Rightarrow> False)" by code_simp
  then obtain r m' where r: "ResumeTaskChecked memory_ops int ''t'' sample_failed = (Inr r, m')"
    by (cases "ResumeTaskChecked memory_ops int ''t'' sample_failed") (auto split: sum.splits)
  from resume_after_synthesis_failure_stalls [OF _ _ _ r] r show ?thesis
    by (fastforce simp: sample_failed_def put_task_def sample_task_def)
qed

end
