(* ===== verification/Task_Query.thy ===== *)
theory Task_Query
  imports Task_Manager "HOL-Library.Multiset"
begin

text \<open>
  The read side of \<^verbatim>\<open>taskmgr.Manager\<close>: waiting for prerequisites and assembling the input of
  a subtask (\<^verbatim>\<open>deps.go\<close>), snapshots, counts and the cache of recent tasks (\<^verbatim>\<open>query.go\<close>), and
  pages of the task history (\<^verbatim>\<open>paging.go\<close>). A blocking call is modelled by one round of its
  loop, which returns, or waits for the next change of the task. The length of the JSON
  encoding of a task is an argument of the page operation.
\<close>

subsection \<open>Prerequisites\<close>

datatype wait_round = WaitReturns bool | WaitBlocks

text \<open>The statuses of the prerequisites: pending unless a subtask of that name says otherwise.\<close>

definition required_statuses :: "task \<Rightarrow> string list \<Rightarrow> (string, status) gomap" where
  "required_statuses t dependencies =
     (let init = foldl (\<lambda>r d. gm_put d StatusPending r) [] dependencies
      in foldl (\<lambda>r s. if gm_get r (sr_ID s) \<noteq> None then gm_put (sr_ID s) (sr_Status s) r else r) init (t_Subtasks t))"

text \<open>\<open>ctx i\<close> is the i-th look at \<^verbatim>\<open>ctx.Err()\<close> of the round.\<close>

definition WaitForDependencies_round :: "(nat \<Rightarrow> bool) \<Rightarrow> string \<Rightarrow> string \<Rightarrow> 's manager \<Rightarrow> wait_round" where
  "WaitForDependencies_round ctx taskID subtaskID m =
     (if ctx 0 then WaitReturns False
      else case gm_get (m_tasks m) taskID of
             None \<Rightarrow> WaitReturns False
           | Some t \<Rightarrow>
               if t_Status t = StatusCancelled then WaitReturns False
               else (case find_result t subtaskID of
                       None \<Rightarrow> WaitReturns False
                     | Some s \<Rightarrow>
                         (let required = map snd (required_statuses t (sr_DependsOn s))
                          in if list_ex (\<lambda>st. st = StatusFailed \<or> st = StatusCancelled) required then WaitReturns False
                             else if list_all (\<lambda>st. st = StatusCompleted) required then WaitReturns (\<not> ctx 1)
                             else WaitBlocks)))"

definition dependency_outputs :: "task \<Rightarrow> string list \<Rightarrow> (string, string) gomap" where
  "dependency_outputs t dependencies =
     foldl (\<lambda>m s. if sr_ID s \<in> set dependencies then gm_put (sr_ID s) (sr_Output s) m else m) [] (t_Subtasks t)"

fun prerequisite_text :: "(string, string) gomap \<Rightarrow> string list \<Rightarrow> string \<Rightarrow> string option" where
  "prerequisite_text outputs [] input = Some input"
| "prerequisite_text outputs (d # ds) input =
     (case gm_get outputs d of
        None \<Rightarrow> None
      | Some out \<Rightarrow>
          prerequisite_text outputs ds
            (input @ ''Prerequisite '' @ d @ '':'' @ newlines 1 @ trim_space out @ newlines 2))"

definition profile_or_general :: "profiles \<Rightarrow> string \<Rightarrow> agent_profile" where
  "profile_or_general customProfiles role =
     (case AgentProfileFor customProfiles role of
        Some p \<Rightarrow> p
      | None \<Rightarrow>
          (case AgentProfileFor customProfiles ''general'' of
             Some p \<Rightarrow> p
           | None \<Rightarrow> \<lparr>ap_Role = [], ap_TaskType = [], ap_Instructions = [], ap_Tools = []\<rparr>))"

definition InputForSubtask :: "profiles \<Rightarrow> string \<Rightarrow> string \<Rightarrow> 's manager \<Rightarrow> string option" where
  "InputForSubtask customProfiles taskID subtaskID m =
     (case gm_get (m_tasks m) taskID of
        None \<Rightarrow> None
      | Some t \<Rightarrow>
          (case find_result t subtaskID of
             None \<Rightarrow> None
           | Some current \<Rightarrow>
               (let subtask = as_Subtask (sr_Assignment current);
                    deps = st_DependsOn subtask
                in if list_ex (\<lambda>s. sr_ID s \<in> set deps \<and> sr_Status s \<noteq> StatusCompleted) (t_Subtasks t) then None
                   else case prerequisite_text (dependency_outputs t deps) deps [] of
                          None \<Rightarrow> None
                        | Some input \<Rightarrow>
                            (let profile = profile_or_general customProfiles (st_Role subtask)
                             in Some (input @
                                  ''You are the '' @ ap_Role profile @ '' agent.'' @ newlines 1 @ ap_Instructions profile @ newlines 2 @
                                  ''Overall task: '' @ t_Description t @ newlines 2 @ ''Subtask: '' @ st_Description subtask @
                                  (if st_ExpectedOutput subtask \<noteq> []
                                   then newlines 2 @ ''Expected output: '' @ st_ExpectedOutput subtask else []) @
                                  (if st_OutputFormat subtask = ''json''
                                   then newlines 2 @ ''Return only a valid JSON object.'' @
                                        (if st_RequiredFields subtask \<noteq> []
                                         then '' Include these top-level fields: '' @
                                              join_strings (st_RequiredFields subtask) '', '' @ ''.''
                                         else [])
                                   else []))))))"

subsection \<open>Snapshots and counts\<close>

definition Get :: "string \<Rightarrow> 's manager \<Rightarrow> task option" where
  "Get i m = map_option cloneTask (gm_get (m_tasks m) i)"

datatype wait_result = WaitNotFound string | WaitDone task | WaitApproval task | WaitPending

definition Wait_round :: "string \<Rightarrow> 's manager \<Rightarrow> wait_result" where
  "Wait_round i m =
     (case gm_get (m_tasks m) i of
        None \<Rightarrow> WaitNotFound i
      | Some t \<Rightarrow>
          if terminal (t_Status t) then WaitDone (cloneTask t)
          else if t_Status t = StatusAwaitingApproval then WaitApproval (cloneTask t)
          else WaitPending)"

text \<open>The order of the task history: most recently updated first, then by falling identifier.\<close>

definition newer :: "task \<Rightarrow> task \<Rightarrow> bool" where
  "newer a b \<longleftrightarrow> (if t_UpdatedAt a = t_UpdatedAt b then t_ID b < t_ID a else t_UpdatedAt b < t_UpdatedAt a)"

fun insert_recent :: "task \<Rightarrow> task list \<Rightarrow> task list" where
  "insert_recent t [] = [t]"
| "insert_recent t (u # us) = (if newer u t then u # insert_recent t us else t # u # us)"

definition sort_recent :: "task list \<Rightarrow> task list" where
  "sort_recent ts = foldr insert_recent ts []"

definition All :: "'s manager \<Rightarrow> task list" where
  "All m = sort_recent (map (cloneTask \<circ> snd) (m_tasks m))"

definition ActiveCount :: "'s manager \<Rightarrow> nat" where
  "ActiveCount m =
     length (filter (\<lambda>(_, t). t_Status t = StatusPending \<or> t_Status t = StatusRunning \<or>
        t_Status t = StatusSynthesis \<or> t_Status t = StatusAwaitingApproval) (m_tasks m))"

definition PendingAssignmentsByNode :: "'s manager \<Rightarrow> (string, nat) gomap" where
  "PendingAssignmentsByNode m =
     foldl (\<lambda>q s. if sr_Status s = StatusPending \<and> as_NodeID (sr_Assignment s) \<noteq> []
                  then (let n = as_NodeID (sr_Assignment s)
                        in gm_put n (Suc (case gm_get q n of None \<Rightarrow> 0 | Some k \<Rightarrow> k)) q)
                  else q)
       [] (concat (map (\<lambda>(_, t). t_Subtasks t) (m_tasks m)))"

definition ResumableTasks :: "'s manager \<Rightarrow> task list" where
  "ResumableTasks m =
     sort_key (\<lambda>t. - t_UpdatedAt t)
       (map (cloneTask \<circ> snd) (filter (\<lambda>(_, t). t_Resumable t \<and> t_Status t \<noteq> StatusCompleted) (m_tasks m)))"

subsection \<open>The cache of recent tasks\<close>

text \<open>The cache holds pointers into the task map, so here it holds identifiers.\<close>

definition ensureRecentTasksLocked :: "'s manager \<Rightarrow> 's manager" where
  "ensureRecentTasksLocked m =
     (if m_recentTasksValid m then m
      else m\<lparr>m_recentTasks := map t_ID (sort_recent (map snd (m_tasks m))), m_recentTasksValid := True\<rparr>)"

definition recent_list :: "'s manager \<Rightarrow> task list" where
  "recent_list m = concat (map (\<lambda>i. case gm_get (m_tasks m) i of None \<Rightarrow> [] | Some t \<Rightarrow> [t]) (m_recentTasks m))"

definition Recent :: "int \<Rightarrow> 's manager \<Rightarrow> task list \<times> 's manager" where
  "Recent limit m =
     (if limit \<le> 0 then ([], m)
      else (let m' = ensureRecentTasksLocked m
            in (map cloneTask (take (nat limit) (recent_list m')), m')))"

subsection \<open>Pages of the history\<close>

record page_cursor =
  pc_UpdatedAt :: time
  pc_ID :: string

record task_page =
  tp_Items :: "task list"
  tp_NextCursor :: page_cursor
  tp_HasMore :: bool

definition taskFollowsCursor :: "task \<Rightarrow> page_cursor \<Rightarrow> bool" where
  "taskFollowsCursor t c \<longleftrightarrow>
     (if t_UpdatedAt t = pc_UpdatedAt c then t_ID t < pc_ID c else t_UpdatedAt t < pc_UpdatedAt c)"

definition taskMatchesQuery :: "task \<Rightarrow> string \<Rightarrow> bool" where
  "taskMatchesQuery t query \<longleftrightarrow>
     (let matches = (\<lambda>value. contains_sub (to_lower value) query)
      in matches (t_ID t) \<or> matches (t_Description t) \<or> matches (status_string (t_Status t)) \<or>
         matches (t_Result t) \<or> matches (t_Error t) \<or>
         list_ex (\<lambda>s. let st = as_Subtask (sr_Assignment s) in
           matches (st_ID st) \<or> matches (st_Description st) \<or> matches (st_Role st) \<or> matches (st_TaskType st) \<or>
           matches (as_NodeID (sr_Assignment s)) \<or> matches (as_Model (sr_Assignment s)) \<or>
           matches (sr_Output s) \<or> matches (sr_Error s)) (t_Subtasks t))"

definition page_wants :: "page_cursor option \<Rightarrow> string \<Rightarrow> status option \<Rightarrow> task \<Rightarrow> bool" where
  "page_wants cursor query status t \<longleftrightarrow>
     (case cursor of None \<Rightarrow> True | Some c \<Rightarrow> taskFollowsCursor t c) \<and>
     (case status of None \<Rightarrow> True | Some s \<Rightarrow> t_Status t = s) \<and>
     (query = [] \<or> taskMatchesQuery t query)"

fun page_loop ::
  "(task \<Rightarrow> tm_error + int) \<Rightarrow> (task \<Rightarrow> bool) \<Rightarrow> nat \<Rightarrow> int \<Rightarrow> task list \<Rightarrow> int \<Rightarrow> task_page \<Rightarrow> tm_error + task_page" where
  "page_loop bytes wants limit maxBytes [] usedBytes page = Inr page"
| "page_loop bytes wants limit maxBytes (t # ts) usedBytes page =
     (if \<not> wants t then page_loop bytes wants limit maxBytes ts usedBytes page
      else if length (tp_Items page) = limit then Inr (page\<lparr>tp_HasMore := True\<rparr>)
      else case bytes t of
             Inl e \<Rightarrow> Inl e
           | Inr itemBytes \<Rightarrow>
               (let required = (if tp_Items page \<noteq> [] then itemBytes + 1 else itemBytes)
                in if 0 < maxBytes \<and> maxBytes < itemBytes then
                     (if tp_Items page = [] then Inl PageRecordTooLarge else Inr (page\<lparr>tp_HasMore := True\<rparr>))
                   else if 0 < maxBytes \<and> maxBytes < usedBytes + required then Inr (page\<lparr>tp_HasMore := True\<rparr>)
                   else page_loop bytes wants limit maxBytes ts (usedBytes + required)
                          (page\<lparr>tp_Items := tp_Items page @ [cloneTask t],
                                tp_NextCursor := \<lparr>pc_UpdatedAt = t_UpdatedAt t, pc_ID = t_ID t\<rparr>\<rparr>)))"

definition empty_page :: task_page where
  "empty_page = \<lparr>tp_Items = [], tp_NextCursor = \<lparr>pc_UpdatedAt = 0, pc_ID = []\<rparr>, tp_HasMore = False\<rparr>"

definition PageRecent ::
  "(task \<Rightarrow> tm_error + int) \<Rightarrow> page_cursor option \<Rightarrow> string \<Rightarrow> status option \<Rightarrow> int \<Rightarrow> int \<Rightarrow> 's manager \<Rightarrow>
     (tm_error + task_page) \<times> 's manager" where
  "PageRecent bytes cursor query status limit maxBytes m =
     (let limit' = (if limit \<le> 0 then 50 else nat limit);
          query' = to_lower (trim_space query);
          m' = ensureRecentTasksLocked m
      in (page_loop bytes (page_wants cursor query' status) limit' maxBytes (recent_list m') 0 empty_page, m'))"

subsection \<open>Prerequisites: what a caller may rely on\<close>

text \<open>The status a subtask name stands for: that of the last subtask of that name.\<close>

lemma required_fold:
  "gm_get (foldl (\<lambda>r s. if gm_get r (sr_ID s) \<noteq> None then gm_put (sr_ID s) (sr_Status s) r else r) r ss) d =
     (if gm_get r d = None then None
      else if d \<in> sr_ID ` set ss then Some (sr_Status (last (filter (\<lambda>s. sr_ID s = d) ss))) else gm_get r d)"
  by (induction ss arbitrary: r) (auto simp: image_iff filter_empty_conv)

lemma put_pending_fold:
  "gm_get (foldl (\<lambda>r d. gm_put d StatusPending r) r ds) d = (if d \<in> set ds then Some StatusPending else gm_get r d)"
  by (induction ds arbitrary: r) auto

lemma last_filter_distinct:
  "distinct (map sr_ID ss) \<Longrightarrow> s \<in> set ss \<Longrightarrow> last (filter (\<lambda>r. sr_ID r = sr_ID s) ss) = s"
proof (induction ss)
  case (Cons a ss)
  then show ?case by (cases "a = s") (auto simp: filter_empty_conv image_iff)
qed simp

lemma required_completed:
  assumes d: "distinct (map sr_ID (t_Subtasks t))" and a: "list_all (\<lambda>st. st = StatusCompleted) (map snd (required_statuses t ds))"
    and m: "k \<in> set ds"
  shows "\<exists>r \<in> set (t_Subtasks t). sr_ID r = k \<and> sr_Status r = StatusCompleted"
    "\<And>r. r \<in> set (t_Subtasks t) \<Longrightarrow> sr_ID r = k \<Longrightarrow> sr_Status r = StatusCompleted"
proof -
  let ?v = "gm_get (required_statuses t ds) k"
  have v: "?v = Some (if k \<in> sr_ID ` set (t_Subtasks t) then sr_Status (last (filter (\<lambda>s. sr_ID s = k) (t_Subtasks t))) else StatusPending)"
    unfolding required_statuses_def Let_def required_fold put_pending_fold using m by simp
  then have c: "(if k \<in> sr_ID ` set (t_Subtasks t) then sr_Status (last (filter (\<lambda>s. sr_ID s = k) (t_Subtasks t))) else StatusPending) = StatusCompleted"
    using a map_of_SomeD [OF v] by (force simp only: list_all_iff set_map snd_conv)
  then have "k \<in> sr_ID ` set (t_Subtasks t)" by (auto split: if_splits)
  then obtain r where r: "r \<in> set (t_Subtasks t)" "sr_ID r = k" by blast
  with last_filter_distinct [OF d r(1)] have "last (filter (\<lambda>s. sr_ID s = k) (t_Subtasks t)) = r" by simp
  with c r have rc: "sr_Status r = StatusCompleted" by (simp split: if_splits)
  with r show "\<exists>r \<in> set (t_Subtasks t). sr_ID r = k \<and> sr_Status r = StatusCompleted" by blast
  show "sr_Status r' = StatusCompleted" if "r' \<in> set (t_Subtasks t)" "sr_ID r' = k" for r'
    using that r rc d by (metis distinct_map inj_onD)
qed

lemma outputs_fold:
  "gm_get (foldl (\<lambda>m s. if sr_ID s \<in> set ds then gm_put (sr_ID s) (sr_Output s) m else m) m ss) k =
     (if k \<in> set ds \<and> k \<in> sr_ID ` set ss then Some (sr_Output (last (filter (\<lambda>s. sr_ID s = k) ss))) else gm_get m k)"
  by (induction ss arbitrary: m) (auto simp: image_iff filter_empty_conv)

lemma dependency_output:
  assumes "distinct (map sr_ID (t_Subtasks t))" "r \<in> set (t_Subtasks t)" "sr_ID r \<in> set ds"
  shows "gm_get (dependency_outputs t ds) (sr_ID r) = Some (sr_Output r)"
  using assms last_filter_distinct [OF assms(1,2)] by (auto simp: dependency_outputs_def outputs_fold)

lemma prerequisite_text_ok:
  assumes "\<And>d. d \<in> set ds \<Longrightarrow> gm_get outputs d = Some (out d)"
  shows "prerequisite_text outputs ds input =
    Some (input @ concat (map (\<lambda>d. ''Prerequisite '' @ d @ '':'' @ newlines 1 @ trim_space (out d) @ newlines 2) ds))"
  using assms by (induction ds arbitrary: input) auto

lemma concat_part: "x \<in> set xs \<Longrightarrow> \<exists>pre post. concat (map f xs) = pre @ f x @ post"
proof (induction xs)
  case (Cons a xs)
  show ?case
  proof (cases "x = a")
    case True then show ?thesis by (intro exI [of _ "[]"] exI [of _ "concat (map f xs)"]) simp
  next
    case False
    with Cons obtain pre post where "concat (map f xs) = pre @ f x @ post" by auto
    then show ?thesis by (intro exI [of _ "f a @ pre"] exI [of _ post]) simp
  qed
qed simp

abbreviation shows_output :: "string \<Rightarrow> string \<Rightarrow> string \<Rightarrow> bool" where
  "shows_output input d out \<equiv>
     \<exists>pre post. input = pre @ ''Prerequisite '' @ d @ '':'' @ newlines 1 @ trim_space out @ newlines 2 @ post"

lemma InputForSubtask_ready:
  assumes t: "gm_get (m_tasks m) i = Some t" "find_result t sid = Some s" and d: "distinct (map sr_ID (t_Subtasks t))"
    and c: "\<And>k. k \<in> set (sr_DependsOn s) \<Longrightarrow> \<exists>r \<in> set (t_Subtasks t). sr_ID r = k \<and> sr_Status r = StatusCompleted"
      "\<And>k r. k \<in> set (sr_DependsOn s) \<Longrightarrow> r \<in> set (t_Subtasks t) \<Longrightarrow> sr_ID r = k \<Longrightarrow> sr_Status r = StatusCompleted"
  shows "\<exists>input. InputForSubtask customProfiles i sid m = Some input \<and>
    (\<forall>r \<in> set (t_Subtasks t). sr_ID r \<in> set (sr_DependsOn s) \<longrightarrow> shows_output input (sr_ID r) (sr_Output r))"
proof -
  let ?o = "dependency_outputs t (sr_DependsOn s)"
  have o: "gm_get ?o k = Some (the (gm_get ?o k))" if "k \<in> set (sr_DependsOn s)" for k
    using c(1) [OF that] dependency_output [OF d] that by fastforce
  let ?f = "\<lambda>k. ''Prerequisite '' @ k @ '':'' @ newlines 1 @ trim_space (the (gm_get ?o k)) @ newlines 2"
  have p: "prerequisite_text ?o (sr_DependsOn s) [] = Some (concat (map ?f (sr_DependsOn s)))"
    using prerequisite_text_ok [of "sr_DependsOn s" ?o "\<lambda>k. the (gm_get ?o k)" "[]"] o by simp
  have n: "\<not> list_ex (\<lambda>r. sr_ID r \<in> set (sr_DependsOn s) \<and> sr_Status r \<noteq> StatusCompleted) (t_Subtasks t)"
    using c(2) by (auto simp: list_ex_iff)
  obtain rest where i: "InputForSubtask customProfiles i sid m = Some (concat (map ?f (sr_DependsOn s)) @ rest)"
    unfolding InputForSubtask_def Let_def using t n p by (simp only: option.case if_False append_assoc)
  have "shows_output (concat (map ?f (sr_DependsOn s)) @ rest) (sr_ID r) (sr_Output r)"
    if r: "r \<in> set (t_Subtasks t)" "sr_ID r \<in> set (sr_DependsOn s)" for r
  proof -
    obtain pre post where "concat (map ?f (sr_DependsOn s)) = pre @ ?f (sr_ID r) @ post"
      using concat_part [OF r(2), of ?f] by blast
    with dependency_output [OF d r] show ?thesis by (intro exI [of _ pre] exI [of _ "post @ rest"]) simp
  qed
  with i show ?thesis by blast
qed

lemma Wait_true:
  assumes "WaitForDependencies_round ctx i sid m = WaitReturns True"
  obtains t s where "gm_get (m_tasks m) i = Some t" "t_Status t \<noteq> StatusCancelled" "find_result t sid = Some s"
    "list_all (\<lambda>st. st = StatusCompleted) (map snd (required_statuses t (sr_DependsOn s)))"
  using assms by (auto simp: WaitForDependencies_round_def Let_def split: if_splits option.splits)

text \<open>C14: \<^verbatim>\<open>WaitForDependencies\<close> lets a subtask start only when every prerequisite has completed, and then
  \<^verbatim>\<open>InputForSubtask\<close> succeeds on the same state: the input shows the trimmed output of each
  prerequisite under its name.\<close>

theorem released_subtask_has_input:
  assumes "WaitForDependencies_round ctx i sid m = WaitReturns True"
    and "gm_get (m_tasks m) i = Some t" and "distinct (map sr_ID (t_Subtasks t))"
  shows "\<exists>s input. find_result t sid = Some s \<and> InputForSubtask customProfiles i sid m = Some input \<and>
    (\<forall>d \<in> set (sr_DependsOn s). \<exists>r \<in> set (t_Subtasks t). sr_ID r = d \<and> sr_Status r = StatusCompleted \<and>
       (\<exists>pre post. input = pre @ ''Prerequisite '' @ d @ '':'' @ newlines 1 @ trim_space (sr_Output r) @ newlines 2 @ post))"
  using assms(1)
proof (rule Wait_true)
  fix t' s
  assume a: "gm_get (m_tasks m) i = Some t'" "find_result t' sid = Some s"
    "list_all (\<lambda>st. st = StatusCompleted) (map snd (required_statuses t' (sr_DependsOn s)))"
  with assms have [simp]: "t' = t" by simp
  note c = required_completed [OF assms(3) a(3) [unfolded \<open>t' = t\<close>]]
  obtain input where i: "InputForSubtask customProfiles i sid m = Some input"
    and o: "\<forall>r \<in> set (t_Subtasks t). sr_ID r \<in> set (sr_DependsOn s) \<longrightarrow> shows_output input (sr_ID r) (sr_Output r)"
    using InputForSubtask_ready [OF a(1,2) [unfolded \<open>t' = t\<close>] assms(3) c(1), where customProfiles = customProfiles] c(2) by auto
  have "\<exists>r \<in> set (t_Subtasks t). sr_ID r = d \<and> sr_Status r = StatusCompleted \<and> shows_output input d (sr_Output r)"
    if "d \<in> set (sr_DependsOn s)" for d
    using c(1) [OF that] o that by blast
  with i a(2) show ?thesis by auto
qed


definition sample_chain :: "memoryStore manager" where
  "sample_chain = snd (CompleteSubtask_begin memory_ops int ''task-1'' ''a'' ''forty-two'' None
     (snd (StartSubtaskChecked memory_ops int ''task-1'' ''a''
     (snd (CreateWithGraphAndOptionsChecked memory_ops [] int ''demo'' (Some NewTaskGraph)
        [sample_assignment ''a'', (sample_assignment ''b'')\<lparr>as_Subtask := sample_node ''b'' [''a'']\<rparr>] False sample_mgr0)))))"

lemma sample_chain_facts:
  "WaitForDependencies_round (\<lambda>_. False) ''task-1'' ''b'' sample_chain = WaitReturns True"
  "map_option (\<lambda>t. distinct (map sr_ID (t_Subtasks t))) (gm_get (m_tasks sample_chain) ''task-1'') = Some True"
  by code_simp+

theorem released_subtask_has_input_witness:
  "\<exists>t s input. gm_get (m_tasks sample_chain) ''task-1'' = Some t \<and> find_result t ''b'' = Some s \<and>
     InputForSubtask [] ''task-1'' ''b'' sample_chain = Some input"
proof -
  from sample_chain_facts(2) obtain t where "gm_get (m_tasks sample_chain) ''task-1'' = Some t" "distinct (map sr_ID (t_Subtasks t))" by auto
  from released_subtask_has_input [OF sample_chain_facts(1) this, of "[]"] this show ?thesis by blast
qed

subsection \<open>The order of the history\<close>

lemma newer_irrefl [simp]: "\<not> newer a a"
  by (simp add: newer_def)

lemma newer_trans: "newer a b \<Longrightarrow> newer b c \<Longrightarrow> newer a c"
  by (auto simp: newer_def split: if_splits)

lemma newer_asym: "newer a b \<Longrightarrow> \<not> newer b a"
  using newer_trans newer_irrefl by blast

lemma newer_total: "t_ID a \<noteq> t_ID b \<Longrightarrow> newer a b \<or> newer b a"
  by (auto simp: newer_def)

lemma newer_clone [simp]: "newer (cloneTask a) b = newer a b" "newer a (cloneTask b) = newer a b"
  by (simp_all add: newer_def)

lemma mset_insert_recent [simp]: "mset (insert_recent t ts) = add_mset t (mset ts)"
  by (induction ts) auto

lemma mset_sort_recent [simp]: "mset (sort_recent ts) = mset ts"
  by (induction ts) (simp_all add: sort_recent_def)

lemma set_sort_recent [simp]: "set (sort_recent ts) = set ts"
  by (metis mset_sort_recent set_mset_mset)

lemma set_insert_recent [simp]: "set (insert_recent t ts) = insert t (set ts)"
  by (metis mset_insert_recent set_mset_mset set_mset_add_mset_insert)

lemma insert_recent_sorted:
  "sorted_wrt newer ts \<Longrightarrow> \<forall>u \<in> set ts. t_ID u \<noteq> t_ID t \<Longrightarrow> sorted_wrt newer (insert_recent t ts)"
proof (induction ts)
  case (Cons u us)
  show ?case
  proof (cases "newer u t")
    case False
    then have "newer t u" using newer_total Cons.prems(2) by (metis list.set_intros(1))
    with Cons.prems(1) False show ?thesis using newer_trans by auto
  qed (use Cons in auto)
qed simp

lemma sort_recent_sorted: "distinct (map t_ID ts) \<Longrightarrow> sorted_wrt newer (sort_recent ts)"
proof (induction ts)
  case (Cons t ts)
  then have "sorted_wrt newer (sort_recent ts)" "\<forall>u \<in> set (sort_recent ts). t_ID u \<noteq> t_ID t"
    by (auto simp del: set_sort_recent simp: set_sort_recent [of ts] image_iff)
  then show ?case using insert_recent_sorted by (simp add: sort_recent_def)
qed (simp add: sort_recent_def)

lemma insert_recent_map: "map cloneTask (insert_recent t ts) = insert_recent (cloneTask t) (map cloneTask ts)"
  by (induction ts) auto

lemma sort_recent_map: "sort_recent (map cloneTask ts) = map cloneTask (sort_recent ts)"
  by (induction ts) (simp_all add: sort_recent_def insert_recent_map)

subsection \<open>The cache of recent tasks is coherent\<close>

definition history :: "'s manager \<Rightarrow> task list" where
  "history m = sort_recent (map snd (m_tasks m))"

definition cache_inv :: "'s manager \<Rightarrow> bool" where
  "cache_inv m \<longleftrightarrow> (m_recentTasksValid m \<longrightarrow> m_recentTasks m = map t_ID (history m))"

text \<open>Changes of tasks and reads of the history interleave in any order.\<close>

inductive history_step :: "'s store_ops \<Rightarrow> profiles \<Rightarrow> 's manager \<Rightarrow> 's manager \<Rightarrow> bool" for ops customProfiles where
  change: "mgr_step ops customProfiles m m' \<Longrightarrow> history_step ops customProfiles m m'"
| read_recent: "history_step ops customProfiles m (snd (Recent limit m))"
| read_page: "history_step ops customProfiles m (snd (PageRecent bytes cursor query st limit maxBytes m))"

lemma ensure_fields [simp]:
  "m_tasks (ensureRecentTasksLocked m) = m_tasks m" "m_seq (ensureRecentTasksLocked m) = m_seq m"
  "m_recentTasksValid (ensureRecentTasksLocked m)" "history (ensureRecentTasksLocked m) = history m"
  by (simp_all add: ensureRecentTasksLocked_def history_def)

lemma cache_inv_ensure: "cache_inv m \<Longrightarrow> cache_inv (ensureRecentTasksLocked m)"
  by (auto simp: cache_inv_def ensureRecentTasksLocked_def history_def)

lemma create_drops_cache:
  "\<not> m_recentTasksValid (snd (CreateWithGraphAndOptionsChecked ops customProfiles clk description graph assignments requireApproval m))"
proof -
  have s: "\<not> m_recentTasksValid (snd (snd (persistTaskAndCheckpointLocked ops now t m)))" for now t and m :: "'a manager"
  proof -
    obtain e t1 m1 where p: "persistTaskAndCheckpointLocked ops now t m = (e, t1, m1)" using prod_cases3 by blast
    then have "\<exists>s. m1 = invalidateRecentTasksLocked (m\<lparr>m_syncSeq := gm_put (m_syncOrigin m) (next_seq m) (m_syncSeq m)\<rparr>)\<lparr>m_store := s\<rparr>"
      by (auto simp: persistTaskAndCheckpointLocked_def stamp_eq dest: save_locked_cases)
    with p show ?thesis by (auto simp: invalidateRecentTasksLocked_def)
  qed
  show ?thesis
    unfolding CreateWithGraphAndOptionsChecked_def Let_def using s
    by (auto simp: invalidateRecentTasksLocked_def split: option.splits prod.splits) (metis snd_conv)+
qed

lemma cache_inv_change:
  assumes "mgr_step ops customProfiles m m'" "cache_inv m"
  shows "cache_inv m'"
  using assms(1)
proof (cases rule: mgr_step_cases)
  case (create clk description graph assignments requireApproval)
  then show ?thesis by (simp add: cache_inv_def create_drops_cache)
next
  case stepped
  show ?thesis
  proof (cases "m' = m")
    case False
    with stepped show ?thesis by (rule stepped_wrote) (simp add: cache_inv_def wrote_def)
  qed (use assms(2) in simp)
next
  case (finalizer fin)
  with assms(2) show ?thesis by (simp add: cache_inv_def SetFinalizer_def history_def)
qed

lemma mgr_inv_ensure: "mgr_inv m \<Longrightarrow> mgr_inv (ensureRecentTasksLocked m)"
  by (erule mgr_inv_same) simp_all

lemma history_step_inv:
  assumes "history_step ops customProfiles m m'" "mgr_inv m \<and> cache_inv m"
  shows "mgr_inv m' \<and> cache_inv m'"
  using assms
  by (cases rule: history_step.cases)
    (auto simp: Recent_def PageRecent_def Let_def intro: mgr_step_inv [THEN conjunct1] cache_inv_change mgr_inv_ensure cache_inv_ensure)

lemma history_steps_inv:
  "(history_step ops customProfiles)\<^sup>*\<^sup>* m m' \<Longrightarrow> mgr_inv m \<and> cache_inv m \<Longrightarrow> mgr_inv m' \<and> cache_inv m'"
  by (induction rule: rtranclp_induct) (use history_step_inv in blast)+

lemma cache_inv_new: "cache_inv (newManager n store fin)"
  by (simp add: cache_inv_def newManager_def)

lemma mgr_inv_distinct: "mgr_inv m \<Longrightarrow> distinct (map t_ID (map snd (m_tasks m)))"
proof -
  assume i: "mgr_inv m"
  then have "map (t_ID \<circ> snd) (m_tasks m) = map fst (m_tasks m)"
    by (auto simp: mgr_inv_def gm_get_in [symmetric])
  with i show ?thesis unfolding map_map by (simp only: mgr_inv_def gm_wf_def)
qed

lemma history_sorted: "mgr_inv m \<Longrightarrow> sorted_wrt newer (history m)"
  unfolding history_def by (rule sort_recent_sorted [OF mgr_inv_distinct])

lemma history_get: "mgr_inv m \<Longrightarrow> t \<in> set (history m) \<Longrightarrow> gm_get (m_tasks m) (t_ID t) = Some t"
  by (auto simp: history_def mgr_inv_def gm_get_in)

lemma lookup_all:
  "(\<And>t. t \<in> set ts \<Longrightarrow> gm_get m (t_ID t) = Some t) \<Longrightarrow>
     concat (map (\<lambda>i. case gm_get m i of None \<Rightarrow> [] | Some t \<Rightarrow> [t]) (map t_ID ts)) = ts"
  by (induction ts) auto

lemma recent_list_history:
  assumes "mgr_inv m" "cache_inv m"
  shows "recent_list (ensureRecentTasksLocked m) = history m"
proof -
  have "m_recentTasks (ensureRecentTasksLocked m) = map t_ID (history m)"
    using cache_inv_ensure [OF assms(2)] by (simp add: cache_inv_def)
  moreover have "gm_get (m_tasks m) (t_ID t) = Some t" if "t \<in> set (history m)" for t
    using that assms(1) by (rule history_get [rotated])
  ultimately show ?thesis by (simp add: recent_list_def lookup_all del: map_map)
qed

lemma All_history: "All m = map cloneTask (history m)"
  by (simp add: All_def history_def sort_recent_map [symmetric])


subsection \<open>Pages partition the history\<close>

abbreviation cursor_of :: "task \<Rightarrow> page_cursor" where
  "cursor_of t \<equiv> \<lparr>pc_UpdatedAt = t_UpdatedAt t, pc_ID = t_ID t\<rparr>"

lemma follows_newer: "taskFollowsCursor t (cursor_of u) = newer u t"
  by (auto simp: taskFollowsCursor_def newer_def)

text \<open>The length of a JSON array of the tasks without its brackets.\<close>

definition page_bytes :: "(task \<Rightarrow> tm_error + int) \<Rightarrow> task list \<Rightarrow> int" where
  "page_bytes bytes ts = sum_list (map (\<lambda>t. projr (bytes t)) ts) + int (length ts - 1)"

lemma page_bytes_Nil [simp]: "page_bytes bytes [] = 0"
  by (simp add: page_bytes_def)

lemma page_bytes_snoc: "page_bytes bytes (ts @ [t]) = page_bytes bytes ts + projr (bytes t) + (if ts = [] then 0 else 1)"
  by (cases ts) (simp_all add: page_bytes_def)

lemma page_loop_correct:
  assumes "page_loop bytes wants limit maxBytes ts (page_bytes bytes ds) page = Inr p"
    and "tp_Items page = map cloneTask ds" "\<not> tp_HasMore page" "length ds \<le> limit"
    and "0 < maxBytes \<longrightarrow> page_bytes bytes ds \<le> maxBytes"
  shows "\<exists>xs ys. filter wants ts = xs @ ys \<and> tp_Items p = map cloneTask (ds @ xs) \<and> (tp_HasMore p \<longleftrightarrow> ys \<noteq> []) \<and>
    tp_NextCursor p = (if xs = [] then tp_NextCursor page else cursor_of (last xs)) \<and> length (ds @ xs) \<le> limit \<and>
    (0 < maxBytes \<longrightarrow> page_bytes bytes (ds @ xs) \<le> maxBytes) \<and> (0 < limit \<longrightarrow> ds @ xs = [] \<longrightarrow> ys = [])"
  using assms
proof (induction ts arbitrary: ds page)
  case (Cons t ts)
  show ?case
  proof (cases "wants t")
    case False
    with Cons.prems(1) have "page_loop bytes wants limit maxBytes ts (page_bytes bytes ds) page = Inr p" by simp
    from Cons.IH [OF this Cons.prems(2-5)] False show ?thesis by simp
  next
    case w: True
    let ?page = "page\<lparr>tp_Items := tp_Items page @ [cloneTask t], tp_NextCursor := cursor_of t\<rparr>"
    consider (full) "p = page\<lparr>tp_HasMore := True\<rparr>" "limit = 0 \<or> ds \<noteq> []"
      | (add) "page_loop bytes wants limit maxBytes ts (page_bytes bytes (ds @ [t])) ?page = Inr p" "length ds < limit"
          "0 < maxBytes \<longrightarrow> page_bytes bytes (ds @ [t]) \<le> maxBytes"
    proof -
      obtain b where b: "length ds \<noteq> limit \<longrightarrow> bytes t = Inr b"
        using Cons.prems(1,2) w by (cases "length ds = limit"; cases "bytes t") auto
      have e: "page_bytes bytes (ds @ [t]) = page_bytes bytes ds + b + (if ds = [] then 0 else 1)" if "length ds \<noteq> limit"
        using b that by (simp add: page_bytes_snoc)
      show thesis
        using that Cons.prems w b e by (auto simp: Let_def algebra_simps split: if_splits)
    qed
    then show ?thesis
    proof cases
      case full
      with Cons.prems w show ?thesis by (intro exI [of _ "[]"] exI [of _ "t # filter wants ts"]) auto
    next
      case add
      have "tp_Items ?page = map cloneTask (ds @ [t])" "\<not> tp_HasMore ?page" "length (ds @ [t]) \<le> limit"
        using Cons.prems(2,3) add(2) by simp_all
      from Cons.IH [OF add(1) this add(3)] obtain xs ys where
        "filter wants ts = xs @ ys" "tp_Items p = map cloneTask ((ds @ [t]) @ xs)" "tp_HasMore p \<longleftrightarrow> ys \<noteq> []"
        "tp_NextCursor p = (if xs = [] then tp_NextCursor ?page else cursor_of (last xs))" "length ((ds @ [t]) @ xs) \<le> limit"
        "0 < maxBytes \<longrightarrow> page_bytes bytes ((ds @ [t]) @ xs) \<le> maxBytes" by blast
      with w show ?thesis by (intro exI [of _ "t # xs"] exI [of _ ys]) simp
    qed
  qed
qed auto


definition matching :: "string \<Rightarrow> status option \<Rightarrow> 's manager \<Rightarrow> task list" where
  "matching query status m = filter (page_wants None (to_lower (trim_space query)) status) (history m)"

definition remaining :: "page_cursor option \<Rightarrow> string \<Rightarrow> status option \<Rightarrow> 's manager \<Rightarrow> task list" where
  "remaining cursor query status m =
     filter (\<lambda>t. case cursor of None \<Rightarrow> True | Some c \<Rightarrow> taskFollowsCursor t c) (matching query status m)"

lemma remaining_wants:
  "remaining cursor query status m = filter (page_wants cursor (to_lower (trim_space query)) status) (history m)"
  by (auto simp: remaining_def matching_def page_wants_def intro!: filter_cong)

lemma PageRecent_loop:
  assumes "mgr_inv m" "cache_inv m"
  shows "fst (PageRecent bytes cursor query status limit maxBytes m) =
    page_loop bytes (page_wants cursor (to_lower (trim_space query)) status) (if limit \<le> 0 then 50 else nat limit) maxBytes (history m) 0 empty_page"
  using recent_list_history [OF assms] by (simp add: PageRecent_def Let_def)

lemma sorted_suffix: "sorted_wrt newer (xs @ ys) \<Longrightarrow> xs \<noteq> [] \<Longrightarrow> filter (newer (last xs)) (xs @ ys) = ys"
proof -
  assume s: "sorted_wrt newer (xs @ ys)" and n: "xs \<noteq> []"
  have "filter (newer (last xs)) xs = []"
  proof -
    obtain zs z where xs: "xs = zs @ [z]" using n by (metis rev_exhaust)
    with s show ?thesis using newer_asym by (auto simp: sorted_wrt_append filter_empty_conv)
  qed
  moreover have "filter (newer (last xs)) ys = ys"
    using s n by (auto simp: sorted_wrt_append filter_id_conv)
  ultimately show ?thesis by simp
qed

lemma remaining_next:
  assumes "mgr_inv m" "remaining cursor query status m = xs @ ys" "xs \<noteq> []"
  shows "remaining (Some (cursor_of (last xs))) query status m = ys"
proof -
  let ?f = "\<lambda>t. case cursor of None \<Rightarrow> True | Some c \<Rightarrow> taskFollowsCursor t c"
  have s: "sorted_wrt newer (matching query status m)"
    using history_sorted [OF assms(1)] by (simp add: matching_def sorted_wrt_filter)
  have "last xs \<in> set (remaining cursor query status m)" using assms(2,3) by simp
  then have l: "?f (last xs)" by (simp add: remaining_def)
  have "?f t" if "newer (last xs) t" for t
    using l that by (cases cursor) (auto simp: taskFollowsCursor_def newer_def split: if_splits)
  then have "filter (newer (last xs)) (matching query status m) = filter (newer (last xs)) (remaining cursor query status m)"
    by (auto simp: remaining_def intro!: filter_cong)
  also have "\<dots> = ys" unfolding assms(2)
    by (rule sorted_suffix [OF _ assms(3)]) (use s assms(2) in \<open>metis remaining_def sorted_wrt_filter\<close>)
  finally show ?thesis by (simp add: remaining_def follows_newer)
qed

text \<open>One page: a prefix of what remains, within both limits, and a cursor for the rest.\<close>

lemma PageRecent_page:
  assumes "mgr_inv m" "cache_inv m" "fst (PageRecent bytes cursor query status limit maxBytes m) = Inr p"
  obtains xs ys where "remaining cursor query status m = xs @ ys" "tp_Items p = map cloneTask xs" "tp_HasMore p \<longleftrightarrow> ys \<noteq> []"
    "length xs \<le> (if limit \<le> 0 then 50 else nat limit)" "0 < maxBytes \<longrightarrow> page_bytes bytes xs \<le> maxBytes"
    "ys \<noteq> [] \<longrightarrow> xs \<noteq> [] \<and> remaining (Some (tp_NextCursor p)) query status m = ys"
proof -
  from assms(3) have "page_loop bytes (page_wants cursor (to_lower (trim_space query)) status)
      (if limit \<le> 0 then 50 else nat limit) maxBytes (history m) (page_bytes bytes []) empty_page = Inr p"
    by (simp add: PageRecent_loop [OF assms(1,2)])
  from page_loop_correct [OF this] obtain xs ys where r: "remaining cursor query status m = xs @ ys"
    and i: "tp_Items p = map cloneTask xs" "tp_HasMore p \<longleftrightarrow> ys \<noteq> []" "xs \<noteq> [] \<longrightarrow> tp_NextCursor p = cursor_of (last xs)"
      "length xs \<le> (if limit \<le> 0 then 50 else nat limit)" "0 < maxBytes \<longrightarrow> page_bytes bytes xs \<le> maxBytes" "xs = [] \<longrightarrow> ys = []"
    by (auto simp: empty_page_def remaining_wants split: if_splits)
  with remaining_next [OF assms(1) r] that show thesis by metis
qed

text \<open>A client that follows the cursors.\<close>

fun walk_pages ::
  "nat \<Rightarrow> (task \<Rightarrow> tm_error + int) \<Rightarrow> page_cursor option \<Rightarrow> string \<Rightarrow> status option \<Rightarrow> int \<Rightarrow> int \<Rightarrow> 's manager \<Rightarrow>
     (tm_error + task list) option" where
  "walk_pages 0 bytes cursor query status limit maxBytes m = None"
| "walk_pages (Suc fuel) bytes cursor query status limit maxBytes m =
     (case PageRecent bytes cursor query status limit maxBytes m of
        (Inl e, _) \<Rightarrow> Some (Inl e)
      | (Inr p, m') \<Rightarrow>
          if tp_HasMore p then
            map_option (map_sum id ((@) (tp_Items p))) (walk_pages fuel bytes (Some (tp_NextCursor p)) query status limit maxBytes m')
          else Some (Inr (tp_Items p)))"

lemma page_loop_no_error:
  assumes "\<forall>t \<in> set ts. \<exists>b. bytes t = Inr b \<and> (0 < maxBytes \<longrightarrow> b \<le> maxBytes)"
  shows "\<exists>p. page_loop bytes wants limit maxBytes ts used page = Inr p"
  using assms by (induction ts arbitrary: used page) (auto simp: Let_def)

lemma PageRecent_state:
  "snd (PageRecent bytes cursor query status limit maxBytes m) = ensureRecentTasksLocked m"
  by (simp add: PageRecent_def Let_def)

lemma remaining_ensure [simp]: "remaining cursor query status (ensureRecentTasksLocked m) = remaining cursor query status m"
  by (simp add: remaining_def matching_def)

lemma walk_pages_correct:
  assumes "mgr_inv m" "cache_inv m" "\<forall>t \<in> set (history m). \<exists>b. bytes t = Inr b \<and> (0 < maxBytes \<longrightarrow> b \<le> maxBytes)"
    and "length (remaining cursor query status m) < fuel"
  shows "walk_pages fuel bytes cursor query status limit maxBytes m = Some (Inr (map cloneTask (remaining cursor query status m)))"
  using assms
proof (induction fuel arbitrary: cursor m)
  case (Suc fuel)
  obtain p where p: "fst (PageRecent bytes cursor query status limit maxBytes m) = Inr p"
    using page_loop_no_error [OF Suc.prems(3)] by (metis PageRecent_loop [OF Suc.prems(1,2)])
  then have q: "PageRecent bytes cursor query status limit maxBytes m = (Inr p, ensureRecentTasksLocked m)"
    by (metis PageRecent_state prod.collapse)
  from Suc.prems(1,2) p obtain xs ys where r: "remaining cursor query status m = xs @ ys" "tp_Items p = map cloneTask xs"
    "tp_HasMore p \<longleftrightarrow> ys \<noteq> []" "ys \<noteq> [] \<longrightarrow> xs \<noteq> [] \<and> remaining (Some (tp_NextCursor p)) query status m = ys"
    by (rule PageRecent_page)
  show ?case
  proof (cases "ys = []")
    case False
    with r Suc.prems(4) have "length ys < fuel" by (cases xs) auto
    with False have "walk_pages fuel bytes (Some (tp_NextCursor p)) query status limit maxBytes (ensureRecentTasksLocked m) =
        Some (Inr (map cloneTask ys))"
      using Suc.IH [of "ensureRecentTasksLocked m" "Some (tp_NextCursor p)"] Suc.prems r
      by (auto simp: mgr_inv_ensure cache_inv_ensure)
    with False q r show ?thesis by simp
  qed (use q r in simp)
qed simp


lemma page_wants_clone [simp]: "page_wants cursor query status (cloneTask t) = page_wants cursor query status t"
  by (simp add: page_wants_def taskFollowsCursor_def taskMatchesQuery_def Let_def list_ex_iff cloneTask_def clone_result_def split: option.splits)

lemma matching_All: "map cloneTask (matching query status m) = filter (page_wants None (to_lower (trim_space query)) status) (All m)"
  by (simp add: matching_def All_history filter_map comp_def)

lemma history_reachable:
  "(history_step ops customProfiles)\<^sup>*\<^sup>* (newManager n store fin) m \<Longrightarrow> mgr_inv m \<and> cache_inv m"
  using history_steps_inv mgr_inv_new cache_inv_new by blast

text \<open>C16: following the cursors of \<^verbatim>\<open>PageRecent\<close> from the start ends and returns every task that
  matches the query and the status exactly once, in the order of \<^verbatim>\<open>All\<close>, when each task fits a page;
  one more page than there are tasks is enough.\<close>

theorem history_pages_enumerate:
  assumes "(history_step ops customProfiles)\<^sup>*\<^sup>* (newManager n store fin) m"
    and "\<forall>(i, t) \<in> set (m_tasks m). \<exists>b. bytes t = Inr b \<and> (0 < maxBytes \<longrightarrow> b \<le> maxBytes)"
  shows "walk_pages (Suc (length (m_tasks m))) bytes None query status limit maxBytes m =
    Some (Inr (filter (page_wants None (to_lower (trim_space query)) status) (All m)))"
proof -
  have i: "mgr_inv m" "cache_inv m" using history_reachable [OF assms(1)] by simp_all
  have l: "length (history m) = length (m_tasks m)"
    by (metis history_def length_map mset_sort_recent size_mset)
  have "\<forall>t \<in> set (history m). \<exists>b. bytes t = Inr b \<and> (0 < maxBytes \<longrightarrow> b \<le> maxBytes)"
    using assms(2) by (fastforce simp: history_def)
  moreover have "remaining None query status m = matching query status m" by (simp add: remaining_def)
  moreover have "length (matching query status m) < Suc (length (m_tasks m))"
    using l length_filter_le [of _ "history m"] by (simp add: matching_def less_Suc_eq_le)
  ultimately show ?thesis
    using walk_pages_correct [OF i, of bytes maxBytes None query status "Suc (length (m_tasks m))" limit] by (simp add: matching_All)
qed

text \<open>A page holds current tasks that match, newest first, no more of them than the limit, and
  no more bytes than \<^verbatim>\<open>maxBytes\<close> with the separators counted; a page that promises more is not empty.\<close>

theorem page_respects_limits:
  assumes "(history_step ops customProfiles)\<^sup>*\<^sup>* (newManager n store fin) m"
    and "fst (PageRecent bytes cursor query status limit maxBytes m) = Inr p"
  shows "\<exists>xs. tp_Items p = map cloneTask xs \<and> sorted_wrt newer xs \<and> length xs \<le> (if limit \<le> 0 then 50 else nat limit) \<and>
    (0 < maxBytes \<longrightarrow> page_bytes bytes xs \<le> maxBytes) \<and> (tp_HasMore p \<longrightarrow> xs \<noteq> []) \<and>
    (\<forall>t \<in> set xs. gm_get (m_tasks m) (t_ID t) = Some t \<and> page_wants cursor (to_lower (trim_space query)) status t)"
proof -
  have i: "mgr_inv m" "cache_inv m" using history_reachable [OF assms(1)] by simp_all
  from i assms(2) obtain xs ys where r: "remaining cursor query status m = xs @ ys" "tp_Items p = map cloneTask xs" "tp_HasMore p \<longleftrightarrow> ys \<noteq> []"
    "length xs \<le> (if limit \<le> 0 then 50 else nat limit)" "0 < maxBytes \<longrightarrow> page_bytes bytes xs \<le> maxBytes"
    "ys \<noteq> [] \<longrightarrow> xs \<noteq> [] \<and> remaining (Some (tp_NextCursor p)) query status m = ys"
    by (rule PageRecent_page)
  have "sorted_wrt newer (xs @ ys)"
    using history_sorted [OF i(1)] by (metis r(1) remaining_wants sorted_wrt_filter)
  then have s: "sorted_wrt newer xs" by (simp add: sorted_wrt_append)
  have "t \<in> set (remaining cursor query status m)" if "t \<in> set xs" for t using that r(1) by simp
  then have "\<forall>t \<in> set xs. gm_get (m_tasks m) (t_ID t) = Some t \<and> page_wants cursor (to_lower (trim_space query)) status t"
    using history_get [OF i(1)] by (simp add: remaining_wants)
  with s r show ?thesis by (intro exI [of _ xs]) simp
qed


lemma mgr_runs_history: "mgr_runs ops customProfiles m m' \<Longrightarrow> (history_step ops customProfiles)\<^sup>*\<^sup>* m m'"
  by (induction rule: rtranclp_induct) (auto intro: rtranclp.rtrancl_into_rtrancl change)

lemma sample_history: "(history_step memory_ops [])\<^sup>*\<^sup>* (newManager 1 (Some NewMemoryStore) False) sample_mgr3"
  using mgr_runs_history [OF sample_runs(2)] by (simp add: sample_mgr0_def)


theorem history_pages_enumerate_witness:
  "walk_pages (Suc (length (m_tasks sample_mgr3))) (\<lambda>_. Inr 10) None ''a'' None 1 100 sample_mgr3 =
     Some (Inr (filter (page_wants None (to_lower (trim_space ''a'')) None) (All sample_mgr3)))"
  by (rule history_pages_enumerate [OF sample_history]) simp

theorem page_respects_limits_witness:
  "\<exists>p xs. fst (PageRecent (\<lambda>_. Inr 10) None [] None 1 100 sample_mgr3) = Inr p \<and> tp_Items p = map cloneTask xs \<and>
     length xs \<le> 1 \<and> page_bytes (\<lambda>_. Inr 10) xs \<le> 100"
proof -
  have "mgr_inv sample_mgr3" "cache_inv sample_mgr3" using history_reachable [OF sample_history] by simp_all
  then obtain p where p: "fst (PageRecent (\<lambda>_. Inr 10) None [] None 1 100 sample_mgr3) = Inr p"
    using page_loop_no_error [of "history sample_mgr3" "\<lambda>_. Inr 10" 100] by (force simp: PageRecent_loop)
  from page_respects_limits [OF sample_history this] p show ?thesis by auto
qed

end
