(* ===== verification/Task_Recovery.thy ===== *)
theory Task_Recovery
  imports Task_Query
begin

text \<open>
  Start of a manager on a store (\<^verbatim>\<open>recovery.go\<close>): the stored tasks are loaded, work that a
  previous process left unfinished is marked as failed and resumable, and what changed is
  written back. The store of the manager is any implementation of \<^verbatim>\<open>Store\<close>. A clock reading
  is named by the place of the loop at which it is taken. The contract of a store that does
  not fail extends the contract of a store; under it every change of a manager is written
  through, so that a crash loses nothing that was completed.
\<close>

subsection \<open>Loading\<close>

datatype reading =
    AtAttempt nat nat nat \<comment> \<open>task, subtask and attempt\<close>
  | AtInterrupt nat
  | AtHistory nat
  | AtCheckpoint nat

type_synonym recovery_clock = "reading \<Rightarrow> time"

definition restarted_attempt :: "time \<Rightarrow> dispatch_attempt \<Rightarrow> dispatch_attempt" where
  "restarted_attempt now a =
     a\<lparr>da_Status := DispatchAttemptFailed, da_FailureClass := ''orchestrator_restart'',
       da_Error := ''orchestrator restarted before the attempt result was recorded'',
       da_FinishedAt := Some now, da_DurationMs := max 0 (milliseconds (now - da_StartedAt a))\<rparr>"

definition recover_attempt :: "time \<Rightarrow> string \<Rightarrow> string \<Rightarrow> dispatch_attempt \<Rightarrow> dispatch_attempt" where
  "recover_attempt now taskID subtaskID a =
     (let a1 = clone_attempt taskID subtaskID a
      in if da_Status a1 = DispatchAttemptRunning then restarted_attempt now a1 else a1)"

definition attempt_changes :: "dispatch_attempt \<Rightarrow> bool" where
  "attempt_changes a \<longleftrightarrow> da_RequestID a = [] \<or> da_Status a = DispatchAttemptRunning"

definition recover_result :: "(nat \<Rightarrow> time) \<Rightarrow> string \<Rightarrow> subtask_result \<Rightarrow> subtask_result" where
  "recover_result clk taskID s =
     s\<lparr>sr_Attempts := map (\<lambda>(j, a). recover_attempt (clk j) taskID (sr_ID s) a) (enumerate 0 (sr_Attempts s))\<rparr>"

definition recover_attempts :: "recovery_clock \<Rightarrow> nat \<Rightarrow> task \<Rightarrow> task" where
  "recover_attempts clk n t =
     t\<lparr>t_Subtasks := map (\<lambda>(i, s). recover_result (\<lambda>j. clk (AtAttempt n i j)) (t_ID t) s) (enumerate 0 (t_Subtasks t))\<rparr>"

definition attemptHistoryChanged :: "task \<Rightarrow> bool" where
  "attemptHistoryChanged t \<longleftrightarrow> list_ex (\<lambda>s. list_ex attempt_changes (sr_Attempts s)) (t_Subtasks t)"

definition live_status :: "status \<Rightarrow> bool" where
  "live_status s \<longleftrightarrow> s = StatusPending \<or> s = StatusRunning \<or> s = StatusSynthesis"

definition fail_open :: "string \<Rightarrow> subtask_result \<Rightarrow> subtask_result" where
  "fail_open err s = (if sr_open s then s\<lparr>sr_Status := StatusFailed, sr_Error := err\<rparr> else s)"

definition interruptedTaskError :: string where
  "interruptedTaskError = ''orchestrator restarted before the task completed''"

text \<open>The status of a loaded task, before its origin and sequence.\<close>

definition settle_loaded :: "time \<Rightarrow> task \<Rightarrow> task" where
  "settle_loaded now t =
     (if live_status (t_Status t) then
        t\<lparr>t_Status := StatusFailed, t_Error := interruptedTaskError, t_Resumable := True,
          t_Subtasks := map (fail_open interruptedTaskError) (t_Subtasks t), t_UpdatedAt := now, t_cancelled := True\<rparr>
      else if t_Status t = StatusAwaitingApproval then t\<lparr>t_Resumable := True\<rparr>
      else if t_Status t = StatusCancelled \<or> t_Status t = StatusFailed then
        t\<lparr>t_Resumable := t_Resumable t \<or> list_ex (\<lambda>s. sr_Status s = StatusCompleted) (t_Subtasks t), t_cancelled := True\<rparr>
      else t\<lparr>t_cancelled := True\<rparr>)"

text \<open>The first contact with the origin and sequence of a loaded task.\<close>

definition adopt_sequence :: "task \<Rightarrow> 's manager \<Rightarrow> task \<times> 's manager" where
  "adopt_sequence t m =
     (if t_Origin t = [] \<or> t_Sequence t = 0 then
        (let (n, m1) = nextSyncSequenceLocked (m_syncOrigin m) m in (t\<lparr>t_Origin := m_syncOrigin m, t_Sequence := n\<rparr>, m1))
      else if gm_get0 (m_syncSeq m) (t_Origin t) < t_Sequence t
      then (t, m\<lparr>m_syncSeq := gm_put (t_Origin t) (t_Sequence t) (m_syncSeq m)\<rparr>)
      else (t, m))"

definition restamp_local :: "task \<Rightarrow> 's manager \<Rightarrow> task \<times> 's manager" where
  "restamp_local t m =
     (let (n, m1) = nextSyncSequenceLocked (m_syncOrigin m) m in (t\<lparr>t_Origin := m_syncOrigin m, t_Sequence := n\<rparr>, m1))"

definition register_task :: "task \<Rightarrow> 's manager \<Rightarrow> 's manager" where
  "register_task t m =
     m\<lparr>m_tasks := gm_put (t_ID t) t (m_tasks m), m_seq := max (m_seq m) (taskSequence (t_ID t))\<rparr>"

text \<open>
  One round of the loading loop. The identifiers of stored tasks are distinct, so the maps
  \<^verbatim>\<open>interrupted\<close> and \<^verbatim>\<open>metadataChanged\<close> are flags of the loaded task.
\<close>

record loaded =
  ld_task :: task
  ld_interrupted :: bool
  ld_metadataChanged :: bool

definition load_task :: "recovery_clock \<Rightarrow> nat \<Rightarrow> task \<Rightarrow> 's manager \<Rightarrow> (tm_error + loaded) \<times> 's manager" where
  "load_task clk n t0 m0 =
     (if t_ID t0 = [] then (Inl StoredTaskNoID, m0)
      else
        (let unsequenced = (t_Origin t0 = [] \<or> t_Sequence t0 = 0);
             (t1, m1) = adopt_sequence (t0\<lparr>t_cancelled := False, t_changed := 0\<rparr>) m0;
             changed = attemptHistoryChanged t1;
             interrupted = live_status (t_Status t1);
             t2 = settle_loaded (clk (AtInterrupt n)) (recover_attempts clk n t1);
             t3 = (if changed \<and> \<not> interrupted then t2\<lparr>t_UpdatedAt := clk (AtHistory n)\<rparr> else t2);
             (t4, m2) = (if interrupted \<or> changed then restamp_local t3 m1 else (t3, m1))
         in (Inr \<lparr>ld_task = t4, ld_interrupted = interrupted,
                  ld_metadataChanged = (\<not> interrupted \<and> (unsequenced \<or> changed))\<rparr>,
             register_task t4 m2)))"

fun load_tasks :: "recovery_clock \<Rightarrow> nat \<Rightarrow> task list \<Rightarrow> 's manager \<Rightarrow> (tm_error + loaded list) \<times> 's manager" where
  "load_tasks clk n [] m = (Inr [], m)"
| "load_tasks clk n (t # ts) m =
     (case load_task clk n t m of
        (Inl e, m1) \<Rightarrow> (Inl e, m1)
      | (Inr l, m1) \<Rightarrow>
          (case load_tasks clk (Suc n) ts m1 of
             (Inl e, m2) \<Rightarrow> (Inl e, m2)
           | (Inr ls, m2) \<Rightarrow> (Inr (l # ls), m2)))"

text \<open>The second loop writes back; \<^verbatim>\<open>checkpointForTask\<close> changes the task through its pointer.\<close>

fun save_loaded ::
  "'s store_ops \<Rightarrow> recovery_clock \<Rightarrow> nat \<Rightarrow> loaded list \<Rightarrow> 's \<Rightarrow> 's manager \<Rightarrow> tm_error option \<times> 's \<times> 's manager" where
  "save_loaded ops clk n [] s m = (None, s, m)"
| "save_loaded ops clk n (l # ls) s m =
     (if ld_interrupted l then
        (let (cp, t) = checkpointForTask (clk (AtCheckpoint n)) (ld_task l);
             m1 = put_task (t_ID t) t m
         in case saveTaskAndCheckpoint ops t cp s of
              (Some e, s1) \<Rightarrow> (Some e, s1, m1)
            | (None, s1) \<Rightarrow> save_loaded ops clk (Suc n) ls s1 m1)
      else if ld_metadataChanged l then
        (case so_Save ops (ld_task l) s of
           (Some e, s1) \<Rightarrow> (Some e, s1, m)
         | (None, s1) \<Rightarrow> save_loaded ops clk (Suc n) ls s1 m)
      else save_loaded ops clk (Suc n) ls s m)"

definition load :: "'s store_ops \<Rightarrow> recovery_clock \<Rightarrow> 's \<Rightarrow> 's manager \<Rightarrow> tm_error option \<times> 's manager" where
  "load ops clk s m =
     (case so_Load ops s of
        Inl e \<Rightarrow> (Some e, m)
      | Inr tasks \<Rightarrow>
          (case load_tasks clk 0 tasks m of
             (Inl e, m1) \<Rightarrow> (Some e, m1)
           | (Inr ls, m1) \<Rightarrow>
               (case save_loaded ops clk 0 ls s m1 of
                  (e, s', m2) \<Rightarrow> (e, m2\<lparr>m_store := Some s'\<rparr>))))"

definition NewManagerWithStore ::
  "'s store_ops \<Rightarrow> recovery_clock \<Rightarrow> nat \<Rightarrow> 's \<Rightarrow> bool \<Rightarrow> tm_error + 's manager" where
  "NewManagerWithStore ops clk syncID store finalizer =
     (case load ops clk store (newManager syncID (Some store) finalizer) of
        (Some e, _) \<Rightarrow> Inl e
      | (None, m) \<Rightarrow> Inr m)"

text \<open>Opening the database is an argument, because it is outside of the modelled code.\<close>

definition OpenManagerWithOrigin ::
  "(string \<Rightarrow> tm_error + 's) \<Rightarrow> 's store_ops \<Rightarrow> recovery_clock \<Rightarrow> nat \<Rightarrow> string \<Rightarrow> bool \<Rightarrow> string \<Rightarrow> tm_error + 's manager" where
  "OpenManagerWithOrigin openBoltStore ops clk syncID path finalizer origin =
     (if path = [] then Inl PathRequired
      else case openBoltStore path of
             Inl e \<Rightarrow> Inl e
           | Inr store \<Rightarrow>
               (let m = newManager syncID (Some store) finalizer;
                    m1 = (if origin \<noteq> [] then m\<lparr>m_syncOrigin := origin\<rparr> else m)
                in case load ops clk store m1 of
                     (Some e, _) \<Rightarrow> Inl e
                   | (None, m2) \<Rightarrow> Inr m2))"

definition SetSyncOrigin :: "string \<Rightarrow> 's manager \<Rightarrow> 's manager" where
  "SetSyncOrigin origin m =
     (if origin = [] then m
      else (let m1 = m\<lparr>m_syncOrigin := origin\<rparr>
            in foldl (\<lambda>m (_, t). if t_Origin t = origin \<and> gm_get0 (m_syncSeq m) origin < t_Sequence t
                                 then m\<lparr>m_syncSeq := gm_put origin (t_Sequence t) (m_syncSeq m)\<rparr> else m)
                 m1 (m_tasks m1)))"

subsection \<open>What recovery does to one task\<close>

lemma find_distinct: "distinct (map f xs) \<Longrightarrow> x \<in> set xs \<Longrightarrow> find (\<lambda>y. f y = f x) xs = Some x"
  by (induction xs) auto

lemma find_absent: "i \<notin> f ` set xs \<Longrightarrow> find (\<lambda>y. f y = i) xs = None"
  by (auto simp: find_None_iff)

lemma list_all2_enumerate:
  "(\<And>i x. R (g x) (f i x)) \<Longrightarrow> list_all2 R (map g xs) (map (\<lambda>(i, x). f i x) (enumerate n xs))"
  by (induction xs arbitrary: n) auto

lemma list_all_enumerate: "(\<And>i x. x \<in> set xs \<Longrightarrow> P (f i x)) \<Longrightarrow> list_all P (map (\<lambda>(i, x). f i x) (enumerate n xs))"
  by (induction xs arbitrary: n) auto

lemma map_enumerate: "(\<And>i x. g (f i x) = h x) \<Longrightarrow> map g (map (\<lambda>(i, x). f i x) (enumerate n xs)) = map h xs"
  by (induction xs arbitrary: n) auto

lemma recover_attempt_fields [simp]:
  "da_Number (recover_attempt now i j a) = da_Number a" "da_Status (recover_attempt now i j a) \<noteq> DispatchAttemptRunning"
  by (simp_all add: recover_attempt_def restarted_attempt_def Let_def)

lemma attempts_keep_recover:
  "attempts_keep (map (clone_attempt i j) as) (map (\<lambda>(k, a). recover_attempt (clk k) i j a) (enumerate 0 as))"
  by (auto simp: attempts_keep_def nth_enumerate_eq recover_attempt_def Let_def)

lemma result_keep_recover: "result_keep (clone_result i s) (recover_result clk i s)"
  by (simp add: result_keep_def recover_result_def attempts_keep_recover)

lemma recover_result_fields [simp]:
  "sr_Status (recover_result clk i s) = sr_Status s" "sr_Assignment (recover_result clk i s) = sr_Assignment s"
  "sr_Output (recover_result clk i s) = sr_Output s"
  by (simp_all add: recover_result_def)

lemma attempts_ok_recover: "attempts_ok (sr_Attempts (recover_result clk i s)) = attempts_ok (sr_Attempts s)"
  by (simp add: attempts_ok_def recover_result_def map_enumerate [where h = da_Number] del: map_map)

abbreviation no_running_attempt :: "subtask_result \<Rightarrow> bool" where
  "no_running_attempt s \<equiv> list_all (\<lambda>a. da_Status a \<noteq> DispatchAttemptRunning) (sr_Attempts s)"

lemma recover_result_settled: "no_running_attempt (recover_result clk i s)"
  unfolding recover_result_def by (simp add: list_all_enumerate del: map_map)

lemma recover_attempts_fields [simp]:
  "t_ID (recover_attempts clk n t) = t_ID t" "t_Status (recover_attempts clk n t) = t_Status t"
  "t_Result (recover_attempts clk n t) = t_Result t"
  by (simp_all add: recover_attempts_def)

lemma recover_attempts_evolves: "evolves (cloneTask t) (recover_attempts clk n t)"
  unfolding evolves_def using list_all2_enumerate [of result_keep "clone_result (t_ID t)"]
  by (simp add: recover_attempts_def result_keep_recover)

lemma recover_attempts_inv: "task_inv t \<Longrightarrow> task_inv (recover_attempts clk n t)"
  unfolding task_inv_def recover_attempts_fields
  by (auto simp: recover_attempts_def attempts_ok_recover list_all_iff in_set_enumerate_eq intro!: nth_mem)

lemma recover_attempts_settled: "list_all no_running_attempt (t_Subtasks (recover_attempts clk n t))"
  unfolding recover_attempts_def by (simp add: list_all_enumerate recover_result_settled del: map_map)

lemma fail_open_fields [simp]:
  "sr_Assignment (fail_open e s) = sr_Assignment s" "sr_Attempts (fail_open e s) = sr_Attempts s" "\<not> sr_open (fail_open e s)"
  by (auto simp: fail_open_def)

lemma result_keep_fail_open: "result_keep s (fail_open e s)"
  by (auto simp: result_keep_def fail_open_def)

lemma settle_loaded_ID [simp]: "t_ID (settle_loaded now t) = t_ID t"
  by (simp add: settle_loaded_def)

lemma settle_loaded_evolves: "evolves t (settle_loaded now t)"
  by (auto simp: evolves_def settle_loaded_def live_status_def list.rel_refl intro: list_all2_map_self result_keep_fail_open)

lemma settle_loaded_settled:
  "list_all no_running_attempt (t_Subtasks t) \<Longrightarrow> list_all no_running_attempt (t_Subtasks (settle_loaded now t))"
  by (auto simp: settle_loaded_def list_all_iff)

lemma settle_loaded_status:
  "\<not> live_status (t_Status (settle_loaded now t))"
  "live_status (t_Status t) \<Longrightarrow> t_Status (settle_loaded now t) = StatusFailed \<and> t_Resumable (settle_loaded now t)"
  "\<not> live_status (t_Status t) \<Longrightarrow> t_Status (settle_loaded now t) = t_Status t"
  by (auto simp: settle_loaded_def live_status_def)

lemma allowed_fail_open: "allowed st (sr_Status s) \<Longrightarrow> live_status st \<Longrightarrow> allowed StatusFailed (sr_Status (fail_open e s))"
  by (cases st) (auto simp: fail_open_def live_status_def)

lemma settle_loaded_inv:
  assumes "task_inv t"
  shows "task_inv (settle_loaded now t)"
proof (cases "live_status (t_Status t)")
  case True
  then have "task_inv (t\<lparr>t_Status := StatusFailed, t_Subtasks := map (fail_open e) (t_Subtasks t)\<rparr>)" for e
    using assms allowed_fail_open [of "t_Status t" _ e] by (fastforce simp: task_inv_def list_all_iff)
  with True show ?thesis by (simp add: settle_loaded_def task_inv_def)
next
  case False
  with assms show ?thesis by (auto simp: settle_loaded_def task_inv_def)
qed

text \<open>The summary of a recovered task: what the loops over all tasks carry along.\<close>

definition recovered_as :: "task \<Rightarrow> task \<Rightarrow> bool" where
  "recovered_as t t' \<longleftrightarrow> t_ID t' = t_ID t \<and> t_ID t \<noteq> [] \<and> \<not> live_status (t_Status t') \<and>
     list_all no_running_attempt (t_Subtasks t') \<and> evolves (cloneTask t) t' \<and> (task_inv t \<longrightarrow> task_inv t') \<and>
     (if live_status (t_Status t) then t_Status t' = StatusFailed \<and> t_Resumable t' else t_Status t' = t_Status t)"

lemma recovered_as_restamp:
  "recovered_as t (t'\<lparr>t_Origin := x, t_Sequence := y\<rparr>) = recovered_as t t'"
  "recovered_as t (t'\<lparr>t_UpdatedAt := z\<rparr>) = recovered_as t t'"
  by (simp_all add: recovered_as_def evolves_def task_inv_def)

lemma recovered_as_durable: "recovered_as (durable t) t' = recovered_as t t'"
  by (simp add: recovered_as_def evolves_def task_inv_def)

lemma recovered_as_from_restamp:
  "recovered_as (t\<lparr>t_Origin := x, t_Sequence := y\<rparr>) t' = recovered_as t t'"
  by (simp add: recovered_as_def evolves_def task_inv_def)

lemma recovered_settled:
  assumes "t_ID t \<noteq> []"
  shows "recovered_as t (settle_loaded now (recover_attempts clk n t))"
  unfolding recovered_as_def
  using assms settle_loaded_status [where t = "recover_attempts clk n t" and now = now]
    evolves_trans [OF recover_attempts_evolves [of t clk n] settle_loaded_evolves [of _ now]]
  by (auto simp: settle_loaded_status(1) intro: settle_loaded_inv recover_attempts_inv settle_loaded_settled recover_attempts_settled)

lemma adopt_sequence_fields:
  assumes "adopt_sequence t m = (t1, m1)"
  shows "\<exists>x y. t1 = t\<lparr>t_Origin := x, t_Sequence := y\<rparr>" "m_tasks m1 = m_tasks m" "m_seq m1 = m_seq m" "m_store m1 = m_store m"
proof -
  have e: "t = t\<lparr>t_Origin := t_Origin t, t_Sequence := t_Sequence t\<rparr>" by simp
  from assms show "\<exists>x y. t1 = t\<lparr>t_Origin := x, t_Sequence := y\<rparr>"
    unfolding adopt_sequence_def nextSyncSequenceLocked_def Let_def using e by (auto split: if_splits) (metis e)+
  from assms show "m_tasks m1 = m_tasks m" "m_seq m1 = m_seq m" "m_store m1 = m_store m"
    by (auto simp: adopt_sequence_def nextSyncSequenceLocked_def Let_def split: if_splits)
qed

lemma load_task_ok:
  assumes "load_task clk n t m = (Inr l, m')"
  shows "recovered_as t (ld_task l)" "m_tasks m' = gm_put (t_ID t) (ld_task l) (m_tasks m)"
    "m_seq m' = max (m_seq m) (taskSequence (t_ID t))" "m_store m' = m_store m" "ld_interrupted l = live_status (t_Status t)"
proof -
  obtain t1 m1 where a: "adopt_sequence (t\<lparr>t_cancelled := False, t_changed := 0\<rparr>) m = (t1, m1)" by fastforce
  from adopt_sequence_fields [OF a] obtain x y where t1: "t1 = (durable t)\<lparr>t_Origin := x, t_Sequence := y\<rparr>"
    and m1: "m_tasks m1 = m_tasks m" "m_seq m1 = m_seq m" "m_store m1 = m_store m" by (auto simp: durable_def)
  have n: "t_ID t \<noteq> []" using assms by (auto simp: load_task_def)
  let ?t = "settle_loaded (clk (AtInterrupt n)) (recover_attempts clk n t1)"
  have r: "recovered_as t ?t"
    using recovered_settled [of t1 "clk (AtInterrupt n)" clk n] n by (simp add: t1 recovered_as_from_restamp recovered_as_durable)
  from assms a n have "recovered_as t (ld_task l) \<and> m' = register_task (ld_task l) m1 \<or>
      (\<exists>s. recovered_as t (ld_task l) \<and> m' = register_task (ld_task l) (m1\<lparr>m_syncSeq := s\<rparr>))"
    using r by (auto simp: load_task_def Let_def restamp_local_def nextSyncSequenceLocked_def recovered_as_restamp split: if_splits)
  then show "recovered_as t (ld_task l)" "m_tasks m' = gm_put (t_ID t) (ld_task l) (m_tasks m)"
    "m_seq m' = max (m_seq m) (taskSequence (t_ID t))" "m_store m' = m_store m"
    using m1 by (auto simp: register_task_def recovered_as_def)
  show "ld_interrupted l = live_status (t_Status t)"
    using assms a n t1 by (auto simp: load_task_def Let_def split: prod.splits)
qed

lemma load_tasks_ok:
  assumes "load_tasks clk n ts m = (Inr ls, m')" "distinct (map t_ID ts)"
  shows "list_all2 (\<lambda>t l. recovered_as t (ld_task l) \<and> ld_interrupted l = live_status (t_Status t)) ts ls \<and> m_store m' = m_store m \<and> m_seq m \<le> m_seq m' \<and>
    (gm_wf (m_tasks m) \<longrightarrow> gm_wf (m_tasks m')) \<and> (\<forall>t \<in> set ts. taskSequence (t_ID t) \<le> m_seq m') \<and>
    (\<forall>i. gm_get (m_tasks m') i = (case find (\<lambda>t. t_ID t = i) (map ld_task ls) of Some t \<Rightarrow> Some t | None \<Rightarrow> gm_get (m_tasks m) i))"
  using assms
proof (induction ts arbitrary: n m ls)
  case (Cons t ts)
  from Cons.prems(1) obtain l ls1 m1 where l: "load_task clk n t m = (Inr l, m1)"
    and r: "load_tasks clk (Suc n) ts m1 = (Inr ls1, m')" and ls: "ls = l # ls1"
    by (auto split: prod.splits sum.splits)
  note a = load_task_ok [OF l]
  have IH: "list_all2 (\<lambda>t l. recovered_as t (ld_task l) \<and> ld_interrupted l = live_status (t_Status t)) ts ls1 \<and> m_store m' = m_store m1 \<and> m_seq m1 \<le> m_seq m' \<and>
    (gm_wf (m_tasks m1) \<longrightarrow> gm_wf (m_tasks m')) \<and> (\<forall>t \<in> set ts. taskSequence (t_ID t) \<le> m_seq m') \<and>
    (\<forall>i. gm_get (m_tasks m') i = (case find (\<lambda>t. t_ID t = i) (map ld_task ls1) of Some t \<Rightarrow> Some t | None \<Rightarrow> gm_get (m_tasks m1) i))"
    using Cons.IH [OF r] Cons.prems(2) by simp
  then have "map t_ID (map ld_task ls1) = map t_ID ts"
    by (auto simp: list_all2_conv_all_nth recovered_as_def intro: nth_equalityI)
  with Cons.prems(2) have "t_ID t \<notin> set (map t_ID (map ld_task ls1))" by (simp del: map_map set_map)
  then have "find (\<lambda>u. t_ID u = t_ID t) (map ld_task ls1) = None" by (force simp: find_None_iff)
  with IH a show ?case unfolding ls by (auto simp: recovered_as_def split: option.splits)
qed simp

definition final_task :: "loaded \<Rightarrow> task" where
  "final_task l = (if ld_interrupted l then snd (checkpointForTask 0 (ld_task l)) else ld_task l)"

lemma checkpoint_task_clock: "snd (checkpointForTask now t) = snd (checkpointForTask 0 t)"
  by (simp add: checkpointForTask_def Let_def)

lemma final_task_ID [simp]: "t_ID (final_task l) = t_ID (ld_task l)"
  by (simp add: final_task_def)

lemma recovered_as_final: "recovered_as t (ld_task l) \<Longrightarrow> ld_interrupted l = live_status (t_Status t) \<Longrightarrow> recovered_as t (final_task l)"
  by (auto simp: recovered_as_def final_task_def checkpointForTask_def Let_def evolves_def task_inv_def)

abbreviation kept_final :: "loaded \<Rightarrow> 's manager \<Rightarrow> 's manager" where
  "kept_final l m \<equiv> (if ld_interrupted l then put_task (t_ID (ld_task l)) (final_task l) m else m)"

abbreviation save_final :: "'s store_ops \<Rightarrow> time \<Rightarrow> loaded \<Rightarrow> 's \<Rightarrow> tm_error option \<times> 's" where
  "save_final ops now l s \<equiv>
     (if ld_interrupted l then saveTaskAndCheckpoint ops (final_task l) (fst (checkpointForTask now (ld_task l))) s
      else if ld_metadataChanged l then so_Save ops (final_task l) s else (None, s))"

lemma save_loaded_Cons:
  "save_loaded ops clk n (l # ls) s m =
     (case save_final ops (clk (AtCheckpoint n)) l s of
        (Some e, s1) \<Rightarrow> (Some e, s1, kept_final l m)
      | (None, s1) \<Rightarrow> save_loaded ops clk (Suc n) ls s1 (kept_final l m))"
proof (cases "ld_interrupted l")
  case True
  then have "snd (checkpointForTask (clk (AtCheckpoint n)) (ld_task l)) = final_task l"
    by (simp add: final_task_def checkpoint_task_clock [of "clk (AtCheckpoint n)"])
  then obtain cp where "checkpointForTask (clk (AtCheckpoint n)) (ld_task l) = (cp, final_task l)" by (metis prod.collapse)
  with True show ?thesis by (simp add: Let_def prod.case_distrib cong: prod.case_cong option.case_cong)
qed (simp add: final_task_def)

lemma save_loaded_manager:
  assumes "save_loaded ops clk n ls s m = (None, s', m')" "distinct (map (\<lambda>l. t_ID (ld_task l)) ls)"
    and "\<forall>l \<in> set ls. gm_get (m_tasks m) (t_ID (ld_task l)) = Some (ld_task l)"
  shows "m_seq m' = m_seq m \<and> (gm_wf (m_tasks m) \<longrightarrow> gm_wf (m_tasks m')) \<and>
    (\<forall>l \<in> set ls. gm_get (m_tasks m') (t_ID (ld_task l)) = Some (final_task l)) \<and>
    (\<forall>i. i \<notin> (\<lambda>l. t_ID (ld_task l)) ` set ls \<longrightarrow> gm_get (m_tasks m') i = gm_get (m_tasks m) i)"
  using assms
proof (induction ls arbitrary: n s m)
  case (Cons l ls)
  let ?m = "kept_final l m"
  obtain s1 where "save_loaded ops clk (Suc n) ls s1 ?m = (None, s', m')"
    using Cons.prems(1) unfolding save_loaded_Cons by (cases "save_final ops (clk (AtCheckpoint n)) l s") (auto split: option.splits)
  moreover have "\<forall>k \<in> set ls. gm_get (m_tasks ?m) (t_ID (ld_task k)) = Some (ld_task k)"
  proof
    fix k assume k: "k \<in> set ls"
    with Cons.prems(2) have "t_ID (ld_task k) \<noteq> t_ID (ld_task l)" by (auto simp: image_iff)
    with k Cons.prems(3) show "gm_get (m_tasks ?m) (t_ID (ld_task k)) = Some (ld_task k)" by (simp add: put_task_def)
  qed
  moreover have "gm_get (m_tasks ?m) (t_ID (ld_task l)) = Some (final_task l)"
    using Cons.prems(3) by (auto simp: put_task_def final_task_def)
  ultimately show ?case using Cons.IH [of "Suc n" s1 ?m] Cons.prems(2) by (auto simp: put_task_def split: if_splits)
qed simp

lemma loaded_all:
  assumes "load_tasks clk 0 ts m = (Inr ls, m1)" "distinct (map t_ID ts)" "m_tasks m = []"
  shows "map (\<lambda>l. t_ID (ld_task l)) ls = map t_ID ts"
    "\<forall>l \<in> set ls. gm_get (m_tasks m1) (t_ID (ld_task l)) = Some (ld_task l)"
    "\<And>i. i \<notin> t_ID ` set ts \<Longrightarrow> gm_get (m_tasks m1) i = None"
proof -
  note a = load_tasks_ok [OF assms(1,2)]
  show ids: "map (\<lambda>l. t_ID (ld_task l)) ls = map t_ID ts"
    using a by (auto simp: list_all2_conv_all_nth recovered_as_def intro: nth_equalityI)
  have g: "gm_get (m_tasks m1) i = find (\<lambda>t. t_ID t = i) (map ld_task ls)" for i
    using a assms(3) by (simp split: option.splits)
  have d: "map t_ID (map ld_task ls) = map t_ID ts" using ids by (simp add: comp_def)
  then show "\<forall>l \<in> set ls. gm_get (m_tasks m1) (t_ID (ld_task l)) = Some (ld_task l)"
    using find_distinct [of t_ID "map ld_task ls"] assms(2) g by simp
  show "gm_get (m_tasks m1) i = None" if "i \<notin> t_ID ` set ts" for i
    using that find_absent [of i t_ID "map ld_task ls"] g arg_cong [OF d, of set] by (simp add: image_image)
qed

text \<open>A successful start: every stored task is there, settled, and nothing else is.\<close>

lemma load_recovers:
  assumes "load ops clk s m = (None, m')" "so_Load ops s = Inr ts" "distinct (map t_ID ts)" "m_tasks m = []"
  shows "gm_wf (m_tasks m')" "\<forall>t \<in> set ts. taskSequence (t_ID t) \<le> m_seq m'"
    "\<forall>t \<in> set ts. \<exists>t'. gm_get (m_tasks m') (t_ID t) = Some t' \<and> recovered_as t t'"
    "\<forall>i t'. gm_get (m_tasks m') i = Some t' \<longrightarrow> (\<exists>t \<in> set ts. t_ID t = i)"
proof -
  from assms(1,2) obtain ls m1 s' m2 where l: "load_tasks clk 0 ts m = (Inr ls, m1)"
    and sv: "save_loaded ops clk 0 ls s m1 = (None, s', m2)" and m': "m' = m2\<lparr>m_store := Some s'\<rparr>"
    by (auto simp: load_def split: prod.splits sum.splits)
  note a = load_tasks_ok [OF l assms(3)] and c = loaded_all [OF l assms(3,4)]
  have d: "distinct (map (\<lambda>l. t_ID (ld_task l)) ls)" using assms(3) c(1) by simp
  note b = save_loaded_manager [OF sv d c(2)]
  have b1: "gm_get (m_tasks m') (t_ID (ld_task l)) = Some (final_task l)" if "l \<in> set ls" for l using that b m' by simp
  have b2: "gm_get (m_tasks m') i = gm_get (m_tasks m1) i" if "i \<notin> (\<lambda>l. t_ID (ld_task l)) ` set ls" for i using that b m' by simp
  show "gm_wf (m_tasks m')" using a b assms(4) m' by simp
  show "\<forall>t \<in> set ts. taskSequence (t_ID t) \<le> m_seq m'" using a b m' by auto
  show "\<forall>t \<in> set ts. \<exists>t'. gm_get (m_tasks m') (t_ID t) = Some t' \<and> recovered_as t t'"
  proof
    fix t assume "t \<in> set ts"
    then obtain k where k: "k < length ts" "t = ts ! k" by (metis in_set_conv_nth)
    with a have "recovered_as t (final_task (ls ! k))" "ls ! k \<in> set ls" "t_ID (ld_task (ls ! k)) = t_ID t"
      by (auto simp: list_all2_conv_all_nth recovered_as_final) (auto simp: recovered_as_def)
    with b1 [of "ls ! k"] show "\<exists>t'. gm_get (m_tasks m') (t_ID t) = Some t' \<and> recovered_as t t'" by auto
  qed
  show "\<forall>i t'. gm_get (m_tasks m') i = Some t' \<longrightarrow> (\<exists>t \<in> set ts. t_ID t = i)"
  proof (intro allI impI)
    fix i t' assume "gm_get (m_tasks m') i = Some t'"
    then have "i \<in> set (map (\<lambda>l. t_ID (ld_task l)) ls)"
      using b2 [of i] c(3) [of i] arg_cong [OF c(1), of set] by (cases "i \<in> t_ID ` set ts") auto
    then show "\<exists>t \<in> set ts. t_ID t = i" unfolding c(1) by auto
  qed
qed

subsection \<open>Write-through\<close>

text \<open>What a restart relies on of a stored task: all but its context, channel and resumability.\<close>

definition core :: "task \<Rightarrow> task" where
  "core t = (durable (cloneTask t))\<lparr>t_Resumable := False\<rparr>"

lemma core_clone [simp]: "core (cloneTask t) = core t"
  by (simp add: core_def)

lemma core_durable [simp]: "core (durable t) = core t"
  by (simp add: core_def durable_clone [symmetric])

lemma core_fields:
  "t_ID (core t) = t_ID t" "t_Status (core t) = t_Status t" "t_Result (core t) = t_Result t"
  "t_Subtasks (core t) = map (clone_result (t_ID t)) (t_Subtasks t)"
  by (simp_all add: core_def durable_def)

lemma recover_attempts_unchanged:
  assumes "\<not> attemptHistoryChanged t"
  shows "recover_attempts clk n t = t"
proof -
  have a: "map (\<lambda>(k, a). recover_attempt (c k) i j a) (enumerate d as) = as" if "\<not> list_ex attempt_changes as" for c i j as and d :: nat
    using that by (induction as arbitrary: d) (auto simp: recover_attempt_def attempt_changes_def clone_attempt_def Let_def)
  have "map (\<lambda>(k, s). recover_result (c k) i s) (enumerate d ss) = ss" if "\<not> list_ex (\<lambda>s. list_ex attempt_changes (sr_Attempts s)) ss" for c i ss and d :: nat
    using that by (induction ss arbitrary: d) (auto simp: recover_result_def a)
  with assms show ?thesis by (simp add: recover_attempts_def attemptHistoryChanged_def)
qed

lemma settle_loaded_core: "\<not> live_status (t_Status t) \<Longrightarrow> core (settle_loaded now t) = core t"
  by (simp add: settle_loaded_def core_def durable_def cloneTask_def)

lemma load_task_unchanged:
  assumes "load_task clk n t m = (Inr l, m')" "\<not> ld_interrupted l" "\<not> ld_metadataChanged l"
  shows "core (ld_task l) = core t"
proof -
  let ?t = "t\<lparr>t_cancelled := False, t_changed := 0\<rparr>"
  obtain t1 m1 where a: "adopt_sequence ?t m = (t1, m1)" by fastforce
  from assms a have u: "\<not> (t_Origin t = [] \<or> t_Sequence t = 0)" "\<not> live_status (t_Status t1)" "\<not> attemptHistoryChanged t1"
    by (auto simp: load_task_def Let_def split: if_splits prod.splits)
  with a have t1: "t1 = ?t" by (auto simp: adopt_sequence_def split: if_splits)
  from assms(1) a u have "ld_task l = settle_loaded (clk (AtInterrupt n)) (recover_attempts clk n t1)"
    by (auto simp: load_task_def Let_def split: if_splits prod.splits)
  with u(2,3) have "core (ld_task l) = core t1" by (simp add: recover_attempts_unchanged settle_loaded_core)
  then show ?thesis by (simp add: t1 core_def durable_def cloneTask_def)
qed

lemma load_tasks_unchanged:
  "load_tasks clk n ts m = (Inr ls, m') \<Longrightarrow>
     list_all2 (\<lambda>t l. \<not> ld_interrupted l \<longrightarrow> \<not> ld_metadataChanged l \<longrightarrow> core (ld_task l) = core t) ts ls"
proof (induction ts arbitrary: n m ls)
  case (Cons t ts)
  from Cons.prems(1) obtain l ls1 m1 where l: "load_task clk n t m = (Inr l, m1)"
    and r: "load_tasks clk (Suc n) ts m1 = (Inr ls1, m')" and ls: "ls = l # ls1"
    by (auto split: prod.splits sum.splits)
  from load_task_unchanged [OF l] Cons.IH [OF r] show ?case unfolding ls by simp
qed simp

lemma load_tasks_succeeds: "\<forall>t \<in> set ts. t_ID t \<noteq> [] \<Longrightarrow> \<exists>ls m'. load_tasks clk n ts m = (Inr ls, m')"
proof (induction ts arbitrary: n m)
  case (Cons t ts)
  have "\<not> isl (fst (load_task clk n t m))" using Cons.prems by (simp add: load_task_def Let_def split: prod.split)
  then obtain l m1 where "load_task clk n t m = (Inr l, m1)" by (cases "load_task clk n t m"; cases "fst (load_task clk n t m)") auto
  moreover obtain ls m2 where "load_tasks clk (Suc n) ts m1 = (Inr ls, m2)" using Cons by fastforce
  ultimately show ?case by simp
qed simp

definition write_through :: "('s \<Rightarrow> string \<Rightarrow> task option) \<Rightarrow> ('s \<Rightarrow> bool) \<Rightarrow> 's manager \<Rightarrow> bool" where
  "write_through stored store_inv m \<longleftrightarrow> (\<exists>s. m_store m = Some s \<and> store_inv s \<and>
     (\<forall>i. map_option core (stored s i) = map_option core (gm_get (m_tasks m) i)))"

lemma recovered_as_core:
  assumes "core t = core t'" "recovered_as t u"
  shows "recovered_as t' u"
proof -
  have e: "t_ID t = t_ID t'" "t_Status t = t_Status t'" "t_Result t = t_Result t'" "map (clone_result (t_ID t)) (t_Subtasks t) = map (clone_result (t_ID t')) (t_Subtasks t')"
    using assms(1) core_fields by metis+
  have a: "attempts_ok (map (clone_attempt i j) as) = attempts_ok as" for i j as by (simp add: attempts_ok_def comp_def)
  have "task_inv v = (t_Status v \<noteq> StatusPending \<and> (\<forall>x. t_Status v \<noteq> StatusOther x) \<and>
     list_all (\<lambda>s. allowed (t_Status v) (sr_Status s) \<and> attempts_ok (sr_Attempts s)) (map (clone_result (t_ID v)) (t_Subtasks v)))" for v
    by (simp add: task_inv_def list_all_iff a)
  then have "task_inv t = task_inv t'" using e by metis
  with assms(2) e show ?thesis by (simp add: recovered_as_def evolves_def)
qed

locale reliable_store = task_store +
  assumes Load_reliable: "\<exists>ts. so_Load ops s = Inr ts"
    and Save_reliable: "t_ID t \<noteq> [] \<Longrightarrow> \<exists>s'. so_Save ops t s = (None, s')"
    and SaveBoth_reliable: "t_ID t \<noteq> [] \<Longrightarrow> cp_ID cp \<noteq> [] \<Longrightarrow> cp_TaskID cp = t_ID t \<Longrightarrow>
      \<exists>s'. saveTaskAndCheckpoint ops t cp s = (None, s')"
begin

lemma write_through_new: "store_inv s \<Longrightarrow> stored s = Map.empty \<Longrightarrow> write_through stored store_inv (newManager n (Some s) fin)"
  by (simp add: write_through_def newManager_def)

lemma persist_write_through:
  assumes w: "write_through stored store_inv m" and i: "t_ID t = i" "i \<noteq> []"
  shows "write_through stored store_inv (snd (update_persist ops i t m))"
proof -
  from w obtain s where s: "m_store m = Some s" "store_inv s" "\<And>j. map_option core (stored s j) = map_option core (gm_get (m_tasks m) j)"
    by (auto simp: write_through_def)
  let ?t = "t\<lparr>t_Origin := m_syncOrigin m, t_Sequence := next_seq m\<rparr>"
  from i obtain s' where s': "so_Save ops (cloneTask ?t) s = (None, s')" using Save_reliable [of "cloneTask ?t" s] by auto
  have e: "snd (update_persist ops i t m) = put_task i ?t
      ((invalidateRecentTasksLocked (m\<lparr>m_syncSeq := gm_put (m_syncOrigin m) (next_seq m) (m_syncSeq m)\<rparr>))\<lparr>m_store := Some s'\<rparr>)"
    using s(1) s' by (simp add: update_persist_def persistLocked_def stamp_eq invalidateRecentTasksLocked_def)
  from Save_ok [OF s(2) s'] have "store_inv s'" "stored s' = (stored s)(i \<mapsto> durable (cloneTask ?t))" using i by simp_all
  with s(3) show ?thesis unfolding write_through_def e by (simp add: put_task_def invalidateRecentTasksLocked_def)
qed

lemma checkpoint_write_through:
  assumes w: "write_through stored store_inv m" and i: "t_ID t = i" "i \<noteq> []"
    and p: "persistTaskAndCheckpointLocked ops now t m = (e, t', m')"
  shows "e = None" "write_through stored store_inv (put_task i t' m')"
proof -
  from w obtain s where s: "m_store m = Some s" "store_inv s" "\<And>j. map_option core (stored s j) = map_option core (gm_get (m_tasks m) j)"
    by (auto simp: write_through_def)
  let ?t = "t\<lparr>t_Origin := m_syncOrigin m, t_Sequence := next_seq m\<rparr>"
  obtain cp snap where c: "checkpointForTask now (cloneTask ?t) = (cp, snap)" by fastforce
  have f: "t_ID snap = i" "cp_TaskID cp = i" "cp_ID cp \<noteq> []"
    using checkpointForTask_simps [of now "cloneTask ?t"] c i by simp_all
  obtain s' where s': "saveTaskAndCheckpoint ops snap cp s = (None, s')" using SaveBoth_reliable [of snap cp s] f i by auto
  let ?m = "invalidateRecentTasksLocked (m\<lparr>m_syncSeq := gm_put (m_syncOrigin m) (next_seq m) (m_syncSeq m)\<rparr>)"
  have e: "e = None" "t' = ?t\<lparr>t_LastCheckpoint := t_LastCheckpoint snap, t_Resumable := t_Resumable snap\<rparr>" "m' = ?m\<lparr>m_store := Some s'\<rparr>"
    using p s(1) c s' by (auto simp: persistTaskAndCheckpointLocked_def stamp_eq saveTaskAndCheckpointLocked_def invalidateRecentTasksLocked_def)
  then show "e = None" by simp
  have "snap = cloneTask t'" using c e(2) by (auto simp: checkpointForTask_def Let_def cloneTask_def)
  then have k: "core snap = core t'" by simp
  from save_both [OF s(2) s'] f have "store_inv s'" "stored s' = (stored s)(i \<mapsto> durable (cloneTask snap))" by simp_all
  with s(3) k show "write_through stored store_inv (put_task i t' m')"
    unfolding write_through_def e(3) by (simp add: put_task_def invalidateRecentTasksLocked_def)
qed

lemma stepped_write_through:
  assumes s: "stepped ops m m'" and w: "write_through stored store_inv m" and inv: "mgr_inv m"
  shows "write_through stored store_inv m'"
proof -
  have i: "t_ID t' = i \<and> i \<noteq> []" if "gm_get (m_tasks m) i = Some t" "lifecycle t t'" for i t t'
    using that inv lifecycle_evolves [OF that(2)] by (auto simp: mgr_inv_def evolves_def)
  consider (same) "m' = m" | (persist) i t t' where "gm_get (m_tasks m) i = Some t" "lifecycle t t'" "m' = snd (update_persist ops i t' m)"
    | (checkpoint) i t t' now where "gm_get (m_tasks m) i = Some t" "lifecycle t t'" "m' = snd (snd (update_checkpoint ops now i t' m))"
    using s unfolding stepped_def by blast
  then show ?thesis
  proof cases
    case persist
    with i have "t_ID t' = i" "i \<noteq> []" by blast+
    then show ?thesis unfolding persist(3) by (rule persist_write_through [OF w])
  next
    case checkpoint
    obtain e u m1 where p: "persistTaskAndCheckpointLocked ops now t' m = (e, u, m1)" using prod_cases3 by blast
    from i checkpoint have "t_ID t' = i" "i \<noteq> []" by blast+
    from checkpoint_write_through(2) [OF w this p] p checkpoint(3) show ?thesis by (simp add: update_checkpoint_def)
  qed (use w in simp)
qed

lemma mgr_step_write_through:
  assumes "mgr_step ops customProfiles m m'" "write_through stored store_inv m" "mgr_inv m"
  shows "write_through stored store_inv m'"
  using assms(1)
proof (cases rule: mgr_step_cases)
  case (create clk description graph assignments requireApproval)
  let ?m = "m\<lparr>m_seq := Suc (m_seq m)\<rparr>" and ?i = "genID (Suc (m_seq m))"
  define g where "g = (if graph = None \<and> assignments \<noteq> []
    then (case TaskGraphFromSubtasks customProfiles (map as_Subtask assignments) of Inl _ \<Rightarrow> None | Inr g \<Rightarrow> Some g) else graph)"
  let ?t = "new_task clk ?i description g assignments requireApproval"
  obtain e u m1 where p: "persistTaskAndCheckpointLocked ops (clk 2) ?t ?m = (e, u, m1)" using prod_cases3 by blast
  have w: "write_through stored store_inv ?m" using assms(2) by (simp add: write_through_def)
  note c = checkpoint_write_through [OF w _ _ p, of ?i]
  then have "m' = invalidateRecentTasksLocked (put_task ?i u m1)"
    using create p unfolding CreateWithGraphAndOptionsChecked_def Let_def g_def [symmetric] by simp
  with c show ?thesis by (simp add: write_through_def invalidateRecentTasksLocked_def)
next
  case stepped
  then show ?thesis using assms(2,3) by (rule stepped_write_through)
next
  case (finalizer fin)
  with assms(2) show ?thesis by (simp add: write_through_def SetFinalizer_def)
qed

text \<open>A start writes back exactly what it changed.\<close>

lemma save_final_ok:
  assumes i: "store_inv s" and n: "t_ID (ld_task l) \<noteq> []"
  shows "\<exists>s1. save_final ops now l s = (None, s1) \<and> store_inv s1 \<and>
    stored s1 = (if ld_interrupted l \<or> ld_metadataChanged l
      then (stored s)(t_ID (ld_task l) \<mapsto> durable (cloneTask (final_task l))) else stored s)"
proof -
  let ?cp = "fst (checkpointForTask now (ld_task l))"
  have c: "cp_TaskID ?cp = t_ID (final_task l)" "cp_ID ?cp \<noteq> []" by simp_all
  obtain s1 where s1: "saveTaskAndCheckpoint ops (final_task l) ?cp s = (None, s1)"
    using SaveBoth_reliable [of "final_task l" ?cp s] n by auto
  obtain s2 where s2: "so_Save ops (final_task l) s = (None, s2)" using Save_reliable [of "final_task l" s] n by auto
  from s1 s2 save_both [OF i s1 c(1)] Save_ok [OF i s2] i show ?thesis by simp
qed

lemma save_loaded_store:
  assumes "store_inv s" "distinct (map (\<lambda>l. t_ID (ld_task l)) ls)" "\<forall>l \<in> set ls. t_ID (ld_task l) \<noteq> []"
  shows "\<exists>s' m'. save_loaded ops clk n ls s m = (None, s', m') \<and> store_inv s' \<and>
    (\<forall>l \<in> set ls. stored s' (t_ID (ld_task l)) = (if ld_interrupted l \<or> ld_metadataChanged l
       then Some (durable (cloneTask (final_task l))) else stored s (t_ID (ld_task l)))) \<and>
    (\<forall>i. i \<notin> (\<lambda>l. t_ID (ld_task l)) ` set ls \<longrightarrow> stored s' i = stored s i)"
  using assms
proof (induction ls arbitrary: n s m)
  case (Cons l ls)
  from save_final_ok [OF Cons.prems(1), of l "clk (AtCheckpoint n)"] Cons.prems(3) obtain s1
    where f: "save_final ops (clk (AtCheckpoint n)) l s = (None, s1)" and s1: "store_inv s1"
      "stored s1 = (if ld_interrupted l \<or> ld_metadataChanged l
        then (stored s)(t_ID (ld_task l) \<mapsto> durable (cloneTask (final_task l))) else stored s)" by auto
  have d: "t_ID (ld_task k) \<noteq> t_ID (ld_task l)" if "k \<in> set ls" for k using Cons.prems(2) that by (auto simp: image_iff)
  from Cons.IH [OF s1(1), of "Suc n" "kept_final l m"] Cons.prems(2,3) obtain s' m' where
    r: "save_loaded ops clk (Suc n) ls s1 (kept_final l m) = (None, s', m')" "store_inv s'"
      "\<forall>k \<in> set ls. stored s' (t_ID (ld_task k)) = (if ld_interrupted k \<or> ld_metadataChanged k
         then Some (durable (cloneTask (final_task k))) else stored s1 (t_ID (ld_task k)))"
      "\<forall>i. i \<notin> (\<lambda>l. t_ID (ld_task l)) ` set ls \<longrightarrow> stored s' i = stored s1 i" by auto
  have "t_ID (ld_task l) \<notin> (\<lambda>l. t_ID (ld_task l)) ` set ls" using Cons.prems(2) by simp
  then show ?case
    unfolding save_loaded_Cons f using r s1(2) d by (intro exI [of _ s'] exI [of _ m']) auto
qed simp

lemma load_reliable:
  assumes si: "store_inv s" and ts: "so_Load ops s = Inr ts" and ne: "\<forall>t \<in> set ts. t_ID t \<noteq> []" and e: "m_tasks m = []"
  shows "\<exists>m'. load ops clk s m = (None, m') \<and> write_through stored store_inv m'"
proof -
  from Load_ok [OF si ts] have d: "distinct (map t_ID ts)" and f: "\<And>i. stored s i = map_option durable (find (\<lambda>t. t_ID t = i) ts)" by blast+
  obtain ls m1 where l: "load_tasks clk 0 ts m = (Inr ls, m1)" using load_tasks_succeeds [OF ne] by blast
  note a = load_tasks_ok [OF l d] and un = load_tasks_unchanged [OF l] and c = loaded_all [OF l d e]
  have dl: "distinct (map (\<lambda>l. t_ID (ld_task l)) ls)" using d c(1) by simp
  have img: "(\<lambda>l. t_ID (ld_task l)) ` set ls = t_ID ` set ts" using arg_cong [OF c(1), of set] by simp
  with ne have nl: "\<forall>l \<in> set ls. t_ID (ld_task l) \<noteq> []" by (metis image_eqI image_iff)
  from save_loaded_store [OF si dl nl, of clk 0 m1] obtain s' m2 where sv: "save_loaded ops clk 0 ls s m1 = (None, s', m2)" and si': "store_inv s'"
    and st: "\<forall>l \<in> set ls. stored s' (t_ID (ld_task l)) = (if ld_interrupted l \<or> ld_metadataChanged l
       then Some (durable (cloneTask (final_task l))) else stored s (t_ID (ld_task l)))"
    and st2: "\<forall>i. i \<notin> (\<lambda>l. t_ID (ld_task l)) ` set ls \<longrightarrow> stored s' i = stored s i" by blast
  note b = save_loaded_manager [OF sv dl c(2)]
  have "map_option core (stored s' i) = map_option core (gm_get (m_tasks m2) i)" for i
  proof (cases "i \<in> t_ID ` set ts")
    case True
    then obtain k where k: "k < length ts" "i = t_ID (ts ! k)" by (auto simp: in_set_conv_nth)
    let ?l = "ls ! k"
    from k a have l: "?l \<in> set ls" "t_ID (ld_task ?l) = i" by (auto simp: list_all2_conv_all_nth recovered_as_def)
    have "stored s i = Some (durable (ts ! k))" using f [of i] find_distinct [OF d nth_mem [OF k(1)]] k(2) by simp
    moreover have "\<not> ld_interrupted ?l \<longrightarrow> \<not> ld_metadataChanged ?l \<longrightarrow> core (final_task ?l) = core (ts ! k)"
      using un k(1) by (simp add: list_all2_conv_all_nth final_task_def)
    ultimately show ?thesis using b l st by auto
  next
    case False
    moreover from this have "stored s i = None" using f find_absent by simp
    ultimately show ?thesis using st2 b c(3) img by simp
  qed
  moreover have "load ops clk s m = (None, m2\<lparr>m_store := Some s'\<rparr>)" using ts l sv by (simp add: load_def)
  ultimately show ?thesis using si' by (simp add: write_through_def)
qed

lemma restart_ok:
  assumes w: "write_through stored store_inv m" and inv: "mgr_inv m" and s: "m_store m = Some s"
  shows "\<exists>m'. NewManagerWithStore ops clk n s fin = Inr m' \<and> write_through stored store_inv m' \<and> mgr_inv m' \<and>
    (\<forall>i. rel_option recovered_as (gm_get (m_tasks m) i) (gm_get (m_tasks m') i))"
proof -
  from w s have si: "store_inv s" and st: "\<And>i. map_option core (stored s i) = map_option core (gm_get (m_tasks m) i)"
    by (auto simp: write_through_def)
  obtain ts where ts: "so_Load ops s = Inr ts" using Load_reliable by blast
  from Load_ok [OF si ts] have d: "distinct (map t_ID ts)" and f: "\<And>i. stored s i = map_option durable (find (\<lambda>t. t_ID t = i) ts)" by blast+
  have at: "map_option core (find (\<lambda>t. t_ID t = i) ts) = map_option core (gm_get (m_tasks m) i)" for i
    using st [of i] f [of i] by (simp add: option.map_comp comp_def)
  have mem: "\<exists>u. gm_get (m_tasks m) (t_ID t) = Some u \<and> core t = core u" if "t \<in> set ts" for t
    using at [of "t_ID t"] find_distinct [OF d that] by (auto simp: map_option_case split: option.splits)
  have ne: "\<forall>t \<in> set ts. t_ID t \<noteq> []" using mem inv by (fastforce simp: mgr_inv_def)
  have e: "m_tasks (newManager n (Some s) fin) = []" by (simp add: newManager_def)
  from load_reliable [OF si ts ne e] obtain m' where ld: "load ops clk s (newManager n (Some s) fin) = (None, m')"
    and w': "write_through stored store_inv m'" by blast
  note r = load_recovers [OF ld ts d e]
  have rel: "rel_option recovered_as (gm_get (m_tasks m) i) (gm_get (m_tasks m') i)" for i
  proof (cases "gm_get (m_tasks m) i")
    case None
    with at [of i] have "find (\<lambda>t. t_ID t = i) ts = None" by simp
    then have "gm_get (m_tasks m') i = None" using r(4) by (cases "gm_get (m_tasks m') i") (auto simp: find_None_iff)
    with None show ?thesis by simp
  next
    case (Some u)
    with at [of i] obtain t where "find (\<lambda>t. t_ID t = i) ts = Some t" and c: "core t = core u"
      by (auto simp: map_option_case split: option.splits)
    then have "t \<in> set ts" "t_ID t = i" using find_Some_mem by fastforce+
    then show ?thesis using r(3) Some recovered_as_core [OF c] by auto
  qed
  have "t_ID t' = i \<and> i \<noteq> [] \<and> task_inv t' \<and> taskSequence i \<le> m_seq m'" if g: "gm_get (m_tasks m') i = Some t'" for i t'
  proof -
    from rel [of i] g obtain t where "gm_get (m_tasks m) i = Some t" "recovered_as t t'" by (auto simp: option_rel_Some2)
    moreover from this inv have "t_ID t = i" "i \<noteq> []" "task_inv t" by (auto simp: mgr_inv_def)
    moreover have "taskSequence i \<le> m_seq m'" using r(2,4) g by blast
    ultimately show ?thesis by (auto simp: recovered_as_def)
  qed
  then have "mgr_inv m'" using r(1) unfolding mgr_inv_def by blast
  with ld w' rel show ?thesis by (auto simp: NewManagerWithStore_def)
qed

end

subsection \<open>A service that crashes and restarts\<close>

text \<open>
  Operations interleave in any order, and at any point between two of them the process may
  end and another one start on the store that it left.
\<close>

inductive service_step :: "'s store_ops \<Rightarrow> profiles \<Rightarrow> 's manager \<Rightarrow> 's manager \<Rightarrow> bool" for ops customProfiles where
  operate: "mgr_step ops customProfiles m m' \<Longrightarrow> service_step ops customProfiles m m'"
| restart: "m_store m = Some s \<Longrightarrow> NewManagerWithStore ops clk syncID s fin = Inr m' \<Longrightarrow> service_step ops customProfiles m m'"

lemma evolves_clone: "evolves t t' \<Longrightarrow> evolves (cloneTask t) (cloneTask t')"
proof -
  have a: "attempts_keep as bs \<Longrightarrow> attempts_keep (map f as) (map f bs)" if "\<And>a. da_Status (f a) = da_Status a" for f as bs
    using that by (auto simp: attempts_keep_def)
  have r: "result_keep s s' \<Longrightarrow> result_keep (clone_result i s) (clone_result i s')" for i s s'
    by (auto simp: result_keep_def intro: a)
  assume "evolves t t'"
  then show ?thesis unfolding evolves_def by (auto simp: list_all2_map1 list_all2_map2 elim!: list_all2_mono intro: r)
qed

context reliable_store
begin

lemma service_step_ok:
  assumes "service_step ops customProfiles m m'" "write_through stored store_inv m" "mgr_inv m" "m_seq m' < 2 ^ 31"
  shows "write_through stored store_inv m' \<and> mgr_inv m' \<and> (\<forall>i t. gm_get (m_tasks m) i = Some t \<longrightarrow>
    (\<exists>t'. gm_get (m_tasks m') i = Some t' \<and> evolves (cloneTask t) (cloneTask t')))"
  using assms(1)
proof cases
  case operate
  then show ?thesis
    using mgr_step_write_through mgr_step_inv mgr_step_evolves assms(2-4) evolves_clone by meson
next
  case (restart s clk syncID fin)
  from restart_ok [OF assms(2,3) restart(1), of clk syncID fin] restart(2) have
    r: "write_through stored store_inv m'" "mgr_inv m'" "\<forall>i. rel_option recovered_as (gm_get (m_tasks m) i) (gm_get (m_tasks m') i)" by auto
  have "\<exists>t'. gm_get (m_tasks m') i = Some t' \<and> evolves (cloneTask t) (cloneTask t')" if "gm_get (m_tasks m) i = Some t" for i t
  proof -
    from r(3) that obtain t' where "gm_get (m_tasks m') i = Some t'" "recovered_as t t'" by (metis option_rel_Some1)
    moreover from this have "evolves (cloneTask (cloneTask t)) (cloneTask t')" unfolding recovered_as_def by (blast intro: evolves_clone)
    ultimately show ?thesis by auto
  qed
  with r show ?thesis by blast
qed

lemma service_runs_ok:
  assumes "(\<lambda>m m'. service_step ops customProfiles m m' \<and> m_seq m' < 2 ^ 31)\<^sup>*\<^sup>* m m'"
    and "write_through stored store_inv m" "mgr_inv m"
  shows "write_through stored store_inv m' \<and> mgr_inv m' \<and> (\<forall>i t. gm_get (m_tasks m) i = Some t \<longrightarrow>
    (\<exists>t'. gm_get (m_tasks m') i = Some t' \<and> evolves (cloneTask t) (cloneTask t')))"
  using assms
proof (induction rule: rtranclp_induct)
  case (step m1 m2)
  then have a: "write_through stored store_inv m1" "mgr_inv m1" "\<forall>i t. gm_get (m_tasks m) i = Some t \<longrightarrow>
    (\<exists>t'. gm_get (m_tasks m1) i = Some t' \<and> evolves (cloneTask t) (cloneTask t'))" by blast+
  from service_step_ok [OF _ a(1,2)] step.hyps(2) have b: "write_through stored store_inv m2" "mgr_inv m2"
    "\<forall>i t. gm_get (m_tasks m1) i = Some t \<longrightarrow> (\<exists>t'. gm_get (m_tasks m2) i = Some t' \<and> evolves (cloneTask t) (cloneTask t'))" by blast+
  show ?case using a(3) b evolves_trans by meson
qed auto

end


subsection \<open>Properties\<close>

interpretation rmem: reliable_store memory_ops ms_stored ms_latest_of ms_inv
proof unfold_locales
  show "\<exists>ts. so_Load memory_ops s = Inr ts" for s by (simp add: memory_ops_def ms_Load_def)
  show "t_ID t \<noteq> [] \<Longrightarrow> \<exists>s'. so_Save memory_ops t s = (None, s')" for t s by (simp add: memory_ops_def ms_Save_def)
  show "t_ID t \<noteq> [] \<Longrightarrow> cp_ID cp \<noteq> [] \<Longrightarrow> cp_TaskID cp = t_ID t \<Longrightarrow>
      \<exists>s'. saveTaskAndCheckpoint memory_ops t cp s = (None, s')" for t cp s
    by (simp add: memory_ops_def saveTaskAndCheckpoint_def ms_SaveTaskAndCheckpoint_def)
qed

abbreviation service_runs :: "'s store_ops \<Rightarrow> profiles \<Rightarrow> 's manager \<Rightarrow> 's manager \<Rightarrow> bool" where
  "service_runs ops customProfiles \<equiv> (\<lambda>m m'. service_step ops customProfiles m m' \<and> m_seq m' < 2 ^ 31)\<^sup>*\<^sup>*"

lemma memory_service:
  assumes "service_runs memory_ops customProfiles (newManager n (Some NewMemoryStore) fin) m"
  shows "write_through ms_stored ms_inv m \<and> mgr_inv m"
proof -
  have "write_through ms_stored ms_inv (newManager n (Some NewMemoryStore) fin)"
    by (rule rmem.write_through_new) (auto simp: ms_inv_def ms_stored_def NewMemoryStore_def)
  from rmem.service_runs_ok [OF assms this mgr_inv_new] show ?thesis by blast
qed

definition sample_chain1 :: "memoryStore manager" where
  "sample_chain1 = snd (CreateWithGraphAndOptionsChecked memory_ops [] int ''demo'' (Some NewTaskGraph)
     [sample_assignment ''a'', (sample_assignment ''b'')\<lparr>as_Subtask := sample_node ''b'' [''a'']\<rparr>] False sample_mgr0)"

lemma sample_chain_seq: "m_seq sample_chain1 = 1" "m_seq (snd (StartSubtaskChecked memory_ops int ''task-1'' ''a'' sample_chain1)) = 1"
  "m_seq sample_chain = 1"
  "case NewManagerWithStore memory_ops (\<lambda>_. 7) 2 (the (m_store sample_chain)) False of Inl _ \<Rightarrow> False | Inr m \<Rightarrow> m_seq m = 1"
  "m_store sample_chain \<noteq> None"
  "case gm_get (m_tasks sample_chain) ''task-1'' of None \<Rightarrow> False | Some t \<Rightarrow>
     (case find_result t ''a'' of None \<Rightarrow> False | Some s \<Rightarrow> sr_Status s = StatusCompleted \<and> sr_Output s = ''forty-two'')"
  by code_simp+

lemma sample_chain_runs: "service_runs memory_ops [] (newManager 1 (Some NewMemoryStore) False) sample_chain"
proof -
  let ?m = "snd (StartSubtaskChecked memory_ops int ''task-1'' ''a'' sample_chain1)"
  have 1: "service_step memory_ops [] sample_mgr0 sample_chain1" unfolding sample_chain1_def by (intro operate step_create)
  have 2: "service_step memory_ops [] sample_chain1 ?m" by (intro operate step_start)
  have 3: "service_step memory_ops [] ?m sample_chain"
    unfolding sample_chain_def sample_chain1_def [symmetric] by (intro operate step_complete)
  have "service_runs memory_ops [] sample_mgr0 sample_chain"
    using 1 2 3 sample_chain_seq(1-3) by (intro rtranclp.rtrancl_into_rtrancl [OF rtranclp.rtrancl_into_rtrancl [OF r_into_rtranclp]]) auto
  then show ?thesis by (simp add: sample_mgr0_def)
qed





end
