(* ===== verification/Sync_Page.thy ===== *)
theory Sync_Page
  imports Prelude "HOL-Library.Product_Lexorder" "HOL-Library.Multiset"
begin

text \<open>
  Pages of a synchronisation (\<^verbatim>\<open>internal/syncpage/page.go\<close>), and the loop that splits a set of
  records into pages (\<^verbatim>\<open>SplitTasks\<close> and \<^verbatim>\<open>SplitSnapshot\<close> have the same one). A page holds the
  records that are beyond a cursor and not beyond an upper bound, both kept per origin, in the
  order of origin, sequence and key, up to a number of bytes. Encoding a record is an argument;
  the model uses the length of its result. The splitting loop is a partial function, so that
  its termination is a theorem.
\<close>

record 'a sync_record =
  rc_Value :: 'a
  rc_Origin :: string
  rc_Sequence :: uint64
  rc_Key :: string

datatype 'e page_error =
    PageEncode 'e
  | PageTooLarge string string int \<comment> \<open>key, origin and limit\<close>
  | PageNoProgress

type_synonym cursor = "(string, uint64) gomap"

subsection \<open>Records without an origin\<close>

definition legacy_record :: "'a sync_record \<Rightarrow> bool" where
  "legacy_record r \<longleftrightarrow> rc_Origin r = [] \<or> rc_Sequence r = 0"

definition number_legacy :: "'a sync_record list \<Rightarrow> 'a sync_record list" where
  "number_legacy rs =
     map (\<lambda>(index, r). r\<lparr>rc_Origin := ''legacy'', rc_Sequence := of_nat (Suc index)\<rparr>) (enumerate 0 (sort_key rc_Key rs))"

definition legacyUpper :: "cursor \<Rightarrow> 'a sync_record list \<Rightarrow> uint64" where
  "legacyUpper upper rs = foldl (\<lambda>u r. if u < rc_Sequence r then rc_Sequence r else u) (gm_get0 upper ''legacy'') (number_legacy rs)"

definition page_order :: "'a sync_record \<Rightarrow> string \<times> uint64 \<times> string" where
  "page_order r = (rc_Origin r, rc_Sequence r, rc_Key r)"

definition eligible :: "'a sync_record list \<Rightarrow> 'a sync_record list" where
  "eligible records =
     sort_key page_order (filter (\<lambda>r. \<not> legacy_record r) records @ number_legacy (filter legacy_record records))"

subsection \<open>One page\<close>

definition origin_upper :: "cursor \<Rightarrow> 'a sync_record list \<Rightarrow> string \<Rightarrow> uint64" where
  "origin_upper upper records origin =
     (if origin = ''legacy'' then legacyUpper upper (filter legacy_record records) else gm_get0 upper origin)"

fun fill_page ::
  "('a \<Rightarrow> 'e + nat) \<Rightarrow> (string \<Rightarrow> uint64) \<Rightarrow> int \<Rightarrow> 'a sync_record list \<Rightarrow> cursor \<Rightarrow> 'a list \<Rightarrow> int \<Rightarrow>
     'e page_error + 'a list \<times> cursor \<times> bool" where
  "fill_page encode upper maxBytes [] nextCursor page bytes = Inr (page, nextCursor, False)"
| "fill_page encode upper maxBytes (r # rs) nextCursor page bytes =
     (if rc_Sequence r \<le> gm_get0 nextCursor (rc_Origin r) then fill_page encode upper maxBytes rs nextCursor page bytes
      else if upper (rc_Origin r) < rc_Sequence r then fill_page encode upper maxBytes rs nextCursor page bytes
      else case encode (rc_Value r) of
             Inl e \<Rightarrow> Inl (PageEncode e)
           | Inr n \<Rightarrow>
               (let recordSize = int n + 1
                in if maxBytes < bytes + recordSize then
                     (if page = [] then Inl (PageTooLarge (rc_Key r) (rc_Origin r) maxBytes)
                      else Inr (page, nextCursor, True))
                   else fill_page encode upper maxBytes rs (gm_put (rc_Origin r) (rc_Sequence r) nextCursor)
                          (page @ [rc_Value r]) (bytes + recordSize)))"

definition Next ::
  "'a sync_record list \<Rightarrow> cursor \<Rightarrow> cursor \<Rightarrow> int \<Rightarrow> nat \<Rightarrow> ('a \<Rightarrow> 'e + nat) \<Rightarrow> 'e page_error + 'a list \<times> cursor \<times> bool" where
  "Next records cursor upper maxBytes baseBytes encode =
     fill_page encode (origin_upper upper records) maxBytes (eligible records) cursor [] (int baseBytes)"

subsection \<open>All pages\<close>

partial_function (option) split_pages ::
  "'a sync_record list \<Rightarrow> cursor \<Rightarrow> int \<Rightarrow> nat \<Rightarrow> ('a \<Rightarrow> 'e + nat) \<Rightarrow> cursor \<Rightarrow> 'a list list \<Rightarrow> ('e page_error + 'a list list) option" where
  "split_pages records upper maxBytes baseBytes encode cursor pages =
     (case Next records cursor upper maxBytes baseBytes encode of
        Inl e \<Rightarrow> Some (Inl e)
      | Inr (page, nextCursor, hasMore) \<Rightarrow>
          if \<not> hasMore then Some (Inr (pages @ [page]))
          else if page = [] then Some (Inl PageNoProgress)
          else split_pages records upper maxBytes baseBytes encode nextCursor (pages @ [page]))"

declare split_pages.simps [code]

subsection \<open>What a page holds\<close>

text \<open>The records that a cursor leaves: beyond it and within the upper bound.\<close>

definition pending :: "(string \<Rightarrow> uint64) \<Rightarrow> cursor \<Rightarrow> 'a sync_record list \<Rightarrow> 'a sync_record list" where
  "pending upper cursor rs = filter (\<lambda>r. gm_get0 cursor (rc_Origin r) < rc_Sequence r \<and> rc_Sequence r \<le> upper (rc_Origin r)) rs"

abbreviation stamp_of :: "'a sync_record \<Rightarrow> string \<times> uint64" where
  "stamp_of r \<equiv> (rc_Origin r, rc_Sequence r)"

abbreviation ascending :: "'a sync_record list \<Rightarrow> bool" where
  "ascending rs \<equiv> sorted_wrt (\<lambda>r r'. rc_Origin r = rc_Origin r' \<longrightarrow> rc_Sequence r < rc_Sequence r') rs"

definition record_bytes :: "('a \<Rightarrow> 'e + nat) \<Rightarrow> 'a list \<Rightarrow> int" where
  "record_bytes encode vs = sum_list (map (\<lambda>v. int (projr (encode v)) + 1) vs)"

lemma pending_Cons: "pending upper cursor (r # rs) =
    (if gm_get0 cursor (rc_Origin r) < rc_Sequence r \<and> rc_Sequence r \<le> upper (rc_Origin r)
     then r # pending upper cursor rs else pending upper cursor rs)"
  by (simp add: pending_def)

lemma pending_put:
  "ascending (r # rs) \<Longrightarrow> gm_get0 cursor (rc_Origin r) < rc_Sequence r \<Longrightarrow>
     pending upper (gm_put (rc_Origin r) (rc_Sequence r) cursor) rs = pending upper cursor rs"
  unfolding pending_def by (rule filter_cong) auto

lemma pending_drop:
  "rc_Sequence r \<le> gm_get0 cursor (rc_Origin r) \<Longrightarrow> pending upper cursor (r # rs) = pending upper cursor rs"
  by (simp add: pending_Cons not_less)

text \<open>
  One page of records that are in ascending order within each origin: a prefix of what is
  pending, and a cursor that leaves the rest.
\<close>

lemma fill_page_correct:
  assumes "fill_page encode upper maxBytes rs cur page bytes = Inr (page', cur', hasMore)" "ascending rs"
  shows "\<exists>xs ys. pending upper cur rs = xs @ ys \<and> page' = page @ map rc_Value xs \<and> pending upper cur' rs = ys \<and>
    (hasMore \<longleftrightarrow> ys \<noteq> []) \<and> (ys \<noteq> [] \<longrightarrow> page' \<noteq> []) \<and>
    (xs \<noteq> [] \<longrightarrow> bytes + record_bytes encode (map rc_Value xs) \<le> maxBytes) \<and> (\<forall>og. gm_get0 cur og \<le> gm_get0 cur' og)"
  using assms
proof (induction rs arbitrary: cur page bytes)
  case Nil
  then show ?case by (simp add: pending_def)
next
  case (Cons r rs)
  have asc: "ascending rs" using Cons.prems(2) by simp
  let ?wanted = "gm_get0 cur (rc_Origin r) < rc_Sequence r \<and> rc_Sequence r \<le> upper (rc_Origin r)"
  consider (skip) "\<not> ?wanted" "fill_page encode upper maxBytes rs cur page bytes = Inr (page', cur', hasMore)"
    | (full) "?wanted" "page' = page" "page \<noteq> []" "cur' = cur" "hasMore"
    | (add) n where "?wanted" "encode (rc_Value r) = Inr n" "bytes + (int n + 1) \<le> maxBytes"
      "fill_page encode upper maxBytes rs (gm_put (rc_Origin r) (rc_Sequence r) cur) (page @ [rc_Value r]) (bytes + (int n + 1)) = Inr (page', cur', hasMore)"
    using Cons.prems(1) by (auto simp: Let_def not_less not_le split: if_splits sum.splits)
  then show ?case
  proof cases
    case skip
    from Cons.IH [OF skip(2) asc] obtain xs ys where IH: "pending upper cur rs = xs @ ys" "page' = page @ map rc_Value xs"
      "pending upper cur' rs = ys" "hasMore \<longleftrightarrow> ys \<noteq> []" "ys \<noteq> [] \<longrightarrow> page' \<noteq> []"
      "xs \<noteq> [] \<longrightarrow> bytes + record_bytes encode (map rc_Value xs) \<le> maxBytes" "\<forall>og. gm_get0 cur og \<le> gm_get0 cur' og" by blast
    have "\<not> (gm_get0 cur' (rc_Origin r) < rc_Sequence r \<and> rc_Sequence r \<le> upper (rc_Origin r))"
      using skip(1) IH(7) by (meson le_less_trans)
    with IH skip(1) show ?thesis by (intro exI [of _ xs] exI [of _ ys]) (simp add: pending_Cons)
  next
    case full
    then show ?thesis by (intro exI [of _ "[]"] exI [of _ "pending upper cur (r # rs)"]) (simp add: pending_Cons)
  next
    case add
    let ?cur = "gm_put (rc_Origin r) (rc_Sequence r) cur"
    from Cons.IH [OF add(4) asc] obtain xs ys where IH: "pending upper ?cur rs = xs @ ys" "page' = page @ rc_Value r # map rc_Value xs"
      "pending upper cur' rs = ys" "hasMore \<longleftrightarrow> ys \<noteq> []" "\<forall>og. gm_get0 ?cur og \<le> gm_get0 cur' og"
      "xs \<noteq> [] \<longrightarrow> bytes + (int n + 1) + record_bytes encode (map rc_Value xs) \<le> maxBytes" by auto
    have "rc_Sequence r \<le> gm_get0 cur' (rc_Origin r)" using IH(5) by (metis gm_get0_put)
    then have "pending upper cur' (r # rs) = ys" using IH(3) by (simp add: pending_drop)
    moreover have "pending upper cur (r # rs) = r # xs @ ys" using IH(1) add(1) pending_put [OF Cons.prems(2)] by (simp add: pending_Cons)
    moreover have "gm_get0 cur og \<le> gm_get0 cur' og" for og
      using IH(5) add(1) by (metis gm_get0_put less_imp_le order_trans)
    ultimately show ?thesis using IH add(2,3) by (intro exI [of _ "r # xs"] exI [of _ ys]) (auto simp: record_bytes_def algebra_simps)
  qed
qed

text \<open>Every page advances the cursor past one of the records, so the loop ends on any input.\<close>

lemma fill_page_progress:
  "fill_page encode upper maxBytes rs cur page bytes = Inr (page', cur', hasMore) \<Longrightarrow>
     (\<forall>og. gm_get0 cur og \<le> gm_get0 cur' og) \<and> (hasMore \<longrightarrow> page' \<noteq> []) \<and>
     (page' \<noteq> page \<longrightarrow> (\<exists>r \<in> set rs. gm_get0 cur (rc_Origin r) < rc_Sequence r \<and> rc_Sequence r \<le> gm_get0 cur' (rc_Origin r)))"
proof (induction rs arbitrary: cur page bytes)
  case (Cons r rs)
  show ?case
  proof (cases "gm_get0 cur (rc_Origin r) < rc_Sequence r \<and> rc_Sequence r \<le> upper (rc_Origin r)")
    case False
    with Cons.prems have "fill_page encode upper maxBytes rs cur page bytes = Inr (page', cur', hasMore)" by (auto simp: not_le not_less split: if_splits)
    from Cons.IH [OF this] show ?thesis by auto
  next
    case True
    let ?cur = "gm_put (rc_Origin r) (rc_Sequence r) cur"
    from Cons.prems True consider (full) "page' = page" "page \<noteq> []" "cur' = cur"
      | (add) n where "fill_page encode upper maxBytes rs ?cur (page @ [rc_Value r]) (bytes + (int n + 1)) = Inr (page', cur', hasMore)"
      by (auto simp: Let_def not_less not_le split: if_splits sum.splits)
    then show ?thesis
    proof cases
      case add
      from Cons.IH [OF add] have a: "\<forall>og. gm_get0 ?cur og \<le> gm_get0 cur' og" "hasMore \<longrightarrow> page' \<noteq> []" by blast+
      have "rc_Sequence r \<le> gm_get0 cur' (rc_Origin r)" using a(1) by (metis gm_get0_put)
      moreover have "gm_get0 cur og \<le> gm_get0 cur' og" for og using a(1) True by (metis gm_get0_put less_imp_le order_trans)
      ultimately show ?thesis using True a(2) by auto
    qed auto
  qed
qed simp

abbreviation ahead :: "cursor \<Rightarrow> 'a sync_record list \<Rightarrow> nat" where
  "ahead cur rs \<equiv> length (filter (\<lambda>r. gm_get0 cur (rc_Origin r) < rc_Sequence r) rs)"

lemma length_filter_less: "(\<And>x. P x \<Longrightarrow> Q x) \<Longrightarrow> x \<in> set xs \<Longrightarrow> Q x \<Longrightarrow> \<not> P x \<Longrightarrow> length (filter P xs) < length (filter Q xs)"
proof (induction xs)
  case (Cons a xs)
  have "length (filter P ys) \<le> length (filter Q ys)" for ys using Cons.prems(1) by (induction ys) auto
  with Cons show ?case by (auto simp: less_Suc_eq_le)
qed simp

lemma Next_progress:
  assumes "Next records cur upper maxBytes base encode = Inr (page, cur', True)"
  shows "page \<noteq> []" "ahead cur' (eligible records) < ahead cur (eligible records)"
proof -
  from fill_page_progress [OF assms [unfolded Next_def]] obtain r where p: "page \<noteq> []" and m: "\<forall>og. gm_get0 cur og \<le> gm_get0 cur' og"
    and r: "r \<in> set (eligible records)" "gm_get0 cur (rc_Origin r) < rc_Sequence r" "rc_Sequence r \<le> gm_get0 cur' (rc_Origin r)" by auto
  show "page \<noteq> []" by (rule p)
  show "ahead cur' (eligible records) < ahead cur (eligible records)"
    by (rule length_filter_less [OF _ r(1)]) (use m r in \<open>auto intro: le_less_trans\<close>)
qed

lemma split_terminates:
  "\<exists>y. split_pages records upper maxBytes base encode cur pages = Some y \<and>
     (\<forall>qs. y = Inr qs \<longrightarrow> length qs \<le> length pages + ahead cur (eligible records) + 1)"
proof (induction "ahead cur (eligible records)" arbitrary: cur pages rule: less_induct)
  case less
  show ?case
  proof (cases "Next records cur upper maxBytes base encode")
    case (Inr p)
    obtain page cur' hasMore where p: "p = (page, cur', hasMore)" using prod_cases3 by blast
    show ?thesis
    proof (cases hasMore)
      case True
      with Inr p have n: "Next records cur upper maxBytes base encode = Inr (page, cur', True)" by simp
      from less [OF Next_progress(2) [OF n], of "pages @ [page]"] obtain y where
        "split_pages records upper maxBytes base encode cur' (pages @ [page]) = Some y"
        "\<forall>qs. y = Inr qs \<longrightarrow> length qs \<le> length pages + 1 + ahead cur' (eligible records) + 1" by auto
      then show ?thesis using n Next_progress [OF n] by (subst split_pages.simps) fastforce
    qed (use Inr p in \<open>subst split_pages.simps, simp\<close>)
  qed (subst split_pages.simps, simp)
qed

subsection \<open>The pages together\<close>

lemma eligible_ascending:
  assumes "distinct (map stamp_of (eligible records))"
  shows "ascending (eligible records)"
proof -
  have s: "sorted (map page_order (eligible records))" by (simp add: eligible_def)
  have "sorted_wrt (\<lambda>r r'. page_order r \<le> page_order r' \<and> stamp_of r \<noteq> stamp_of r') (eligible records)"
    using s assms by (auto simp: sorted_wrt_iff_nth_less sorted_iff_nth_mono_less distinct_conv_nth nth_eq_iff_index_eq)
  then show ?thesis by (rule sorted_wrt_mono_rel [rotated]) (auto simp: page_order_def less_eq_prod_def)
qed

lemma mset_number_legacy: "image_mset rc_Value (mset (number_legacy rs)) = image_mset rc_Value (mset rs)"
proof -
  have "map rc_Value (number_legacy rs) = map rc_Value (sort_key rc_Key rs)"
    unfolding number_legacy_def by (rule nth_equalityI) (auto simp: nth_enumerate_eq)
  then show ?thesis by (metis mset_map mset_sort)
qed

lemma mset_eligible: "mset (map rc_Value (eligible records)) = mset (map rc_Value records)"
proof -
  have "mset (filter (\<lambda>r. \<not> legacy_record r) records) + mset (filter legacy_record records) = mset records"
    by (induction records) auto
  then have "image_mset rc_Value (mset (filter (\<lambda>r. \<not> legacy_record r) records)) +
      image_mset rc_Value (mset (filter legacy_record records)) = image_mset rc_Value (mset records)"
    by (metis image_mset_union)
  then show ?thesis unfolding eligible_def by (simp add: mset_number_legacy del: mset_filter)
qed

definition fits :: "('a \<Rightarrow> 'e + nat) \<Rightarrow> int \<Rightarrow> int \<Rightarrow> 'a \<Rightarrow> bool" where
  "fits encode base maxBytes v \<longleftrightarrow> (case encode v of Inl _ \<Rightarrow> False | Inr n \<Rightarrow> base + int n + 1 \<le> maxBytes)"

lemma fill_page_ok:
  assumes "\<forall>r \<in> set rs. fits encode base maxBytes (rc_Value r)" "page = [] \<longrightarrow> bytes = base"
  shows "\<exists>q. fill_page encode upper maxBytes rs cur page bytes = Inr q"
  using assms
proof (induction rs arbitrary: cur page bytes)
  case (Cons r rs)
  then obtain n where "encode (rc_Value r) = Inr n" "base + int n + 1 \<le> maxBytes" by (auto simp: fits_def split: sum.splits)
  with Cons show ?case by (auto simp: Let_def)
qed auto

lemma split_result:
  assumes "ascending (eligible records)" "split_pages records upper maxBytes base encode cur pages = Some (Inr qs)"
  shows "\<exists>ps. qs = pages @ ps \<and> concat ps = map rc_Value (pending (origin_upper upper records) cur (eligible records)) \<and>
    (\<forall>p \<in> set ps. p \<noteq> [] \<longrightarrow> int base + record_bytes encode p \<le> maxBytes)"
  using assms
proof (induction "ahead cur (eligible records)" arbitrary: cur pages rule: less_induct)
  case less
  let ?E = "eligible records" and ?u = "origin_upper upper records"
  from less.prems(2) obtain page cur' hasMore where n: "Next records cur upper maxBytes base encode = Inr (page, cur', hasMore)"
    by (subst (asm) split_pages.simps) (auto split: sum.splits)
  from fill_page_correct [OF n [unfolded Next_def] less.prems(1)] obtain xs ys where
    c: "pending ?u cur ?E = xs @ ys" "page = map rc_Value xs" "pending ?u cur' ?E = ys" "hasMore \<longleftrightarrow> ys \<noteq> []"
      "xs \<noteq> [] \<longrightarrow> int base + record_bytes encode page \<le> maxBytes" by auto
  show ?case
  proof (cases hasMore)
    case True
    with n have n': "Next records cur upper maxBytes base encode = Inr (page, cur', True)" by simp
    note pr = Next_progress [OF n']
    have "split_pages records upper maxBytes base encode cur' (pages @ [page]) = Some (Inr qs)"
      using less.prems(2) n' pr(1) by (subst (asm) split_pages.simps) simp
    from less.hyps [OF pr(2) less.prems(1) this] obtain ps where
      "qs = (pages @ [page]) @ ps" "concat ps = map rc_Value ys" "\<forall>p \<in> set ps. p \<noteq> [] \<longrightarrow> int base + record_bytes encode p \<le> maxBytes"
      unfolding c(3) by blast
    then show ?thesis using c by (intro exI [of _ "page # ps"]) auto
  next
    case False
    with n less.prems(2) have "qs = pages @ [page]" by (subst (asm) split_pages.simps) simp
    with False c show ?thesis by (intro exI [of _ "[page]"]) auto
  qed
qed

lemma split_succeeds:
  assumes "\<forall>r \<in> set (eligible records). fits encode (int base) maxBytes (rc_Value r)"
  shows "\<exists>qs. split_pages records upper maxBytes base encode cur pages = Some (Inr qs)"
proof (induction "ahead cur (eligible records)" arbitrary: cur pages rule: less_induct)
  case less
  obtain page cur' hasMore where n: "Next records cur upper maxBytes base encode = Inr (page, cur', hasMore)"
    using fill_page_ok [OF assms, of "[]" "int base" "origin_upper upper records" cur] unfolding Next_def by auto
  show ?case
  proof (cases hasMore)
    case True
    with n have n': "Next records cur upper maxBytes base encode = Inr (page, cur', True)" by simp
    from less [OF Next_progress(2) [OF n']] n' Next_progress(1) [OF n'] show ?thesis by (subst split_pages.simps) simp
  qed (use n in \<open>subst split_pages.simps, simp\<close>)
qed

lemma foldl_max_ge:
  fixes a :: uint64
  shows "a \<le> foldl (\<lambda>u r. if u < f r then f r else u) a xs \<and> (\<forall>x \<in> set xs. f x \<le> foldl (\<lambda>u r. if u < f r then f r else u) a xs)"
proof (induction xs arbitrary: a)
  case (Cons x xs)
  from Cons [of "if a < f x then f x else a"] show ?case by (auto split: if_splits)
qed simp

lemma number_legacy_stamp:
  assumes "r \<in> set (number_legacy ls)" "length ls < 2 ^ 64"
  shows "rc_Origin r = ''legacy''" "0 < rc_Sequence r" "rc_Sequence r \<le> legacyUpper upper ls"
proof -
  from assms(1) obtain k where k: "k < length ls" "rc_Origin r = ''legacy''" "rc_Sequence r = of_nat (Suc k)"
    by (auto simp: number_legacy_def in_set_enumerate_eq)
  then show "rc_Origin r = ''legacy''" by simp
  have "unat (of_nat (Suc k) :: uint64) = Suc k" using k(1) assms(2) by (simp add: unsigned_of_nat take_bit_nat_eq_self del: of_nat_Suc)
  then show "0 < rc_Sequence r" unfolding k(3) by (metis Suc_neq_Zero unat_0 word_gt_0)
  show "rc_Sequence r \<le> legacyUpper upper ls"
    unfolding legacyUpper_def using foldl_max_ge [of "gm_get0 upper ''legacy''" rc_Sequence "number_legacy ls"] assms(1) by blast
qed

lemma pending_all:
  assumes "\<forall>r \<in> set records. \<not> legacy_record r \<longrightarrow> rc_Sequence r \<le> gm_get0 upper (rc_Origin r)" "length records < 2 ^ 64"
  shows "pending (origin_upper upper records) [] (eligible records) = eligible records"
proof -
  let ?l = "filter legacy_record records"
  have "length ?l < 2 ^ 64" using assms(2) length_filter_le [of legacy_record records] by linarith
  note l = number_legacy_stamp [OF _ this]
  have g: "gm_get0 upper ''legacy'' \<le> legacyUpper upper ?l"
    unfolding legacyUpper_def using foldl_max_ge [of "gm_get0 upper ''legacy''" rc_Sequence "number_legacy ?l"] by blast
  have "0 < rc_Sequence r \<and> rc_Sequence r \<le> origin_upper upper records (rc_Origin r)" if "r \<in> set (eligible records)" for r
  proof (cases "r \<in> set (number_legacy ?l)")
    case True
    with l [of r] show ?thesis by (simp add: origin_upper_def)
  next
    case False
    with that have "r \<in> set records" "\<not> legacy_record r" by (auto simp: eligible_def)
    with assms(1) g show ?thesis by (auto simp: origin_upper_def legacy_record_def word_gt_0 intro: order_trans)
  qed
  then show ?thesis by (simp add: pending_def filter_id_conv)
qed

subsection \<open>Properties\<close>

text \<open>Records of one origin, and one without an origin.\<close>

definition sample_records :: "string sync_record list" where
  "sample_records =
     [\<lparr>rc_Value = ''two'', rc_Origin = ''n1'', rc_Sequence = 2, rc_Key = ''k2''\<rparr>,
      \<lparr>rc_Value = ''one'', rc_Origin = ''n1'', rc_Sequence = 1, rc_Key = ''k1''\<rparr>,
      \<lparr>rc_Value = ''old'', rc_Origin = [], rc_Sequence = 0, rc_Key = ''k0''\<rparr>]"

text \<open>C19: splitting a synchronisation into pages terminates on every input, whatever the records,
  their stamps, the bound and the encoder are, and makes at most one page more than there are records.\<close>

theorem splitting_terminates:
  "\<exists>y. split_pages records upper maxBytes base encode [] [] = Some y \<and> (\<forall>qs. y = Inr qs \<longrightarrow> length qs \<le> Suc (length records))"
proof -
  have "length (eligible records) = length records" by (metis length_map mset_eligible size_mset)
  with length_filter_le [of _ "eligible records"] have "ahead [] (eligible records) \<le> length records" by metis
  then show ?thesis using split_terminates [of records upper maxBytes base encode "[]" "[]"] by fastforce
qed

theorem splitting_terminates_witness:
  "\<exists>y. split_pages sample_records [(''n1'', 2)] 10 2 (\<lambda>v. Inr (length v) :: unit + nat) [] [] = Some y \<and> (\<forall>qs. y = Inr qs \<longrightarrow> length qs \<le> 4)"
  using splitting_terminates [of sample_records "[(''n1'', 2)]" 10 2 "\<lambda>v. Inr (length v) :: unit + nat"] by (simp add: sample_records_def eval_nat_numeral)

text \<open>C20: when no two records share an origin and a sequence and each record fits a page, splitting
  returns every record exactly once, the pages ascend in sequence within each origin, and no
  page exceeds the limit of bytes.\<close>

theorem splitting_delivers_each_record_once:
  assumes "distinct (map stamp_of (eligible records))" "length records < 2 ^ 64"
    and "\<forall>r \<in> set records. \<not> legacy_record r \<longrightarrow> rc_Sequence r \<le> gm_get0 upper (rc_Origin r)"
    and "\<forall>r \<in> set records. fits encode (int base) maxBytes (rc_Value r)"
  shows "\<exists>ps. split_pages records upper maxBytes base encode [] [] = Some (Inr ps) \<and>
    mset (concat ps) = mset (map rc_Value records) \<and> concat ps = map rc_Value (eligible records) \<and> ascending (eligible records) \<and>
    (\<forall>p \<in> set ps. p \<noteq> [] \<longrightarrow> int base + record_bytes encode p \<le> maxBytes)"
proof -
  note asc = eligible_ascending [OF assms(1)]
  have "rc_Value ` set (eligible records) = rc_Value ` set records" using arg_cong [OF mset_eligible [of records], of set_mset] by simp
  with assms(4) have "\<forall>r \<in> set (eligible records). fits encode (int base) maxBytes (rc_Value r)" by (metis image_iff)
  from split_succeeds [OF this] obtain ps where p: "split_pages records upper maxBytes base encode [] [] = Some (Inr ps)" by blast
  from split_result [OF asc p] have
    "split_pages records upper maxBytes base encode [] [] = Some (Inr ps)" "concat ps = map rc_Value (eligible records)"
    "\<forall>p \<in> set ps. p \<noteq> [] \<longrightarrow> int base + record_bytes encode p \<le> maxBytes" using p pending_all [OF assms(3,2)] by auto
  then show ?thesis using mset_eligible [of records] asc by (intro exI [of _ ps]) (simp del: mset_map)
qed

theorem splitting_delivers_each_record_once_witness:
  "\<exists>ps. split_pages sample_records [(''n1'', 2)] 10 2 (\<lambda>v. Inr (length v) :: unit + nat) [] [] = Some (Inr ps) \<and>
     mset (concat ps) = {#''one'', ''two'', ''old''#}"
proof -
  have "distinct (map stamp_of (eligible sample_records))" by code_simp
  moreover have "length sample_records < 2 ^ 64" by (simp add: sample_records_def)
  moreover have "\<forall>r \<in> set sample_records. \<not> legacy_record r \<longrightarrow> rc_Sequence r \<le> gm_get0 [(''n1'', 2)] (rc_Origin r)"
    by (simp add: sample_records_def gm_get0_def)
  moreover have "\<forall>r \<in> set sample_records. fits (\<lambda>v. Inr (length v) :: unit + nat) (int 2) 10 (rc_Value r)"
    by (simp add: sample_records_def fits_def)
  ultimately show ?thesis
    using splitting_delivers_each_record_once [of sample_records "[(''n1'', 2)]" "\<lambda>v. Inr (length v) :: unit + nat" 2 10]
    by (auto simp: sample_records_def add.commute)
qed

end
