(* ===== verification/Task_Sync.thy ===== *)
theory Task_Sync
  imports Task_Recovery Sync_Page
begin

text \<open>
  Replication of tasks between a coordinator and its replicas (\<^verbatim>\<open>internal/taskmgr/sync.go\<close>):
  the three ways of taking in tasks of a peer, the order in which one copy of a task outranks
  another, and the watermarks that select what a peer has not seen. The JSON encoder that
  \<^verbatim>\<open>syncTasks\<close> uses to recognise equal tasks is an argument. A list of tasks from a peer may
  hold nil pointers, so its elements are options. Sequence numbers are 64 bit words.
\<close>

subsection \<open>Ranking of copies\<close>

definition coordinatorChangedTaskError :: string where
  "coordinatorChangedTaskError = ''coordinator changed before the task completed''"

definition isInterruptedTask :: "task \<Rightarrow> bool" where
  "isInterruptedTask t \<longleftrightarrow> t_Error t = interruptedTaskError \<or> t_Error t = coordinatorChangedTaskError"

definition completedSubtaskCount :: "task \<Rightarrow> nat" where
  "completedSubtaskCount t = length (filter (\<lambda>s. sr_Status s = StatusCompleted) (t_Subtasks t))"

fun taskStatusRank :: "status \<Rightarrow> nat" where
  "taskStatusRank StatusCompleted = 6"
| "taskStatusRank StatusAwaitingApproval = 5"
| "taskStatusRank StatusSynthesis = 4"
| "taskStatusRank StatusFailed = 3"
| "taskStatusRank StatusCancelled = 3"
| "taskStatusRank StatusRunning = 2"
| "taskStatusRank StatusPending = 1"
| "taskStatusRank (StatusOther _) = 0"

definition replicaOutranks :: "task \<Rightarrow> task \<Rightarrow> bool" where
  "replicaOutranks current incoming \<longleftrightarrow>
     (if isInterruptedTask incoming then False
      else if isInterruptedTask current then
        (if t_Origin incoming \<noteq> [] \<and> t_Origin incoming = t_Origin current \<and> t_Sequence incoming < t_Sequence current then False
         else if t_Status incoming = StatusCompleted \<or> t_Status incoming = StatusAwaitingApproval \<or>
                 t_Status incoming = StatusCancelled \<or> t_Status incoming = StatusFailed then True
         else completedSubtaskCount current < completedSubtaskCount incoming)
      else if t_Origin incoming \<noteq> [] \<and> t_Origin incoming = t_Origin current \<and> t_Sequence incoming \<noteq> t_Sequence current
      then t_Sequence current < t_Sequence incoming
      else if t_UpdatedAt current < t_UpdatedAt incoming then True
      else if t_UpdatedAt incoming = t_UpdatedAt current then
        completedSubtaskCount current < completedSubtaskCount incoming \<or>
        taskStatusRank (t_Status current) < taskStatusRank (t_Status incoming)
      else False)"

definition interruptOrphanedTask :: "time \<Rightarrow> task \<Rightarrow> task" where
  "interruptOrphanedTask now t =
     (if live_status (t_Status t) then
        t\<lparr>t_Status := StatusFailed, t_Error := coordinatorChangedTaskError, t_Resumable := True,
          t_Subtasks := map (fail_open coordinatorChangedTaskError) (t_Subtasks t), t_UpdatedAt := now\<rparr>
      else t)"

subsection \<open>Taking in the tasks of a peer\<close>

datatype sync_reading = AtMerge nat | AtOrphan nat | AtSyncCheckpoint nat

type_synonym sync_clock = "sync_reading \<Rightarrow> time"

text \<open>The state of \<^verbatim>\<open>mergeReplicaTaskSlices\<close>: the merged slice and the index of each identifier in it.\<close>

type_synonym merge_state = "task list \<times> (string, nat) gomap"

fun merge_current :: "task list \<Rightarrow> merge_state \<Rightarrow> merge_state" where
  "merge_current [] st = st"
| "merge_current (t # ts) (merged, indexByID) =
     (if t_ID t = [] then merge_current ts (merged, indexByID)
      else merge_current ts (merged @ [cloneTask t], gm_put (t_ID t) (length merged) indexByID))"

fun merge_incoming :: "sync_clock \<Rightarrow> nat \<Rightarrow> task option list \<Rightarrow> merge_state \<Rightarrow> merge_state \<times> bool list" where
  "merge_incoming clk index [] st = (st, [])"
| "merge_incoming clk index (None # ts) st =
     (case merge_incoming clk (Suc index) ts st of (st', acc) \<Rightarrow> (st', False # acc))"
| "merge_incoming clk index (Some t # ts) (merged, indexByID) =
     (let skip = (case merge_incoming clk (Suc index) ts (merged, indexByID) of (st', acc) \<Rightarrow> (st', False # acc));
          take = (\<lambda>st. case merge_incoming clk (Suc index) ts st of (st', acc) \<Rightarrow> (st', True # acc))
      in if t_ID t = [] then skip
         else case gm_get indexByID (t_ID t) of
                Some k \<Rightarrow>
                  if \<not> replicaOutranks (merged ! k) t then skip
                  else take (merged[k := cloneTask t], indexByID)
              | None \<Rightarrow>
                  take (merged @ [interruptOrphanedTask (clk (AtMerge index)) (cloneTask t)],
                        gm_put (t_ID t) (length merged) indexByID))"

definition mergeReplicaTaskSlices :: "sync_clock \<Rightarrow> task list \<Rightarrow> task option list \<Rightarrow> task list \<times> bool list" where
  "mergeReplicaTaskSlices clk current incoming =
     (case merge_incoming clk 0 incoming (merge_current current ([], [])) of ((merged, _), accepted) \<Rightarrow> (merged, accepted))"

text \<open>Which of the incoming tasks is stored, after its origin and sequence are known.\<close>

definition sync_skips ::
  "(task \<Rightarrow> string option) \<Rightarrow> bool \<Rightarrow> bool \<Rightarrow> bool \<Rightarrow> task option \<Rightarrow> task \<Rightarrow> tm_error + bool" where
  "sync_skips encode replace mergeReplicas accepted current incoming =
     (case current of
        None \<Rightarrow> Inr False
      | Some cur \<Rightarrow>
          if \<not> replace then Inr (\<not> mergeReplicas \<or> \<not> accepted)
          else if t_Origin incoming \<noteq> [] \<and> t_Origin incoming = t_Origin cur \<and> t_Sequence incoming < t_Sequence cur then Inr True
          else (case encode cur of
                  None \<Rightarrow> Inl (EncodeFailed (t_ID cur))
                | Some currentJSON \<Rightarrow>
                    (case encode incoming of
                       None \<Rightarrow> Inl (EncodeFailed (t_ID incoming))
                     | Some incomingJSON \<Rightarrow> Inr (currentJSON = incomingJSON))))"

definition adopt_incoming :: "string \<Rightarrow> task \<Rightarrow> 's manager \<Rightarrow> task \<times> 's manager" where
  "adopt_incoming sourceOrigin t m =
     (if t_Origin t = [] \<or> t_Sequence t = 0 then
        (let (n, m1) = nextSyncSequenceLocked sourceOrigin m in (t\<lparr>t_Origin := sourceOrigin, t_Sequence := n\<rparr>, m1))
      else if gm_get0 (m_syncSeq m) (t_Origin t) < t_Sequence t
      then (t, m\<lparr>m_syncSeq := gm_put (t_Origin t) (t_Sequence t) (m_syncSeq m)\<rparr>)
      else (t, m))"

text \<open>The copy that is stored: work that no coordinator runs any more is marked as interrupted.\<close>

definition prepare_incoming :: "time \<Rightarrow> bool \<Rightarrow> task \<Rightarrow> 's manager \<Rightarrow> task \<times> 's manager" where
  "prepare_incoming now adopted incoming m =
     (let t = cloneTask incoming;
          orphaned = (adopted \<and> live_status (t_Status t));
          t1 = (if adopted then interruptOrphanedTask now t else t);
          (t2, m1) = (if orphaned then restamp_local t1 m else (t1, m))
      in (t2\<lparr>t_cancelled := terminal (t_Status t2), t_changed := 0\<rparr>, m1))"

definition sync_task ::
  "'s store_ops \<Rightarrow> (task \<Rightarrow> string option) \<Rightarrow> sync_clock \<Rightarrow> bool \<Rightarrow> bool \<Rightarrow> string \<Rightarrow> nat \<Rightarrow> bool \<Rightarrow> task option \<Rightarrow>
     's manager \<Rightarrow> tm_error option \<times> 's manager" where
  "sync_task ops encode clk replace mergeReplicas sourceOrigin index accepted incoming0 m0 =
     (case incoming0 of
        None \<Rightarrow> (Some SyncTaskNoID, m0)
      | Some incoming1 \<Rightarrow>
          if t_ID incoming1 = [] then (Some SyncTaskNoID, m0)
          else
            (let (incoming, m1) = adopt_incoming sourceOrigin incoming1 m0;
                 current = gm_get (m_tasks m1) (t_ID incoming)
             in case sync_skips encode replace mergeReplicas accepted current incoming of
                  Inl e \<Rightarrow> (Some e, m1)
                | Inr True \<Rightarrow> (None, m1)
                | Inr False \<Rightarrow>
                    (let (t, m2) = prepare_incoming (clk (AtOrphan index)) (mergeReplicas \<and> current = None) incoming m1
                     in case saveTaskAndCheckpointLocked ops (clk (AtSyncCheckpoint index)) t m2 of
                          (Some e, _, m3) \<Rightarrow> (Some e, m3)
                        | (None, t', m3) \<Rightarrow> (None, invalidateRecentTasksLocked (register_task t' m3)))))"

fun sync_loop ::
  "'s store_ops \<Rightarrow> (task \<Rightarrow> string option) \<Rightarrow> sync_clock \<Rightarrow> bool \<Rightarrow> bool \<Rightarrow> string \<Rightarrow> nat \<Rightarrow> (task option \<times> bool) list \<Rightarrow>
     's manager \<Rightarrow> tm_error option \<times> 's manager" where
  "sync_loop ops encode clk replace mergeReplicas sourceOrigin index [] m = (None, m)"
| "sync_loop ops encode clk replace mergeReplicas sourceOrigin index ((t, accepted) # ts) m =
     (case sync_task ops encode clk replace mergeReplicas sourceOrigin index accepted t m of
        (Some e, m1) \<Rightarrow> (Some e, m1)
      | (None, m1) \<Rightarrow> sync_loop ops encode clk replace mergeReplicas sourceOrigin (Suc index) ts m1)"

definition syncTasks ::
  "'s store_ops \<Rightarrow> (task \<Rightarrow> string option) \<Rightarrow> sync_clock \<Rightarrow> task option list \<Rightarrow> bool \<Rightarrow> bool \<Rightarrow> string \<Rightarrow>
     's manager \<Rightarrow> tm_error option \<times> 's manager" where
  "syncTasks ops encode clk tasks replace mergeReplicas sourceOrigin m =
     (let source = (if sourceOrigin = [] then ''task:legacy'' else sourceOrigin);
          replicaAccepted = (if mergeReplicas then snd (mergeReplicaTaskSlices clk (map snd (m_tasks m)) tasks)
                             else map (\<lambda>_. False) tasks)
      in sync_loop ops encode clk replace mergeReplicas source 0 (zip tasks replicaAccepted) m)"

definition MergeMissingFrom ::
  "'s store_ops \<Rightarrow> (task \<Rightarrow> string option) \<Rightarrow> sync_clock \<Rightarrow> task option list \<Rightarrow> string \<Rightarrow> 's manager \<Rightarrow> tm_error option \<times> 's manager" where
  "MergeMissingFrom ops encode clk tasks sourceOrigin m = syncTasks ops encode clk tasks False False sourceOrigin m"

definition MergeFromReplicaFrom ::
  "'s store_ops \<Rightarrow> (task \<Rightarrow> string option) \<Rightarrow> sync_clock \<Rightarrow> task option list \<Rightarrow> string \<Rightarrow> 's manager \<Rightarrow> tm_error option \<times> 's manager" where
  "MergeFromReplicaFrom ops encode clk tasks sourceOrigin m = syncTasks ops encode clk tasks False True sourceOrigin m"

definition ReplaceFromSyncFrom ::
  "'s store_ops \<Rightarrow> (task \<Rightarrow> string option) \<Rightarrow> sync_clock \<Rightarrow> task option list \<Rightarrow> string \<Rightarrow> 's manager \<Rightarrow> tm_error option \<times> 's manager" where
  "ReplaceFromSyncFrom ops encode clk tasks sourceOrigin m = syncTasks ops encode clk tasks True False sourceOrigin m"

subsection \<open>Watermarks and snapshots\<close>

type_synonym watermarks = "(string, uint64) gomap"

definition raise_watermark :: "string \<Rightarrow> uint64 \<Rightarrow> watermarks \<Rightarrow> watermarks" where
  "raise_watermark origin sequence w =
     (if origin \<noteq> [] \<and> gm_get0 w origin < sequence then gm_put origin sequence w else w)"

definition SnapshotWatermarks :: "task list \<Rightarrow> watermarks" where
  "SnapshotWatermarks ts = foldl (\<lambda>w t. raise_watermark (t_Origin t) (t_Sequence t) w) [] ts"

definition Watermarks :: "'s manager \<Rightarrow> watermarks" where
  "Watermarks m = foldl (\<lambda>w (_, t). raise_watermark (t_Origin t) (t_Sequence t) w) [] (m_tasks m)"

definition beyond :: "watermarks \<Rightarrow> task \<Rightarrow> bool" where
  "beyond w t \<longleftrightarrow> t_Origin t = [] \<or> t_Sequence t = 0 \<or> gm_get0 w (t_Origin t) < t_Sequence t"

definition SnapshotSince :: "watermarks \<Rightarrow> 's manager \<Rightarrow> task list" where
  "SnapshotSince w m = map cloneTask (filter (beyond w) (map snd (m_tasks m)))"

definition SupportsIncrementalSync :: "int \<Rightarrow> bool" where
  "SupportsIncrementalSync version \<longleftrightarrow> 1 \<le> version \<and> version \<le> 3"

definition SnapshotAndWatermarksForPeer :: "int \<Rightarrow> watermarks \<Rightarrow> 's manager \<Rightarrow> task list \<times> watermarks" where
  "SnapshotAndWatermarksForPeer version w m =
     (let tasks = All m;
          localWatermarks = SnapshotWatermarks tasks
      in if \<not> SupportsIncrementalSync version then (tasks, localWatermarks)
         else if list_ex (\<lambda>(origin, sequence). gm_get0 localWatermarks origin < sequence) w then (tasks, localWatermarks)
         else (filter (beyond w) tasks, localWatermarks))"

definition SnapshotForPeer :: "int \<Rightarrow> watermarks \<Rightarrow> 's manager \<Rightarrow> task list" where
  "SnapshotForPeer version w m = fst (SnapshotAndWatermarksForPeer version w m)"

definition FilterTaskWatermarks :: "watermarks \<Rightarrow> watermarks" where
  "FilterTaskWatermarks w = filter (\<lambda>(origin, _). has_prefix origin ''task:'') w"

subsection \<open>Pages of tasks\<close>

definition task_record :: "task \<Rightarrow> task sync_record" where
  "task_record t = \<lparr>rc_Value = t, rc_Origin = t_Origin t, rc_Sequence = t_Sequence t, rc_Key = t_ID t\<rparr>"

definition PageTasks ::
  "(task \<Rightarrow> string option) \<Rightarrow> task list \<Rightarrow> cursor \<Rightarrow> cursor \<Rightarrow> int \<Rightarrow> unit page_error + task list \<times> cursor \<times> bool" where
  "PageTasks encode tasks cursor upper maxBytes =
     Next (map task_record tasks) cursor upper maxBytes 2
       (\<lambda>t. case encode t of None \<Rightarrow> Inl () | Some data \<Rightarrow> Inr (length data))"

definition SplitTasks :: "(task \<Rightarrow> string option) \<Rightarrow> task list \<Rightarrow> int \<Rightarrow> (unit page_error + task list list) option" where
  "SplitTasks encode tasks maxBytes =
     split_pages (map task_record tasks) (SnapshotWatermarks tasks) maxBytes 2
       (\<lambda>t. case encode t of None \<Rightarrow> Inl () | Some data \<Rightarrow> Inr (length data)) [] []"

subsection \<open>Pushing the history to a replica\<close>

text \<open>
  \<^verbatim>\<open>syncTaskHistory\<close> of the coordinator selects what a replica has not seen by the watermarks that
  the replica reported, splits it into pages and posts them one after the other
  (\<^verbatim>\<open>orchestrator/task_history_sync.go\<close>); the replica applies each page with
  \<^verbatim>\<open>ReplaceFromSyncFrom\<close> (\<^verbatim>\<open>nodeagent/task_sync.go\<close>). A request may be lost before or after the
  replica has handled it. On the way a task loses its context and channel.
\<close>

datatype delivery = Delivered | LostRequest | LostResponse

datatype push_error = PushSplit "unit page_error" | PushBodyTooLarge | PushNetwork | PushRejected tm_error

definition page_body_bytes :: "(task \<Rightarrow> string option) \<Rightarrow> task list \<Rightarrow> int" where
  "page_body_bytes encode page =
     2 + sum_list (map (\<lambda>t. case encode t of None \<Rightarrow> 0 | Some data \<Rightarrow> int (length data)) page) + int (length page - 1)"

fun post_pages ::
  "'s store_ops \<Rightarrow> (task \<Rightarrow> string option) \<Rightarrow> (nat \<Rightarrow> sync_clock) \<Rightarrow> (nat \<Rightarrow> delivery) \<Rightarrow> int \<Rightarrow> string \<Rightarrow> nat \<Rightarrow> task list list \<Rightarrow>
     's manager \<Rightarrow> push_error option \<times> 's manager" where
  "post_pages ops encode clk net maxBytes source k [] r = (None, r)"
| "post_pages ops encode clk net maxBytes source k (page # pages) r =
     (if maxBytes < page_body_bytes encode page then (Some PushBodyTooLarge, r)
      else if net k = LostRequest then (Some PushNetwork, r)
      else case ReplaceFromSyncFrom ops encode (clk k) (map (Some \<circ> durable) page) source r of
             (Some e, r1) \<Rightarrow> (Some (if net k = LostResponse then PushNetwork else PushRejected e), r1)
           | (None, r1) \<Rightarrow>
               if net k = LostResponse then (Some PushNetwork, r1)
               else post_pages ops encode clk net maxBytes source (Suc k) pages r1)"

definition push_tasks ::
  "'s store_ops \<Rightarrow> (task \<Rightarrow> string option) \<Rightarrow> (nat \<Rightarrow> sync_clock) \<Rightarrow> (nat \<Rightarrow> delivery) \<Rightarrow> int \<Rightarrow> string \<Rightarrow> int \<Rightarrow>
     'c manager \<Rightarrow> 's manager \<Rightarrow> (push_error option \<times> 's manager) option" where
  "push_tasks ops encode clk net maxBytes source version c r =
     (let tasks = SnapshotForPeer version (Watermarks r) c
      in if tasks = [] then Some (None, r)
         else map_option (\<lambda>s. case s of
                Inl e \<Rightarrow> (Some (PushSplit e), r)
              | Inr pages \<Rightarrow> post_pages ops encode clk net maxBytes source 0 pages r) (SplitTasks encode tasks maxBytes))"

subsection \<open>One incoming task\<close>

lemma adopt_incoming_fields:
  assumes "adopt_incoming source v m = (v', m')"
  shows "\<exists>og sq. v' = v\<lparr>t_Origin := og, t_Sequence := sq\<rparr>" "m_tasks m' = m_tasks m" "m_seq m' = m_seq m"
    "m_store m' = m_store m" "m_syncOrigin m' = m_syncOrigin m" "t_Origin v \<noteq> [] \<Longrightarrow> t_Sequence v \<noteq> 0 \<Longrightarrow> v' = v"
proof -
  have e: "v = v\<lparr>t_Origin := t_Origin v, t_Sequence := t_Sequence v\<rparr>" by simp
  from assms show "\<exists>og sq. v' = v\<lparr>t_Origin := og, t_Sequence := sq\<rparr>"
    unfolding adopt_incoming_def nextSyncSequenceLocked_def Let_def using e by (auto split: if_splits) (metis e)+
  from assms show "m_tasks m' = m_tasks m" "m_seq m' = m_seq m" "m_store m' = m_store m" "m_syncOrigin m' = m_syncOrigin m"
    "t_Origin v \<noteq> [] \<Longrightarrow> t_Sequence v \<noteq> 0 \<Longrightarrow> v' = v"
    by (auto simp: adopt_incoming_def nextSyncSequenceLocked_def Let_def split: if_splits)
qed

lemma task_inv_clone [simp]: "task_inv (cloneTask t) = task_inv t"
proof -
  have "attempts_ok (map (clone_attempt i j) as) = attempts_ok as" for i j as by (simp add: attempts_ok_def comp_def)
  then show ?thesis by (simp add: task_inv_def list_all_iff)
qed

lemma interrupt_inv: "task_inv t \<Longrightarrow> task_inv (interruptOrphanedTask now t)"
  using allowed_fail_open [of "t_Status t" _ coordinatorChangedTaskError]
  by (fastforce simp: interruptOrphanedTask_def task_inv_def list_all_iff)

lemma interrupt_ID [simp]: "t_ID (interruptOrphanedTask now t) = t_ID t"
  by (simp add: interruptOrphanedTask_def)

lemma prepare_incoming_fields:
  assumes "prepare_incoming now adopted v m = (t, m')"
  shows "t_ID t = t_ID v" "m_tasks m' = m_tasks m" "m_seq m' = m_seq m" "task_inv v \<Longrightarrow> task_inv t"
    "\<not> adopted \<Longrightarrow> t = (cloneTask v)\<lparr>t_cancelled := terminal (t_Status v), t_changed := 0\<rparr> \<and> m' = m"
proof -
  have f: "task_inv (t\<lparr>t_Origin := a, t_Sequence := b, t_cancelled := c, t_changed := d\<rparr>) = task_inv t"
    "task_inv (t\<lparr>t_cancelled := c, t_changed := d\<rparr>) = task_inv t" "task_inv (t\<lparr>t_Origin := a, t_Sequence := b\<rparr>) = task_inv t" for t a b c d by (simp_all add: task_inv_def)
  from assms interrupt_inv [of "cloneTask v" now] show "t_ID t = t_ID v" "m_tasks m' = m_tasks m" "m_seq m' = m_seq m" "task_inv v \<Longrightarrow> task_inv t"
    "\<not> adopted \<Longrightarrow> t = (cloneTask v)\<lparr>t_cancelled := terminal (t_Status v), t_changed := 0\<rparr> \<and> m' = m"
    by (auto simp: prepare_incoming_def Let_def restamp_local_def nextSyncSequenceLocked_def f split: if_splits)
qed

text \<open>Either the tasks stay as they are, or the incoming task is stored under its identifier.\<close>

lemma sync_task_cases:
  fixes m :: "'s manager"
  assumes "sync_task ops encode clk replace merge source k acc incoming m = (e, m')"
  obtains (same) "m_tasks m' = m_tasks m" "m_seq m' = m_seq m"
      "e = None \<longrightarrow> (\<exists>v v'. incoming = Some v \<and> (t_Origin v \<noteq> [] \<and> t_Sequence v \<noteq> 0 \<longrightarrow> v' = v) \<and>
         sync_skips encode replace merge acc (gm_get (m_tasks m) (t_ID v)) v' = Inr True)"
  | (stored) v v' t l r where "incoming = Some v" "t_ID v \<noteq> []" "\<exists>og sq. v' = v\<lparr>t_Origin := og, t_Sequence := sq\<rparr>"
      "t_Origin v \<noteq> [] \<and> t_Sequence v \<noteq> 0 \<longrightarrow> v' = v"
      "sync_skips encode replace merge acc (gm_get (m_tasks m) (t_ID v)) v' = Inr False"
      "\<exists>m0 m1 :: 's manager. prepare_incoming (clk (AtOrphan k)) (merge \<and> gm_get (m_tasks m) (t_ID v) = None) v' m0 = (t, m1)"
      "m_tasks m' = gm_put (t_ID v) (t\<lparr>t_LastCheckpoint := l, t_Resumable := r\<rparr>) (m_tasks m)"
      "m_seq m' = max (m_seq m) (taskSequence (t_ID v))" "e = None"
proof (cases "incoming = None \<or> t_ID (the incoming) = []")
  case True
  with assms same show thesis by (auto simp: sync_task_def split: option.splits)
next
  case False
  then obtain v where v: "incoming = Some v" "t_ID v \<noteq> []" by auto
  obtain v' m1 where a: "adopt_incoming source v m = (v', m1)" by fastforce
  note f = adopt_incoming_fields [OF a]
  have i: "t_ID v' = t_ID v" using f(1) by auto
  let ?cur = "gm_get (m_tasks m) (t_ID v)"
  show thesis
  proof (cases "sync_skips encode replace merge acc ?cur v' = Inr False")
    case False
    have r: "sync_task ops encode clk replace merge source k acc incoming m =
        (case sync_skips encode replace merge acc ?cur v' of Inl e \<Rightarrow> (Some e, m1) | Inr _ \<Rightarrow> (None, m1))"
      using v a f(2) i False by (auto simp: sync_task_def Let_def split: sum.splits bool.splits)
    show thesis
    proof (rule same)
      from r assms have "m' = m1" by (auto split: sum.splits)
      then show "m_tasks m' = m_tasks m" "m_seq m' = m_seq m" using f by simp_all
      show "e = None \<longrightarrow> (\<exists>v v'. incoming = Some v \<and> (t_Origin v \<noteq> [] \<and> t_Sequence v \<noteq> 0 \<longrightarrow> v' = v) \<and>
         sync_skips encode replace merge acc (gm_get (m_tasks m) (t_ID v)) v' = Inr True)"
      proof
        assume "e = None"
        with r assms False have "sync_skips encode replace merge acc ?cur v' = Inr True"
          by (cases "sync_skips encode replace merge acc ?cur v'") auto
        with v f(6) show "\<exists>v v'. incoming = Some v \<and> (t_Origin v \<noteq> [] \<and> t_Sequence v \<noteq> 0 \<longrightarrow> v' = v) \<and>
           sync_skips encode replace merge acc (gm_get (m_tasks m) (t_ID v)) v' = Inr True" by blast
      qed
    qed
  next
    case True
    obtain t m2 where p: "prepare_incoming (clk (AtOrphan k)) (merge \<and> ?cur = None) v' m1 = (t, m2)" by fastforce
    note pf = prepare_incoming_fields [OF p]
    obtain e3 t3 m3 where s: "saveTaskAndCheckpointLocked ops (clk (AtSyncCheckpoint k)) t m2 = (e3, t3, m3)" using prod_cases3 by blast
    from save_locked_cases [OF s] obtain l r st where t3: "t3 = t\<lparr>t_LastCheckpoint := l, t_Resumable := r\<rparr>" and m3: "m3 = m2\<lparr>m_store := st\<rparr>" by auto
    show thesis
    proof (cases e3)
      case None
      then have "e = None" "m' = invalidateRecentTasksLocked (register_task t3 m3)"
        using assms v a f(2) i True p s by (simp_all add: sync_task_def Let_def)
      then have r: "m_tasks m' = gm_put (t_ID v) (t\<lparr>t_LastCheckpoint := l, t_Resumable := r\<rparr>) (m_tasks m)"
        "m_seq m' = max (m_seq m) (taskSequence (t_ID v))" "e = None"
        using t3 m3 pf f i by (auto simp: register_task_def invalidateRecentTasksLocked_def)
      from p have "\<exists>m0 m1 :: 's manager. prepare_incoming (clk (AtOrphan k)) (merge \<and> ?cur = None) v' m0 = (t, m1)" by blast
      with f(6) show thesis by (intro stored [OF v f(1) _ True _ r]) auto
    next
      case (Some x)
      then have "m' = m3" "e \<noteq> None" using assms v a f(2) i True p s by (auto simp: sync_task_def Let_def)
      with m3 pf f same show thesis by auto
    qed
  qed
qed

lemma sync_loop_induct:
  assumes "sync_loop ops encode clk replace merge source k ts m = (e, m')" "P m"
    and step: "\<And>k t acc m e m'. (t, acc) \<in> set ts \<Longrightarrow> sync_task ops encode clk replace merge source k acc t m = (e, m') \<Longrightarrow> P m \<Longrightarrow> P m'"
  shows "P m'"
  using assms
proof (induction ts arbitrary: k m)
  case (Cons x ts)
  obtain t acc where x: "x = (t, acc)" by fastforce
  obtain e1 m1 where s: "sync_task ops encode clk replace merge source k acc t m = (e1, m1)" by fastforce
  have p1: "P m1" by (rule Cons.prems(3) [OF _ s Cons.prems(2)]) (simp add: x)
  show ?case
  proof (cases e1)
    case None
    with Cons.prems(1) x s have "sync_loop ops encode clk replace merge source (Suc k) ts m1 = (e, m')" by simp
    then show ?thesis using p1
    proof (rule Cons.IH)
      fix k t acc m e m'
      assume "(t, acc) \<in> set ts" "sync_task ops encode clk replace merge source k acc t m = (e, m')" "P m"
      then show "P m'" by (intro Cons.prems(3) [of t acc k m e m']) auto
    qed
  next
    case (Some y)
    with Cons.prems(1) x s p1 show ?thesis by simp
  qed
qed simp

text \<open>C23: taking in the tasks that are missing (\<^verbatim>\<open>MergeMissingFrom\<close>) never changes a task that the manager
  already has, whatever the peer sends and wherever the operation stops.\<close>

theorem merge_missing_never_overwrites:
  assumes "gm_get (m_tasks m) i = Some t"
  shows "gm_get (m_tasks (snd (MergeMissingFrom ops encode clk tasks source m))) i = Some t"
proof -
  obtain e m' where r: "MergeMissingFrom ops encode clk tasks source m = (e, m')" by fastforce
  from r [unfolded MergeMissingFrom_def syncTasks_def Let_def] have "gm_get (m_tasks m') i = Some t"
  proof (rule sync_loop_induct)
    fix k u acc m1 e1 m2
    assume s: "sync_task ops encode clk False False (if source = [] then ''task:legacy'' else source) k acc u m1 = (e1, m2)"
      and g: "gm_get (m_tasks m1) i = Some t"
    from s show "gm_get (m_tasks m2) i = Some t"
    proof (cases rule: sync_task_cases)
      case (stored v v' x l r)
      with g show ?thesis by (cases "t_ID v = i") (auto simp: sync_skips_def)
    qed (use g in simp)
  qed (use assms in simp)
  with r show ?thesis by simp
qed

text \<open>Each of the three ways of taking in tasks of a peer keeps the invariant of the manager (unique
  identifiers, the identifier counter ahead of every identifier, well-formed tasks) and never
  lowers the counter, also when it stops half way with an error, provided that the tasks received
  are well-formed.\<close>

theorem sync_keeps_manager_invariant:
  assumes "mgr_inv m" "\<forall>t. Some t \<in> set tasks \<longrightarrow> task_inv t" "syncTasks ops encode clk tasks replace merge source m = (e, m')"
  shows "mgr_inv m' \<and> m_seq m \<le> m_seq m'"
  using assms(3) [unfolded syncTasks_def Let_def]
proof (rule sync_loop_induct)
  fix k u acc m1 e1 m2
  assume u: "(u, acc) \<in> set (zip tasks (if merge then snd (mergeReplicaTaskSlices clk (map snd (m_tasks m)) tasks) else map (\<lambda>_. False) tasks))"
    and s: "sync_task ops encode clk replace merge (if source = [] then ''task:legacy'' else source) k acc u m1 = (e1, m2)"
    and i: "mgr_inv m1 \<and> m_seq m \<le> m_seq m1"
  from s show "mgr_inv m2 \<and> m_seq m \<le> m_seq m2"
  proof (cases rule: sync_task_cases)
    case same
    with i mgr_inv_same [of m1 m2] show ?thesis by simp
  next
    case (stored v v' t l r)
    have "task_inv v" using u stored(1) assms(2) by (auto dest: set_zip_leftD)
    then have "task_inv v'" using stored(3) by (auto simp: task_inv_def)
    with stored(6) have "task_inv t" "t_ID t = t_ID v" using prepare_incoming_fields(1,4) stored(3) by fastforce+
    then have "task_inv (t\<lparr>t_LastCheckpoint := l, t_Resumable := r\<rparr>)" "t_ID (t\<lparr>t_LastCheckpoint := l, t_Resumable := r\<rparr>) = t_ID v"
      by (simp_all add: task_inv_def)
    then have "mgr_inv m2" using i stored(2,8) by (intro mgr_inv_put [OF _ stored(7)]) auto
    with i stored(8) show ?thesis by linarith
  qed
qed (use assms(1) in simp)


subsection \<open>Watermarks\<close>

lemma watermark_fold:
  "gm_get0 (foldl (\<lambda>w t. raise_watermark (t_Origin t) (t_Sequence t) w) w ts) og =
     (if og = [] then gm_get0 w og
      else foldl (\<lambda>u t. if u < t_Sequence t then t_Sequence t else u) (gm_get0 w og) (filter (\<lambda>t. t_Origin t = og) ts))"
  by (induction ts arbitrary: w) (auto simp: raise_watermark_def)

lemma foldl_max_attained:
  fixes a :: uint64
  shows "foldl (\<lambda>u x. if u < f x then f x else u) a xs = a \<or> (\<exists>x \<in> set xs. f x = foldl (\<lambda>u x. if u < f x then f x else u) a xs)"
proof (induction xs arbitrary: a)
  case (Cons x xs)
  from Cons [of "if a < f x then f x else a"] show ?case by auto
qed simp

lemma Watermarks_fold: "Watermarks m = foldl (\<lambda>w t. raise_watermark (t_Origin t) (t_Sequence t) w) [] (map snd (m_tasks m))"
  by (simp add: Watermarks_def foldl_map case_prod_unfold)

lemma SnapshotWatermarks_ge: "t \<in> set ts \<Longrightarrow> t_Origin t \<noteq> [] \<Longrightarrow> t_Sequence t \<le> gm_get0 (SnapshotWatermarks ts) (t_Origin t)"
  unfolding SnapshotWatermarks_def watermark_fold
  using foldl_max_ge [of 0 t_Sequence "filter (\<lambda>u. t_Origin u = t_Origin t) ts"] by simp

lemma Watermarks_ge:
  "gm_wf (m_tasks m) \<Longrightarrow> gm_get (m_tasks m) i = Some t \<Longrightarrow> t_Origin t \<noteq> [] \<Longrightarrow> t_Sequence t \<le> gm_get0 (Watermarks m) (t_Origin t)"
  unfolding Watermarks_fold SnapshotWatermarks_def [symmetric] by (rule SnapshotWatermarks_ge) (force simp: gm_get_in [symmetric])+

lemma Watermarks_attained:
  assumes "gm_wf (m_tasks m)"
  shows "gm_get0 (Watermarks m) og = 0 \<or> (\<exists>i t. gm_get (m_tasks m) i = Some t \<and> t_Origin t = og \<and> t_Sequence t = gm_get0 (Watermarks m) og)"
  using foldl_max_attained [of t_Sequence 0 "filter (\<lambda>u. t_Origin u = og) (map snd (m_tasks m))"] assms
  by (auto simp: Watermarks_fold watermark_fold gm_get_in)

subsection \<open>A coordinator and its replica\<close>

text \<open>What replication preserves of a task: all but context, channel, resumability and checkpoint name.\<close>

definition payload :: "task \<Rightarrow> task" where
  "payload t = (core t)\<lparr>t_LastCheckpoint := []\<rparr>"

lemma payload_simps [simp]:
  "payload (cloneTask t) = payload t" "payload (durable t) = payload t"
  "payload (t\<lparr>t_LastCheckpoint := l, t_Resumable := r\<rparr>) = payload t"
  "payload (t\<lparr>t_cancelled := c, t_changed := d\<rparr>) = payload t"
  by (simp_all add: payload_def) (simp_all add: core_def durable_def cloneTask_def)

lemma payload_fields: "t_ID (payload t) = t_ID t" "t_Origin (payload t) = t_Origin t" "t_Sequence (payload t) = t_Sequence t"
  by (simp_all add: payload_def core_def durable_def)

definition stamped :: "'c manager \<Rightarrow> bool" where
  "stamped c \<longleftrightarrow> m_syncOrigin c \<noteq> [] \<and>
     (\<forall>i t. gm_get (m_tasks c) i = Some t \<longrightarrow> t_Origin t = m_syncOrigin c \<and> t_Sequence t \<noteq> 0 \<and>
        t_Sequence t \<le> gm_get0 (m_syncSeq c) (m_syncOrigin c)) \<and>
     (\<forall>i j t u. gm_get (m_tasks c) i = Some t \<longrightarrow> gm_get (m_tasks c) j = Some u \<longrightarrow> t_Sequence t = t_Sequence u \<longrightarrow> i = j)"

lemma stamped_put:
  assumes "stamped c" "m_tasks c' = gm_put i t (m_tasks c)" "m_syncSeq c' = gm_put (m_syncOrigin c) (next_seq c) (m_syncSeq c)"
    "m_syncOrigin c' = m_syncOrigin c" "t_Origin t = m_syncOrigin c" "t_Sequence t = next_seq c" "next_seq c \<noteq> 0"
  shows "stamped c'"
proof -
  let ?s = "gm_get0 (m_syncSeq c) (m_syncOrigin c)"
  have "?s \<noteq> - 1" using assms(7) by auto
  then have lt: "?s < next_seq c" using word_inc_gt [of ?s] word_order.not_eq_extremum by blast
  have new: "gm_get (m_tasks c') j = (if j = i then Some t else gm_get (m_tasks c) j)" "gm_get0 (m_syncSeq c') (m_syncOrigin c') = next_seq c" for j
    unfolding assms(2-4) by simp_all
  have old: "t_Origin u = m_syncOrigin c \<and> t_Sequence u \<noteq> 0 \<and> t_Sequence u \<le> ?s" if "gm_get (m_tasks c) j = Some u" for j u
    using assms(1) that unfolding stamped_def by blast
  have "t_Origin u = m_syncOrigin c' \<and> t_Sequence u \<noteq> 0 \<and> t_Sequence u \<le> next_seq c" if "gm_get (m_tasks c') j = Some u" for j u
    using that old [of j u] lt assms(4-7) by (auto simp: new(1) split: if_splits)
  moreover have "j = k" if "gm_get (m_tasks c') j = Some u" "gm_get (m_tasks c') k = Some v" "t_Sequence u = t_Sequence v" for j k u v
  proof (cases "j = i \<or> k = i")
    case True
    have l: "t_Sequence w < next_seq c" if "gm_get (m_tasks c) l = Some w" for l w using old [OF that] lt by (meson le_less_trans)
    show ?thesis using True that assms(6) l [of k v] l [of j u] by (auto simp: new(1) split: if_splits)
  next
    case False
    with that have "gm_get (m_tasks c) j = Some u" "gm_get (m_tasks c) k = Some v" by (simp_all add: new(1))
    with that(3) assms(1) show ?thesis unfolding stamped_def by blast
  qed
  ultimately show ?thesis unfolding stamped_def new(2) using assms(1,4) by (simp add: stamped_def)
qed

lemma stamped_new: "stamped (newManager n store fin)"
  by (simp add: stamped_def newManager_def)

lemma stamped_raise:
  assumes "stamped c" "m_tasks c' = m_tasks c" "m_syncOrigin c' = m_syncOrigin c"
    "gm_get0 (m_syncSeq c) (m_syncOrigin c) \<le> gm_get0 (m_syncSeq c') (m_syncOrigin c)"
  shows "stamped c'"
  using assms(1) unfolding stamped_def assms(2,3) using assms(4) by (meson order_trans)

lemma Create_syncSeq:
  "m_syncSeq (snd (CreateWithGraphAndOptionsChecked ops customProfiles clk description graph assignments requireApproval m)) =
     gm_put (m_syncOrigin m) (next_seq m) (m_syncSeq m)"
proof -
  have s: "m_syncSeq (snd (snd (persistTaskAndCheckpointLocked ops now t m))) = gm_put (m_syncOrigin m) (next_seq m) (m_syncSeq m)"
    for now t and m :: "'a manager"
  proof -
    obtain e t1 m1 where p: "persistTaskAndCheckpointLocked ops now t m = (e, t1, m1)" using prod_cases3 by blast
    then have "\<exists>s. m1 = invalidateRecentTasksLocked (m\<lparr>m_syncSeq := gm_put (m_syncOrigin m) (next_seq m) (m_syncSeq m)\<rparr>)\<lparr>m_store := s\<rparr>"
      by (auto simp: persistTaskAndCheckpointLocked_def stamp_eq dest: save_locked_cases)
    with p show ?thesis by (auto simp: invalidateRecentTasksLocked_def)
  qed
  let ?m = "m\<lparr>m_seq := Suc (m_seq m)\<rparr>"
  define g where "g = (if graph = None \<and> assignments \<noteq> []
    then (case TaskGraphFromSubtasks customProfiles (map as_Subtask assignments) of Inl _ \<Rightarrow> None | Inr g \<Rightarrow> Some g) else graph)"
  let ?t = "new_task clk (genID (Suc (m_seq m))) description g assignments requireApproval"
  obtain e t1 m1 where p: "persistTaskAndCheckpointLocked ops (clk 2) ?t ?m = (e, t1, m1)" using prod_cases3 by blast
  from s [of "clk 2" ?t ?m] p have "m_syncSeq m1 = gm_put (m_syncOrigin m) (next_seq m) (m_syncSeq m)" by simp
  then show ?thesis
    unfolding CreateWithGraphAndOptionsChecked_def Let_def g_def [symmetric] using p
    by (simp add: invalidateRecentTasksLocked_def put_task_def split: option.split)
qed

text \<open>An operation of the coordinator moves the changed task beyond every sequence used so far.\<close>

lemma mgr_step_stamps:
  assumes "mgr_step ops customProfiles c c'" "stamped c" "next_seq c \<noteq> 0"
  obtains (same) "m_tasks c' = m_tasks c" "m_syncOrigin c' = m_syncOrigin c" "stamped c'"
  | (put) i t where "m_tasks c' = gm_put i t (m_tasks c)" "m_syncOrigin c' = m_syncOrigin c" "stamped c'"
      "gm_get0 (m_syncSeq c) (m_syncOrigin c) < t_Sequence t"
  using assms(1)
proof (cases rule: mgr_step_cases)
  have "gm_get0 (m_syncSeq c) (m_syncOrigin c) \<noteq> - 1" using assms(3) by auto
  then have lt: "gm_get0 (m_syncSeq c) (m_syncOrigin c) < next_seq c"
    using word_inc_gt [of "gm_get0 (m_syncSeq c) (m_syncOrigin c)"] word_order.not_eq_extremum by blast
  {
    case (create clk description graph assignments requireApproval)
    obtain x where x: "CreateWithGraphAndOptionsChecked ops customProfiles clk description graph assignments requireApproval c = (x, c')"
      using create by (metis prod.collapse)
    from Create_syncSeq [of ops customProfiles clk description graph assignments requireApproval c] x
    have q: "m_syncSeq c' = gm_put (m_syncOrigin c) (next_seq c) (m_syncSeq c)" by simp
    from Create_effect [OF x] have o: "m_syncOrigin c' = m_syncOrigin c" and
      d: "m_tasks c' = m_tasks c \<or> (\<exists>i g l u. m_tasks c' = gm_put i (restamp c l u g) (m_tasks c))" by blast+
    from d show thesis
    proof
      assume "m_tasks c' = m_tasks c"
      then have "stamped c'" using o lt q by (intro stamped_raise [OF assms(2)]) simp_all
      with \<open>m_tasks c' = m_tasks c\<close> o show thesis by (intro same)
    next
      assume "\<exists>i g l u. m_tasks c' = gm_put i (restamp c l u g) (m_tasks c)"
      then obtain i g l u where p: "m_tasks c' = gm_put i (restamp c l u g) (m_tasks c)" by blast
      from stamped_put [OF assms(2) p q o _ _ assms(3)] o lt p show thesis by (intro put) auto
    qed
  next
    case stepped
    show thesis
    proof (cases "c' = c")
      case False
      with stepped obtain i t t' where w: "wrote c i t' c'" by (rule stepped_wrote)
      then obtain l u where p: "m_tasks c' = gm_put i (restamp c l u t') (m_tasks c)"
        "m_syncSeq c' = gm_put (m_syncOrigin c) (next_seq c) (m_syncSeq c)" "m_syncOrigin c' = m_syncOrigin c" by (auto simp: wrote_def)
      from stamped_put [OF assms(2) p _ _ assms(3)] lt p show thesis by (intro put) auto
    qed (use same assms(2) in simp)
  next
    case (finalizer fin)
    with assms(2) show thesis by (intro same) (auto simp: SetFinalizer_def stamped_def)
  }
qed

definition mirrors :: "'c manager \<Rightarrow> 's manager \<Rightarrow> bool" where
  "mirrors c r \<longleftrightarrow> gm_wf (m_tasks r) \<and>
     (\<forall>i u. gm_get (m_tasks r) i = Some u \<longrightarrow> (\<exists>t. gm_get (m_tasks c) i = Some t \<and> t_Origin u = m_syncOrigin c \<and> t_Sequence u \<le> t_Sequence t))"

abbreviation holds_copy :: "'s manager \<Rightarrow> string \<Rightarrow> task \<Rightarrow> bool" where
  "holds_copy r i t \<equiv> map_option payload (gm_get (m_tasks r) i) = Some (payload t)"

text \<open>A replica that is up to date with everything that its watermark covers.\<close>

definition up_to_date :: "'c manager \<Rightarrow> 's manager \<Rightarrow> uint64 \<Rightarrow> bool" where
  "up_to_date c r w \<longleftrightarrow> (\<forall>i t. gm_get (m_tasks c) i = Some t \<longrightarrow> t_Sequence t \<le> w \<longrightarrow> holds_copy r i t)"

text \<open>An encoding that determines the payload of a task.\<close>

definition faithful :: "(task \<Rightarrow> string option) \<Rightarrow> bool" where
  "faithful encode \<longleftrightarrow> (\<forall>a b. encode a = encode b \<longrightarrow> encode a \<noteq> None \<longrightarrow> payload a = payload b)"

lemma replace_task:
  assumes f: "faithful encode" and st: "stamped c" and mi: "mirrors c r" and t: "gm_get (m_tasks c) i = Some t" "t_ID t = i" "i \<noteq> []"
    and v: "payload v = payload t"
    and s: "sync_task ops encode clk True False source k acc (Some v) r = (e, r')"
  shows "m_tasks r' = m_tasks r \<or> (\<exists>x. m_tasks r' = gm_put i x (m_tasks r) \<and> payload x = payload t)"
    "e = None \<Longrightarrow> holds_copy r' i t" "e \<noteq> None \<Longrightarrow> m_tasks r' = m_tasks r"
proof -
  have vf: "t_ID v = i" "t_Origin v = t_Origin t" "t_Sequence v = t_Sequence t" using v payload_fields t(2) by metis+
  have ts: "t_Origin v \<noteq> []" "t_Sequence v \<noteq> 0" "t_Origin v = m_syncOrigin c" using st t(1) vf by (auto simp: stamped_def)
  have newer: "\<not> t_Sequence v < t_Sequence u" if "gm_get (m_tasks r) i = Some u" for u
    using mi that t(1) vf(3) unfolding mirrors_def not_less by (metis option.inject)
  have "(m_tasks r' = m_tasks r \<or> (\<exists>x. m_tasks r' = gm_put i x (m_tasks r) \<and> payload x = payload t)) \<and>
      (e = None \<longrightarrow> holds_copy r' i t) \<and> (e \<noteq> None \<longrightarrow> m_tasks r' = m_tasks r)"
    using s
  proof (cases rule: sync_task_cases)
    case same
    have "holds_copy r i t" if "e = None"
    proof -
      from same(3) that ts vf(1) have "sync_skips encode True False acc (gm_get (m_tasks r) i) v = Inr True" by auto
      then obtain u where u: "gm_get (m_tasks r) i = Some u" "encode u = encode v" "encode u \<noteq> None"
        using newer by (auto simp: sync_skips_def split: option.splits if_splits)
      with f v show ?thesis unfolding faithful_def by (metis option.simps(9))
    qed
    with same(1) show ?thesis by simp
  next
    case (stored w w' x l u)
    then have w: "w = v" "w' = v" using ts by auto
    with stored(6) have "x = (cloneTask v)\<lparr>t_cancelled := terminal (t_Status v), t_changed := 0\<rparr>" using prepare_incoming_fields(5) by fastforce
    then have "payload (x\<lparr>t_LastCheckpoint := l, t_Resumable := u\<rparr>) = payload t" using v by simp
    with stored(7,9) w vf(1) show ?thesis by auto
  qed
  then show "m_tasks r' = m_tasks r \<or> (\<exists>x. m_tasks r' = gm_put i x (m_tasks r) \<and> payload x = payload t)" "e = None \<Longrightarrow> holds_copy r' i t"
    "e \<noteq> None \<Longrightarrow> m_tasks r' = m_tasks r" by blast+
qed

lemma mirrors_put:
  assumes "mirrors c r" "gm_get (m_tasks c) i = Some t" "t_Origin t = m_syncOrigin c" "payload x = payload t" "m_tasks r' = gm_put i x (m_tasks r)"
  shows "mirrors c r'"
proof -
  have "t_Origin x = t_Origin t" "t_Sequence x = t_Sequence t" using assms(4) payload_fields by metis+
  with assms show ?thesis by (simp add: mirrors_def)
qed

text \<open>
  The replica takes in copies of tasks of the coordinator one after the other; when it stops
  early it holds a prefix of them, and never loses a copy that it had.
\<close>

definition took :: "'c manager \<Rightarrow> 's manager \<Rightarrow> task list \<Rightarrow> 's manager \<Rightarrow> bool" where
  "took c r vs r' \<longleftrightarrow> mirrors c r' \<and>
     (\<forall>i t. gm_get (m_tasks c) i = Some t \<longrightarrow> holds_copy r i t \<longrightarrow> holds_copy r' i t) \<and>
     (\<forall>v \<in> set vs. \<forall>t. gm_get (m_tasks c) (t_ID v) = Some t \<longrightarrow> holds_copy r' (t_ID v) t) \<and>
     (\<forall>i u. gm_get (m_tasks r') i = Some u \<longrightarrow> gm_get (m_tasks r) i = Some u \<or> (\<exists>v \<in> set vs. payload u = payload v))"

definition copies :: "'c manager \<Rightarrow> task list \<Rightarrow> bool" where
  "copies c vs \<longleftrightarrow> (\<forall>v \<in> set vs. \<exists>t. gm_get (m_tasks c) (t_ID v) = Some t \<and> payload v = payload t)"

lemma took_refl: "mirrors c r \<Longrightarrow> took c r [] r"
  by (simp add: took_def)

lemma took_trans:
  assumes "took c r vs r1" "took c r1 ws r2"
  shows "took c r (vs @ ws) r2"
proof -
  note a = assms [unfolded took_def]
  show ?thesis unfolding took_def
  proof (intro conjI ballI allI impI)
    show "mirrors c r2" using a(2) by blast
    show "holds_copy r2 i t" if "gm_get (m_tasks c) i = Some t" "holds_copy r i t" for i t using a that by simp
    show "holds_copy r2 (t_ID v) t" if "v \<in> set (vs @ ws)" "gm_get (m_tasks c) (t_ID v) = Some t" for v t using a that by auto
    show "gm_get (m_tasks r) i = Some u \<or> (\<exists>v \<in> set (vs @ ws). payload u = payload v)" if "gm_get (m_tasks r2) i = Some u" for i u
      using a that by (metis UnCI set_append)
  qed
qed

lemma took_cong: "took c r vs r1 \<Longrightarrow> m_tasks r2 = m_tasks r1 \<Longrightarrow> took c r vs r2"
  by (simp add: took_def mirrors_def)

lemma took_task:
  assumes f: "faithful encode" and c: "mgr_inv c" "stamped c" and mi: "mirrors c r" and v: "copies c [v]"
    and s: "sync_task ops encode clk True False source k acc (Some v) r = (e, r')"
  shows "if e = None then took c r [v] r' else took c r [] r'"
proof -
  from v obtain t where t: "gm_get (m_tasks c) (t_ID v) = Some t" and p: "payload v = payload t" by (auto simp: copies_def)
  have i: "t_ID t = t_ID v" "t_ID v \<noteq> []" "t_Origin t = m_syncOrigin c" using c t by (auto simp: mgr_inv_def stamped_def)
  note r = replace_task [OF f c(2) mi t i(1,2) p s]
  show ?thesis
  proof (cases "e = None")
    case False
    then show ?thesis using took_cong [OF took_refl [OF mi] r(3)] by auto
  next
    case True
    have "mirrors c r'" using r(1) mi mirrors_put [OF mi t i(3)] by (auto simp: mirrors_def)
    with r(1,2) True t p show ?thesis by (auto simp: took_def split: if_splits)
  qed
qed

lemma copies_Cons: "copies c (v # vs) \<longleftrightarrow> copies c [v] \<and> copies c vs"
  by (simp add: copies_def)

lemma took_loop:
  assumes "sync_loop ops encode clk True False source k (zip (map Some vs) (map (\<lambda>_. False) vs)) r = (e, r')"
    and "faithful encode" "mgr_inv c" "stamped c" "mirrors c r" "copies c vs"
  shows "\<exists>ps qs. vs = ps @ qs \<and> (e = None \<longrightarrow> qs = []) \<and> took c r ps r'"
  using assms
proof (induction vs arbitrary: k r)
  case Nil
  then show ?case using took_refl by (intro exI [of _ "[]"]) auto
next
  case (Cons v vs)
  obtain e1 r1 where s: "sync_task ops encode clk True False source k False (Some v) r = (e1, r1)" by fastforce
  have t: "if e1 = None then took c r [v] r1 else took c r [] r1"
    by (rule took_task [OF Cons.prems(2-5) _ s]) (use Cons.prems(6) in \<open>simp add: copies_def\<close>)
  show ?case
  proof (cases e1)
    case None
    with Cons.prems(1) s have l: "sync_loop ops encode clk True False source (Suc k) (zip (map Some vs) (map (\<lambda>_. False) vs)) r1 = (e, r')" by simp
    from None t have t: "took c r [v] r1" by simp
    then have "mirrors c r1" by (simp add: took_def)
    from Cons.IH [OF l Cons.prems(2-4) this] Cons.prems(6) obtain ps qs where
      "vs = ps @ qs" "e = None \<longrightarrow> qs = []" "took c r1 ps r'" by (auto simp: copies_Cons [of c v vs])
    moreover from this have "took c r (v # ps) r'" using took_trans [OF t, of ps r'] by simp
    ultimately show ?thesis by (metis append_Cons)
  next
    case (Some x)
    with Cons.prems(1) s t show ?thesis by (intro exI [of _ "[]"] exI [of _ "v # vs"]) auto
  qed
qed

lemma took_pages:
  assumes "post_pages ops encode clk net maxBytes source k pages r = (e, r')"
    and "faithful encode" "mgr_inv c" "stamped c" "mirrors c r" "copies c (concat pages)"
  shows "\<exists>ps qs. concat pages = ps @ qs \<and> (e = None \<longrightarrow> qs = []) \<and> took c r ps r'"
  using assms
proof (induction pages arbitrary: k r)
  case Nil
  then show ?case using took_refl by (intro exI [of _ "[]"]) auto
next
  case (Cons page pages)
  have stop: "\<exists>ps qs. concat (page # pages) = ps @ qs \<and> (e = None \<longrightarrow> qs = []) \<and> took c r ps r'" if "e \<noteq> None" "r' = r"
    using that took_refl [OF Cons.prems(5)] by (metis append_Nil)
  have cp: "copies c (map durable page)" "copies c (concat pages)" using Cons.prems(6) by (auto simp: copies_def)
  obtain e1 r1 where s: "ReplaceFromSyncFrom ops encode (clk k) (map (Some \<circ> durable) page) source r = (e1, r1)" by fastforce
  then have "sync_loop ops encode (clk k) True False (if source = [] then ''task:legacy'' else source) 0
      (zip (map Some (map durable page)) (map (\<lambda>_. False) (map durable page))) r = (e1, r1)"
    by (simp add: ReplaceFromSyncFrom_def syncTasks_def Let_def comp_def)
  from took_loop [OF this Cons.prems(2-5) cp(1)] obtain ps qs where
    l: "map durable page = ps @ qs" "e1 = None \<longrightarrow> qs = []" "took c r ps r1" by blast
  define ps' where "ps' = take (length ps) page"
  have ps: "ps = map durable ps'" using l(1) by (metis append_eq_conv_conj ps'_def take_map)
  have t: "took c r ps' r1" using l(3) unfolding ps took_def by simp
  have pre: "concat (page # pages) = ps' @ drop (length ps) page @ concat pages" by (simp add: ps'_def)
  consider (early) "e \<noteq> None" "r' = r" | (stop) "e \<noteq> None" "r' = r1"
    | (on) "e1 = None" "post_pages ops encode clk net maxBytes source (Suc k) pages r1 = (e, r')"
    using Cons.prems(1) s by (auto split: if_splits option.splits)
  then show ?case
  proof cases
    case early then show ?thesis by (rule stop)
  next
    case stop
    then show ?thesis using t by (subst pre) blast
  next
    case on
    with l(1,2) have "ps' = page" by (metis append_Nil2 length_map ps'_def take_all_iff order_refl)
    moreover have "mirrors c r1" using t by (simp add: took_def)
    moreover from Cons.IH [OF on(2) Cons.prems(2-4) this cp(2)] obtain us ws where
      "concat pages = us @ ws" "e = None \<longrightarrow> ws = []" "took c r1 us r'" by blast
    ultimately show ?thesis using took_trans [OF t] by (intro exI [of _ "page @ us"] exI [of _ ws]) auto
  qed
qed

subsection \<open>Rounds of replication\<close>

lemma All_mem: "mgr_inv c \<Longrightarrow> v \<in> set (All c) \<longleftrightarrow> (\<exists>i t. gm_get (m_tasks c) i = Some t \<and> v = cloneTask t)"
  by (auto simp: All_history history_def mgr_inv_def gm_get_in [symmetric] image_iff) (metis gm_get_in mgr_inv_def snd_conv)+

lemma SnapshotForPeer_copies: "mgr_inv c \<Longrightarrow> copies c (SnapshotForPeer version w c)"
proof -
  assume i: "mgr_inv c"
  have "set (SnapshotForPeer version w c) \<subseteq> set (All c)" by (auto simp: SnapshotForPeer_def SnapshotAndWatermarksForPeer_def Let_def)
  moreover have "copies c (All c)" unfolding copies_def using All_mem [OF i] i by (auto simp: mgr_inv_def)
  ultimately show ?thesis unfolding copies_def by blast
qed

lemma SnapshotForPeer_complete:
  assumes "mgr_inv c" "gm_get (m_tasks c) i = Some t" "beyond w t"
  shows "cloneTask t \<in> set (SnapshotForPeer version w c)"
  using assms All_mem [OF assms(1), of "cloneTask t"]
  by (auto simp: SnapshotForPeer_def SnapshotAndWatermarksForPeer_def Let_def beyond_def)

lemma SnapshotForPeer_distinct: "mgr_inv c \<Longrightarrow> distinct (map t_ID (SnapshotForPeer version w c))"
proof -
  assume i: "mgr_inv c"
  have "distinct (map t_ID (history c))"
    using mgr_inv_distinct [OF i] unfolding history_def by (metis mset_map mset_sort_recent mset_eq_imp_distinct_iff)
  then have "distinct (map t_ID (All c))" by (simp add: All_history comp_def)
  then show ?thesis by (simp add: SnapshotForPeer_def SnapshotAndWatermarksForPeer_def Let_def distinct_map_filter)
qed

lemma eligible_tasks:
  assumes "\<forall>v \<in> set ts. t_Origin v \<noteq> [] \<and> t_Sequence v \<noteq> 0" "distinct (map t_Sequence ts)"
  shows "eligible (map task_record ts) = sort_key page_order (map task_record ts)" "ascending (eligible (map task_record ts))"
proof -
  let ?rs = "map task_record ts"
  have "filter legacy_record ?rs = []" "filter (\<lambda>r. \<not> legacy_record r) ?rs = ?rs"
    using assms(1) by (auto simp: filter_empty_conv filter_id_conv legacy_record_def task_record_def)
  then show e: "eligible ?rs = sort_key page_order ?rs" by (simp add: eligible_def number_legacy_def)
  have "distinct (map rc_Sequence ?rs)" using assms(2) by (simp add: comp_def task_record_def)
  moreover have "mset (map rc_Sequence (eligible ?rs)) = mset (map rc_Sequence ?rs)" unfolding e mset_map mset_sort ..
  ultimately have "distinct (map rc_Sequence (eligible ?rs))" using mset_eq_imp_distinct_iff by blast
  then have "distinct (map stamp_of (eligible ?rs))" by (auto simp: distinct_map inj_on_def)
  then show "ascending (eligible ?rs)" by (rule eligible_ascending)
qed

text \<open>The pages of tasks of one origin together: the tasks in ascending sequence.\<close>

lemma SplitTasks_pages:
  assumes st: "\<And>v. v \<in> set ts \<Longrightarrow> t_Origin v = og \<and> t_Sequence v \<noteq> 0" and og: "og \<noteq> []"
    and d: "distinct (map t_Sequence ts)" and n: "length ts < 2 ^ 64" and s: "SplitTasks encode ts maxBytes = Some (Inr pages)"
  shows "set (concat pages) = set ts" "sorted_wrt (\<lambda>u v. t_Sequence u < t_Sequence v) (concat pages)"
proof -
  let ?rs = "map task_record ts"
  have "\<forall>v \<in> set ts. t_Origin v \<noteq> [] \<and> t_Sequence v \<noteq> 0" using st og by blast
  note e = eligible_tasks(1) [OF this d] and asc = eligible_tasks(2) [OF this d]
  have up: "rc_Sequence (task_record v) \<le> gm_get0 (SnapshotWatermarks ts) (rc_Origin (task_record v))" if "v \<in> set ts" for v
    using SnapshotWatermarks_ge [OF that] st [OF that] og by (simp add: task_record_def)
  then have "pending (origin_upper (SnapshotWatermarks ts) ?rs) [] (eligible ?rs) = eligible ?rs" using n by (intro pending_all) auto
  with split_result [OF asc s [unfolded SplitTasks_def]] have c: "concat pages = map rc_Value (eligible ?rs)" by auto
  have m: "set (eligible ?rs) = task_record ` set ts" unfolding e by simp
  then show "set (concat pages) = set ts" unfolding c set_map by (simp add: image_image task_record_def)
  have "sorted_wrt (\<lambda>r r'. t_Sequence (rc_Value r) < t_Sequence (rc_Value r')) (eligible ?rs)"
    by (rule sorted_wrt_mono_rel [OF _ asc]) (use m st in \<open>auto simp: task_record_def\<close>)
  then show "sorted_wrt (\<lambda>u v. t_Sequence u < t_Sequence v) (concat pages)" unfolding c by (simp add: sorted_wrt_map)
qed

lemma SnapshotForPeer_stamps:
  assumes "mgr_inv c" "stamped c"
  shows "v \<in> set (SnapshotForPeer version w c) \<Longrightarrow> t_Origin v = m_syncOrigin c \<and> t_Sequence v \<noteq> 0"
    "distinct (map t_Sequence (SnapshotForPeer version w c))"
proof -
  let ?ts = "SnapshotForPeer version w c"
  have g: "\<exists>t. gm_get (m_tasks c) (t_ID v) = Some t \<and> t_Origin t = t_Origin v \<and> t_Sequence t = t_Sequence v" if "v \<in> set ?ts" for v
    using SnapshotForPeer_copies [OF assms(1), of version w] that payload_fields unfolding copies_def by metis
  then show "v \<in> set ?ts \<Longrightarrow> t_Origin v = m_syncOrigin c \<and> t_Sequence v \<noteq> 0" using assms(2) by (fastforce simp: stamped_def)
  have "t_ID u = t_ID v" if "u \<in> set ?ts" "v \<in> set ?ts" "t_Sequence u = t_Sequence v" for u v
    using g [OF that(1)] g [OF that(2)] that(3) assms(2) unfolding stamped_def by metis
  moreover have "inj_on t_ID (set ?ts)" using SnapshotForPeer_distinct [OF assms(1), of version w] by (simp add: distinct_map)
  ultimately have "inj_on t_Sequence (set ?ts)" by (meson inj_onD inj_onI)
  then show "distinct (map t_Sequence ?ts)" using SnapshotForPeer_distinct [OF assms(1), of version w] by (simp add: distinct_map)
qed

text \<open>Sequences of one origin are distinct and not zero, so that there are fewer than $2^{64}$ of them.\<close>

lemma stamped_length:
  assumes "mgr_inv c" "stamped c"
  shows "length (m_tasks c) < 2 ^ 64"
proof -
  have wf: "gm_wf (m_tasks c)" using assms(1) by (simp add: mgr_inv_def)
  have "inj_on (t_Sequence \<circ> snd) (set (m_tasks c))"
  proof (rule inj_onI)
    fix p q assume "p \<in> set (m_tasks c)" "q \<in> set (m_tasks c)" "(t_Sequence \<circ> snd) p = (t_Sequence \<circ> snd) q"
    moreover obtain i t j u where "p = (i, t)" "q = (j, u)" by fastforce
    ultimately have "gm_get (m_tasks c) i = Some t" "gm_get (m_tasks c) j = Some u" "t_Sequence t = t_Sequence u" "p = (i, t)" "q = (j, u)"
      using gm_get_in [OF wf] by auto
    with assms(2) show "p = q" unfolding stamped_def by (metis option.inject)
  qed
  then have "card ((t_Sequence \<circ> snd) ` set (m_tasks c)) = card (set (m_tasks c))" by (rule card_image)
  moreover have "card (set (m_tasks c)) = length (m_tasks c)" using wf by (simp add: gm_wf_def distinct_card distinct_map)
  moreover have "(t_Sequence \<circ> snd) ` set (m_tasks c) \<subseteq> UNIV - {0}" using assms(2) gm_get_in [OF wf] by (fastforce simp: stamped_def)
  then have "card ((t_Sequence \<circ> snd) ` set (m_tasks c)) \<le> card (UNIV - {0 :: uint64})" by (intro card_mono) simp_all
  moreover have "card (UNIV - {0 :: uint64}) < 2 ^ 64" by (simp add: card_word)
  ultimately show ?thesis by linarith
qed

lemma SnapshotForPeer_length:
  assumes "mgr_inv c" "stamped c"
  shows "length (SnapshotForPeer version w c) < 2 ^ 64"
proof -
  have "length (history c) = length (m_tasks c)" by (metis history_def length_map mset_sort_recent size_mset)
  then have "length (All c) = length (m_tasks c)" by (simp add: All_history)
  moreover have "length (SnapshotForPeer version w c) \<le> length (All c)" by (auto simp: SnapshotForPeer_def SnapshotAndWatermarksForPeer_def Let_def)
  ultimately show ?thesis using stamped_length [OF assms] by linarith
qed

lemma push_cases:
  assumes "push_tasks ops encode clk net maxBytes source version c r = Some (e, r')"
  obtains (empty) "SnapshotForPeer version (Watermarks r) c = []" "e = None" "r' = r"
  | (split) x where "SplitTasks encode (SnapshotForPeer version (Watermarks r) c) maxBytes = Some (Inl x)" "e \<noteq> None" "r' = r"
  | (pages) pages where "SplitTasks encode (SnapshotForPeer version (Watermarks r) c) maxBytes = Some (Inr pages)"
      "post_pages ops encode clk net maxBytes source 0 pages r = (e, r')"
proof (cases "SnapshotForPeer version (Watermarks r) c = []")
  case True
  with assms have "e = None" "r' = r" by (simp_all add: push_tasks_def)
  with True show thesis by (rule empty)
next
  case False
  then obtain x where x: "SplitTasks encode (SnapshotForPeer version (Watermarks r) c) maxBytes = Some x"
    using assms by (auto simp: push_tasks_def Let_def)
  show thesis
  proof (cases x)
    case (Inl y)
    with False x assms have "e \<noteq> None" "r' = r" by (auto simp: push_tasks_def Let_def)
    with x Inl show thesis by (intro split) simp_all
  next
    case (Inr pages)
    with False x assms have "post_pages ops encode clk net maxBytes source 0 pages r = (e, r')" by (simp add: push_tasks_def Let_def)
    with x Inr show thesis by (intro pages) simp_all
  qed
qed

lemma push_takes:
  assumes "push_tasks ops encode clk net maxBytes source version c r = Some (e, r')" "faithful encode" "mgr_inv c" "stamped c" "mirrors c r"
  obtains ps qs where "set (ps @ qs) = set (SnapshotForPeer version (Watermarks r) c) \<or> (e \<noteq> None \<and> ps = [])" "sorted_wrt (\<lambda>u v. t_Sequence u < t_Sequence v) (ps @ qs)"
    "e = None \<longrightarrow> qs = []" "took c r ps r'" "copies c ps"
proof -
  let ?ts = "SnapshotForPeer version (Watermarks r) c"
  have l: "length ?ts < 2 ^ 64" using SnapshotForPeer_length [OF assms(3,4)] .
  from assms(1) show thesis
  proof (cases rule: push_cases)
    case empty
    then show thesis using that [of "[]" "[]"] took_refl [OF assms(5)] by (simp add: copies_def)
  next
    case split
    then show thesis using that [of "[]" "[]"] took_refl [OF assms(5)] by (simp add: copies_def)
  next
    case (pages pgs)
    have og: "m_syncOrigin c \<noteq> []" using assms(4) by (simp add: stamped_def)
    have st: "\<And>v. v \<in> set ?ts \<Longrightarrow> t_Origin v = m_syncOrigin c \<and> t_Sequence v \<noteq> 0" "distinct (map t_Sequence ?ts)"
      by (fact SnapshotForPeer_stamps [OF assms(3,4)])+
    note sp = SplitTasks_pages [OF st(1) og st(2) l pages(1)]
    have cp: "copies c (concat pgs)" using SnapshotForPeer_copies [OF assms(3), of version "Watermarks r"] by (simp only: copies_def sp(1))
    from took_pages [OF pages(2) assms(2-5) cp] obtain ps qs where t: "concat pgs = ps @ qs" "e = None \<longrightarrow> qs = []" "took c r ps r'" by blast
    moreover have "copies c ps" using cp t(1) by (auto simp: copies_def)
    ultimately show thesis using that [of ps qs] sp by simp
  qed
qed

definition replicated :: "'c manager \<times> 's manager \<Rightarrow> bool" where
  "replicated p \<longleftrightarrow> (case p of (c, r) \<Rightarrow> mgr_inv c \<and> stamped c \<and> mirrors c r \<and> up_to_date c r (gm_get0 (Watermarks r) (m_syncOrigin c)))"

inductive replication_step ::
  "'c store_ops \<Rightarrow> 's store_ops \<Rightarrow> (string, agent_profile) gomap \<Rightarrow> (task \<Rightarrow> string option) \<Rightarrow> 'c manager \<times> 's manager \<Rightarrow> 'c manager \<times> 's manager \<Rightarrow> bool"
  for cops :: "'c store_ops" and rops :: "'s store_ops" and customProfiles encode where
  coordinate: "mgr_step cops customProfiles c c' \<Longrightarrow> next_seq c \<noteq> 0 \<Longrightarrow> replication_step cops rops customProfiles encode (c, r) (c', r)"
| push: "push_tasks rops encode clk net maxBytes source version c r = Some (e, r') \<Longrightarrow>
    replication_step cops rops customProfiles encode (c, r) (c, r')"

lemma Watermarks_le_syncSeq:
  assumes "stamped c" "mirrors c r"
  shows "gm_get0 (Watermarks r) (m_syncOrigin c) \<le> gm_get0 (m_syncSeq c) (m_syncOrigin c)"
proof (cases "gm_get0 (Watermarks r) (m_syncOrigin c) = 0")
  case False
  have "gm_wf (m_tasks r)" using assms(2) by (simp add: mirrors_def)
  from Watermarks_attained [OF this, of "m_syncOrigin c"] False obtain i u where
    "gm_get (m_tasks r) i = Some u" "t_Sequence u = gm_get0 (Watermarks r) (m_syncOrigin c)" by auto
  moreover from this(1) assms(2) obtain t where "gm_get (m_tasks c) i = Some t" "t_Sequence u \<le> t_Sequence t" unfolding mirrors_def by blast
  moreover from this(1) assms(1) have "t_Sequence t \<le> gm_get0 (m_syncSeq c) (m_syncOrigin c)" unfolding stamped_def by blast
  ultimately show ?thesis by simp
qed simp

lemma coordinate_replicated:
  assumes "mgr_step cops customProfiles c c'" "next_seq c \<noteq> 0" "replicated (c, r)"
  shows "replicated (c', r)"
proof -
  have i: "mgr_inv c" "stamped c" and mi: "mirrors c r" and up: "up_to_date c r (gm_get0 (Watermarks r) (m_syncOrigin c))"
    using assms(3) by (simp_all add: replicated_def)
  have i': "mgr_inv c'" using mgr_step_inv [OF assms(1) i(1)] by simp
  from assms(1) i(2) assms(2) show ?thesis
  proof (cases rule: mgr_step_stamps)
    case same
    with mi up i' show ?thesis by (simp add: replicated_def mirrors_def up_to_date_def)
  next
    case (put j t)
    let ?s = "gm_get0 (m_syncSeq c) (m_syncOrigin c)"
    have le: "t_Sequence u \<le> ?s" if "gm_get (m_tasks c) k = Some u" for k u using i(2) that by (simp add: stamped_def)
    have "mirrors c' r" unfolding mirrors_def put(1,2)
    proof (intro conjI allI impI)
      show "gm_wf (m_tasks r)" using mi by (simp add: mirrors_def)
      fix k u assume "gm_get (m_tasks r) k = Some u"
      then obtain v where "gm_get (m_tasks c) k = Some v" "t_Origin u = m_syncOrigin c" "t_Sequence u \<le> t_Sequence v"
        using mi by (auto simp: mirrors_def)
      then show "\<exists>v. gm_get (gm_put j t (m_tasks c)) k = Some v \<and> t_Origin u = m_syncOrigin c \<and> t_Sequence u \<le> t_Sequence v"
        using le [of k v] put(4) by auto
    qed
    moreover have "up_to_date c' r (gm_get0 (Watermarks r) (m_syncOrigin c))"
      using up put(4) Watermarks_le_syncSeq [OF i(2) mi] unfolding up_to_date_def put(1)
      by (auto split: if_splits)
    ultimately show ?thesis using i' put(2,3) by (simp add: replicated_def)
  qed
qed

lemma push_replicated:
  assumes "push_tasks rops encode clk net maxBytes source version c r = Some (e, r')" "faithful encode" "replicated (c, r)"
  shows "replicated (c, r')" "e = None \<Longrightarrow> gm_get (m_tasks c) i = Some t \<Longrightarrow> holds_copy r' i t"
proof -
  let ?w = "gm_get0 (Watermarks r) (m_syncOrigin c)" and ?w' = "gm_get0 (Watermarks r') (m_syncOrigin c)"
  have c: "mgr_inv c" "stamped c" and mi: "mirrors c r" and up: "up_to_date c r ?w" using assms(3) by (simp_all add: replicated_def)
  from push_takes [OF assms(1,2) c mi] obtain ps qs where
    s: "set (ps @ qs) = set (SnapshotForPeer version (Watermarks r) c) \<or> e \<noteq> None \<and> ps = []"
      "sorted_wrt (\<lambda>u v. t_Sequence u < t_Sequence v) (ps @ qs)" "e = None \<longrightarrow> qs = []" and t: "took c r ps r'" and "copies c ps" .
  have mi': "mirrors c r'" and keep: "\<And>j u. gm_get (m_tasks c) j = Some u \<Longrightarrow> holds_copy r j u \<Longrightarrow> holds_copy r' j u"
    and gain: "\<And>j u. cloneTask u \<in> set ps \<Longrightarrow> gm_get (m_tasks c) (t_ID u) = Some u \<Longrightarrow> holds_copy r' (t_ID u) u"
    and orig: "\<And>j u. gm_get (m_tasks r') j = Some u \<Longrightarrow> gm_get (m_tasks r) j = Some u \<or> (\<exists>v \<in> set ps. payload u = payload v)"
    using t unfolding took_def by force+
  have id: "t_ID u = j" "t_Origin u = m_syncOrigin c" "m_syncOrigin c \<noteq> []" if "gm_get (m_tasks c) j = Some u" for j u
    using c that by (auto simp: mgr_inv_def stamped_def)
  have new: "holds_copy r' j u" if "gm_get (m_tasks c) j = Some u" "?w < t_Sequence u" "e = None \<or> t_Sequence u \<le> ?w'" for j u
  proof -
    have "beyond (Watermarks r) u" using id [OF that(1)] that(2) by (simp add: beyond_def)
    from SnapshotForPeer_complete [OF c(1) that(1) this] s(1) have m: "cloneTask u \<in> set (ps @ qs) \<or> e \<noteq> None \<and> ps = []" by blast
    have "cloneTask u \<in> set ps"
    proof (cases "e = None")
      case False
      with that(3) have le: "t_Sequence u \<le> ?w'" by simp
      with that(2) have "?w' \<noteq> 0" by auto
      with Watermarks_attained [of r' "m_syncOrigin c"] mi' obtain k v where
        v: "gm_get (m_tasks r') k = Some v" "t_Origin v = m_syncOrigin c" "t_Sequence v = ?w'" by (auto simp: mirrors_def)
      have "gm_get (m_tasks r) k \<noteq> Some v"
        using Watermarks_ge [of r k v] mi v id(3) [OF that(1)] le that(2) by (auto simp: mirrors_def)
      with orig [OF v(1)] obtain x where x: "x \<in> set ps" "payload v = payload x" by blast
      then have "t_Sequence x = ?w'" using v(3) payload_fields by metis
      moreover have "t_Sequence x < t_Sequence u" if "cloneTask u \<in> set qs"
      proof -
        have "t_Sequence x < t_Sequence (cloneTask u)" using s(2) x(1) that unfolding sorted_wrt_append by blast
        then show ?thesis by (simp add: cloneTask_def)
      qed
      ultimately have "cloneTask u \<notin> set qs" using le by auto
      with m x(1) show ?thesis by auto
    qed (use m s(3) in auto)
    with gain id(1) [OF that(1)] that(1) show ?thesis by blast
  qed
  have old: "holds_copy r' j u" if "gm_get (m_tasks c) j = Some u" "t_Sequence u \<le> ?w" for j u
    using keep up that by (simp add: up_to_date_def)
  have "up_to_date c r' ?w'" unfolding up_to_date_def using old new by (meson not_less)
  with c mi' show "replicated (c, r')" by (simp add: replicated_def)
  show "holds_copy r' i t" if "e = None" "gm_get (m_tasks c) i = Some t" using that old new by (meson not_less)
qed

lemma replication_invariant:
  assumes "(replication_step cops rops customProfiles encode)\<^sup>*\<^sup>* p q" "faithful encode" "replicated p"
  shows "replicated q"
  using assms(1)
proof induction
  case (step q q')
  from step(2,3) show ?case
    by (cases rule: replication_step.cases) (use coordinate_replicated push_replicated(1) assms(2) in blast)+
qed (fact assms(3))


lemma replicated_new: "replicated (newManager n cstore cfin, newManager n' rstore rfin)"
  unfolding replicated_def prod.case using mgr_inv_new stamped_new
  by (intro conjI) (auto simp: mirrors_def up_to_date_def newManager_def)

text \<open>When every task of either side can be encoded within the limit, nothing but the network can stop a push.\<close>

definition codable :: "(task \<Rightarrow> string option) \<Rightarrow> int \<Rightarrow> task \<Rightarrow> bool" where
  "codable encode maxBytes t \<longleftrightarrow> (\<forall>v. payload v = payload t \<longrightarrow> (\<exists>data. encode v = Some data \<and> 2 + int (length data) + 1 \<le> maxBytes))"

abbreviation encodable :: "(task \<Rightarrow> string option) \<Rightarrow> 's manager \<Rightarrow> bool" where
  "encodable encode r \<equiv> \<forall>i u. gm_get (m_tasks r) i = Some u \<longrightarrow> encode u \<noteq> None"

lemma codable_cong: "payload v = payload t \<Longrightarrow> codable encode maxBytes v = codable encode maxBytes t"
  by (simp add: codable_def)

context reliable_store
begin

lemma save_locked_ok: "t_ID t \<noteq> [] \<Longrightarrow> fst (saveTaskAndCheckpointLocked ops now t m) = None"
proof (cases "m_store m")
  case (Some s)
  assume i: "t_ID t \<noteq> []"
  obtain cp snap where c: "checkpointForTask now (cloneTask t) = (cp, snap)" by fastforce
  then have "t_ID snap \<noteq> []" "cp_ID cp \<noteq> []" "cp_TaskID cp = t_ID snap" using checkpointForTask_simps [of now "cloneTask t"] i by simp_all
  from SaveBoth_reliable [OF this] obtain s' where "saveTaskAndCheckpoint ops snap cp s = (None, s')" by blast
  with Some c show ?thesis by (simp add: saveTaskAndCheckpointLocked_def)
qed (simp add: saveTaskAndCheckpointLocked_def)

lemma replace_succeeds:
  assumes v: "t_ID v \<noteq> []" "t_Origin v \<noteq> []" "t_Sequence v \<noteq> 0" "codable encode maxBytes v" and r: "encodable encode r"
    and s: "sync_task ops encode clk True False source k acc (Some v) r = (e, r')"
  shows "e = None \<and> encodable encode r'"
proof -
  obtain m1 where a: "adopt_incoming source v r = (v, m1)" "m_tasks m1 = m_tasks r"
    using adopt_incoming_fields [of source v r] v by (metis prod.collapse)
  obtain d where d: "encode v = Some d" using v(4) by (auto simp: codable_def)
  have "\<exists>b. sync_skips encode True False acc (gm_get (m_tasks r) (t_ID v)) v = Inr b"
  proof (cases "gm_get (m_tasks r) (t_ID v)")
    case (Some u)
    with r obtain d' where "encode u = Some d'" by blast
    with Some d show ?thesis by (auto simp: sync_skips_def)
  qed (auto simp: sync_skips_def)
  then obtain b where b: "sync_skips encode True False acc (gm_get (m_tasks r) (t_ID v)) v = Inr b" ..
  obtain t m2 where p: "prepare_incoming (clk (AtOrphan k)) False v m1 = (t, m2)" by fastforce
  have "t_ID t \<noteq> []" using prepare_incoming_fields(1) [OF p] v(1) by simp
  from save_locked_ok [OF this] have "e = None"
    using s v(1) a b p by (auto simp: sync_task_def Let_def split: prod.splits bool.splits option.splits) (metis fst_conv option.distinct(1))+
  moreover from s have "encodable encode r'"
  proof (cases rule: sync_task_cases)
    case (stored w w' x l u)
    then have "w = v" "w' = v" using v by auto
    with stored(6) have "x = (cloneTask v)\<lparr>t_cancelled := terminal (t_Status v), t_changed := 0\<rparr>" using prepare_incoming_fields(5) by fastforce
    then have "payload (x\<lparr>t_LastCheckpoint := l, t_Resumable := u\<rparr>) = payload v" by simp
    with v(4) have "encode (x\<lparr>t_LastCheckpoint := l, t_Resumable := u\<rparr>) \<noteq> None" unfolding codable_def by blast
    then show ?thesis unfolding stored(7) using r by auto
  qed (use r in simp)
  ultimately show ?thesis ..
qed

lemma replace_all_succeeds:
  assumes "\<forall>v \<in> set vs. t_ID v \<noteq> [] \<and> t_Origin v \<noteq> [] \<and> t_Sequence v \<noteq> 0 \<and> codable encode maxBytes v" "encodable encode r"
    and "sync_loop ops encode clk True False source k (zip (map Some vs) (map (\<lambda>_. False) vs)) r = (e, r')"
  shows "e = None \<and> encodable encode r'"
  using assms
proof (induction vs arbitrary: k r)
  case (Cons v vs)
  obtain e1 r1 where s: "sync_task ops encode clk True False source k False (Some v) r = (e1, r1)" by fastforce
  have "e1 = None \<and> encodable encode r1" by (rule replace_succeeds [OF _ _ _ _ Cons.prems(2) s]) (use Cons.prems(1) in auto)
  moreover from this Cons.prems(3) s have "sync_loop ops encode clk True False source (Suc k) (zip (map Some vs) (map (\<lambda>_. False) vs)) r1 = (e, r')" by simp
  ultimately show ?case using Cons.IH Cons.prems(1) by (metis list.set_intros(2))
qed simp

lemma post_pages_succeeds:
  assumes "\<forall>v \<in> set (concat pages). t_ID v \<noteq> [] \<and> t_Origin v \<noteq> [] \<and> t_Sequence v \<noteq> 0 \<and> codable encode maxBytes v" "encodable encode r"
    and "\<forall>k. net k = Delivered" "\<forall>page \<in> set pages. page_body_bytes encode page \<le> maxBytes"
  shows "fst (post_pages ops encode clk net maxBytes source k pages r) = None"
  using assms
proof (induction pages arbitrary: k r)
  case (Cons page pages)
  obtain e1 r1 where s: "ReplaceFromSyncFrom ops encode (clk k) (map (Some \<circ> durable) page) source r = (e1, r1)" by fastforce
  have "\<forall>v \<in> set (map durable page). t_ID v \<noteq> [] \<and> t_Origin v \<noteq> [] \<and> t_Sequence v \<noteq> 0 \<and> codable encode maxBytes v"
    using Cons.prems(1) codable_cong [OF payload_simps(2)] by auto
  from replace_all_succeeds [OF this Cons.prems(2)] s have "e1 = None" "encodable encode r1"
    by (simp_all add: ReplaceFromSyncFrom_def syncTasks_def Let_def comp_def)
  with Cons s show ?case by simp
qed simp

end


lemma record_bytes_body:
  assumes "\<forall>t \<in> set page. encode t \<noteq> None" "page \<noteq> []"
  shows "page_body_bytes encode page \<le> 2 + record_bytes (\<lambda>t. case encode t of None \<Rightarrow> Inl () | Some data \<Rightarrow> Inr (length data)) page"
proof -
  have "sum_list (map (\<lambda>t. case encode t of None \<Rightarrow> 0 | Some data \<Rightarrow> int (length data)) ts) + int (length ts) =
      record_bytes (\<lambda>t. case encode t of None \<Rightarrow> Inl () | Some data \<Rightarrow> Inr (length data)) ts" if "\<forall>t \<in> set ts. encode t \<noteq> None" for ts
    using that by (induction ts) (auto simp: record_bytes_def)
  from this [OF assms(1)] show ?thesis by (simp add: page_body_bytes_def)
qed

lemma SplitTasks_ok:
  assumes "\<forall>t \<in> set ts. codable encode maxBytes t" "ts \<noteq> []" "\<forall>t \<in> set ts. t_Origin t \<noteq> [] \<and> t_Sequence t \<noteq> 0" "distinct (map t_Sequence ts)"
  obtains pages where "SplitTasks encode ts maxBytes = Some (Inr pages)" "\<forall>page \<in> set pages. page_body_bytes encode page \<le> maxBytes"
proof -
  let ?rs = "map task_record ts" and ?enc = "\<lambda>t. case encode t of None \<Rightarrow> Inl () | Some data \<Rightarrow> Inr (length data)"
  have d: "\<exists>data. encode t = Some data \<and> 2 + int (length data) + 1 \<le> maxBytes" if "t \<in> set ts" for t
    using assms(1) that by (auto simp: codable_def)
  note e = eligible_tasks(1) [OF assms(3,4)]
  have "\<forall>r \<in> set (eligible ?rs). fits ?enc (int 2) maxBytes (rc_Value r)"
    using d unfolding e by (fastforce simp: fits_def task_record_def)
  from split_succeeds [OF this] obtain pages where s: "SplitTasks encode ts maxBytes = Some (Inr pages)" unfolding SplitTasks_def by blast
  from split_result [OF eligible_tasks(2) [OF assms(3,4)] s [unfolded SplitTasks_def]]
  have c: "set (concat pages) \<subseteq> rc_Value ` set (eligible ?rs)" and b: "\<And>p. p \<in> set pages \<Longrightarrow> p \<noteq> [] \<Longrightarrow> 2 + record_bytes ?enc p \<le> maxBytes"
    by (auto simp: pending_def)
  have "2 \<le> maxBytes" using d [of "hd ts"] assms(2) by fastforce
  moreover have "encode t \<noteq> None" if "page \<in> set pages" "t \<in> set page" for page t
    using d [of t] c that unfolding e by (fastforce simp: task_record_def)
  ultimately have "page_body_bytes encode page \<le> maxBytes" if "page \<in> set pages" for page
    using record_bytes_body [of page encode] b [OF that] that by (cases "page = []") (force simp: page_body_bytes_def)+
  with s that show thesis by blast
qed

lemma push_succeeds:
  assumes "replicated (c, r)" "\<forall>i t. gm_get (m_tasks c) i = Some t \<longrightarrow> codable encode maxBytes t" "encodable encode r" "\<forall>k. net k = Delivered"
  obtains r' where "push_tasks memory_ops encode clk net maxBytes source version c r = Some (None, r')"
proof (cases "SnapshotForPeer version (Watermarks r) c = []")
  case True
  then show thesis by (intro that [of r]) (simp add: push_tasks_def)
next
  case False
  let ?ts = "SnapshotForPeer version (Watermarks r) c"
  have c: "mgr_inv c" "stamped c" using assms(1) by (simp_all add: replicated_def)
  have cp: "copies c ?ts" using SnapshotForPeer_copies [OF c(1)] .
  have og: "m_syncOrigin c \<noteq> []" using c(2) by (simp add: stamped_def)
  have st: "\<And>v. v \<in> set ?ts \<Longrightarrow> t_Origin v = m_syncOrigin c \<and> t_Sequence v \<noteq> 0" "distinct (map t_Sequence ?ts)"
    by (fact SnapshotForPeer_stamps [OF c])+
  have ok: "t_ID v \<noteq> [] \<and> t_Origin v \<noteq> [] \<and> t_Sequence v \<noteq> 0 \<and> codable encode maxBytes v" if v: "v \<in> set ?ts" for v
  proof -
    from cp v obtain t where t: "gm_get (m_tasks c) (t_ID v) = Some t" "payload v = payload t" by (auto simp: copies_def)
    then have "t_ID v \<noteq> []" using c(1) by (auto simp: mgr_inv_def)
    then show ?thesis using assms(2) t codable_cong [OF t(2)] st(1) [OF v] og by simp
  qed
  have "\<forall>t \<in> set ?ts. codable encode maxBytes t" "\<forall>t \<in> set ?ts. t_Origin t \<noteq> [] \<and> t_Sequence t \<noteq> 0" using ok by blast+
  from SplitTasks_ok [OF this(1) False this(2) st(2)] obtain pages where
    p: "SplitTasks encode ?ts maxBytes = Some (Inr pages)" "\<forall>page \<in> set pages. page_body_bytes encode page \<le> maxBytes" .
  have l: "length ?ts < 2 ^ 64" using SnapshotForPeer_length [OF c] .
  from SplitTasks_pages(1) [OF st(1) og st(2) l p(1)] have "set (concat pages) = set ?ts" .
  then have "fst (post_pages memory_ops encode clk net maxBytes source 0 pages r) = None"
    using ok p(2) assms(3,4) by (intro rmem.post_pages_succeeds) simp_all
  with False p(1) show thesis
    by (intro that [of "snd (post_pages memory_ops encode clk net maxBytes source 0 pages r)"]) (simp add: push_tasks_def prod_eq_iff)
qed




subsection \<open>A concrete round\<close>

definition sample_pushed :: task where
  "sample_pushed = the (gm_get (m_tasks sample_chain1) ''task-1'')"

definition sample_encode :: "task \<Rightarrow> string option" where
  "sample_encode v = (if payload v = payload sample_pushed then Some ''{}'' else None)"

lemma sample_encode_faithful: "faithful sample_encode"
  by (simp add: faithful_def sample_encode_def)

lemma sample_chain1_tasks: "map fst (m_tasks sample_chain1) = [''task-1'']"
  by code_simp

lemma sample_replicating:
  "(replication_step memory_ops memory_ops [] sample_encode)\<^sup>*\<^sup>* (newManager 1 (Some NewMemoryStore) False, newManager 2 None False)
     (sample_chain1, newManager 2 None False)"
proof -
  have "mgr_step memory_ops [] sample_mgr0 sample_chain1" unfolding sample_chain1_def by (rule step_create)
  then have "replication_step memory_ops memory_ops [] sample_encode (sample_mgr0, newManager 2 None False) (sample_chain1, newManager 2 None False)"
    by (rule coordinate) (simp add: sample_mgr0_def newManager_def)
  then show ?thesis unfolding sample_mgr0_def by (rule r_into_rtranclp)
qed

lemma sample_codable: "gm_get (m_tasks sample_chain1) i = Some t \<Longrightarrow> codable sample_encode 100 t"
proof -
  assume g: "gm_get (m_tasks sample_chain1) i = Some t"
  obtain u where "m_tasks sample_chain1 = [(''task-1'', u)]" using sample_chain1_tasks by (auto simp: map_eq_Cons_conv)
  with g have "t = sample_pushed" by (auto simp: sample_pushed_def split: if_splits)
  then show ?thesis by (simp add: codable_def sample_encode_def)
qed



theorem merge_missing_never_overwrites_witness:
  "gm_get (m_tasks (snd (MergeMissingFrom memory_ops (\<lambda>_. None) (\<lambda>_. 0) [Some sample_task] ''peer''
     (put_task (t_ID sample_task) (sample_task\<lparr>t_Description := ''kept''\<rparr>) (newManager 1 None False))))) (t_ID sample_task) =
   Some (sample_task\<lparr>t_Description := ''kept''\<rparr>)"
  by (rule merge_missing_never_overwrites) (simp add: put_task_def)

theorem sync_keeps_manager_invariant_witness:
  "mgr_inv (snd (syncTasks memory_ops (\<lambda>_. None) (\<lambda>_. 0) [Some sample_pushed, None] True False ''peer'' (newManager 1 None False)))"
proof -
  have "mgr_inv sample_chain1" using mgr_step_inv [OF step_create mgr_inv_new] unfolding sample_chain1_def sample_mgr0_def by blast
  moreover obtain u where u: "m_tasks sample_chain1 = [(''task-1'', u)]" using sample_chain1_tasks by (auto simp: map_eq_Cons_conv)
  ultimately have "task_inv sample_pushed" by (simp add: mgr_inv_def sample_pushed_def)
  then have "\<forall>t. Some t \<in> set [Some sample_pushed, None] \<longrightarrow> task_inv t" by simp
  from sync_keeps_manager_invariant [OF mgr_inv_new this prod.collapse [symmetric]] show ?thesis by blast
qed

end
