(* ===== verification/Shard_Memory.thy ===== *)
theory Shard_Memory
  imports Go_Text "HOL-Library.Product_Lexorder" "HOL-Library.Multiset"
begin

text \<open>
  The arithmetic of shard planning (\<^verbatim>\<open>internal/shard\<close>): the size of a model
  (\<^verbatim>\<open>profile.go\<close>), the memory of a device (\<^verbatim>\<open>plan_memory.go\<close>) and the distribution of layers over
  devices (\<^verbatim>\<open>plan_placement.go\<close>). Sizes are 64 bit words, so that every overflow check of the code
  is a branch of the model; \<^verbatim>\<open>bits.Mul64\<close> and \<^verbatim>\<open>bits.Div64\<close> are modelled by 128 bit arithmetic on
  naturals. A Go \<^verbatim>\<open>int\<close> is an \<open>int\<close>: layer counts and indices, for which the theorems assume the
  range of the type where it matters.
\<close>

subsection \<open>Profiles, devices and candidates\<close>

record model_profile =
  mp_Name :: string
  mp_Architecture :: string
  mp_Parameters :: uint64
  mp_LayerCount :: int
  mp_HiddenSize :: int
  mp_KVHeads :: int
  mp_HeadDim :: int
  mp_VocabSize :: int
  mp_Quantization :: string
  mp_FileSizeBytes :: uint64
  mp_WeightsSizeBytes :: uint64
  mp_RequestedContext :: int

record device =
  dv_Kind :: string
  dv_Vendor :: string
  dv_Name :: string
  dv_Index :: int
  dv_MemoryMB :: uint64
  dv_FreeMemoryMB :: uint64
  dv_UnifiedMemory :: bool
  dv_Driver :: string
  dv_Backends :: "string list"

record network_link =
  nl_Name :: string
  nl_SpeedMbps :: uint64
  nl_RDMA :: bool
  nl_Trusted :: bool

record capabilities =
  ca_Devices :: "string list"
  ca_Backends :: "string list"
  ca_NPUVendors :: "string list"
  ca_Quantizations :: "string list"
  ca_PrimaryQuantization :: string
  ca_Modalities :: "string list"
  ca_MaxParallelSeqs :: int
  ca_MaxContextLength :: int
  ca_RequiresContextCap :: bool
  ca_SupportsSharding :: "string list"
  ca_HomogeneousOnly :: bool
  ca_OS :: "string list"
  ca_ValidatedRPC :: bool

record candidate_node =
  cn_ID :: string
  cn_OS :: string
  cn_RPCAddress :: string
  cn_RPCProtected :: bool
  cn_AllowInsecureShardNetwork :: bool
  cn_Devices :: "device list"
  cn_NetworkLinks :: "network_link list"
  cn_Capabilities :: capabilities

record memory_device =
  md_node :: candidate_node
  md_device :: device
  md_freeBytes :: uint64
  md_usableBytes :: uint64
  md_maxLayers :: int

subsection \<open>Arithmetic without overflow\<close>

abbreviation MaxUint64 :: uint64 where
  "MaxUint64 \<equiv> - 1"

definition mul64 :: "uint64 \<Rightarrow> uint64 \<Rightarrow> uint64 \<times> uint64" where
  "mul64 a b = (word_of_nat ((unat a * unat b) div 2 ^ 64), a * b)"

definition div64 :: "uint64 \<Rightarrow> uint64 \<Rightarrow> uint64 \<Rightarrow> uint64 \<times> uint64" where
  "div64 hi lo y =
     (let n = unat hi * 2 ^ 64 + unat lo in (word_of_nat (n div unat y), word_of_nat (n mod unat y)))"

datatype size_error = DivisionByZero | SizeOverflow | UnknownWeightsSize | UnknownQuantization string

definition multiplyDivideCeil :: "uint64 \<Rightarrow> uint64 \<Rightarrow> uint64 \<Rightarrow> size_error + uint64" where
  "multiplyDivideCeil a b divisor =
     (if divisor = 0 then Inl DivisionByZero
      else let (hi, lo) = mul64 a b
           in if divisor \<le> hi then Inl SizeOverflow
              else let (quotient, remainder) = div64 hi lo divisor
                   in if remainder \<noteq> 0
                      then (if quotient = MaxUint64 then Inl SizeOverflow else Inr (quotient + 1))
                      else Inr quotient)"

definition multiplyDivideFloorRem :: "uint64 \<Rightarrow> uint64 \<Rightarrow> uint64 \<Rightarrow> (uint64 \<times> uint64) option" where
  "multiplyDivideFloorRem a b divisor =
     (if divisor = 0 then None
      else let (hi, lo) = mul64 a b
           in if divisor \<le> hi then None else Some (div64 hi lo divisor))"

definition addTwo :: "uint64 \<Rightarrow> uint64 \<Rightarrow> uint64 option" where
  "addTwo a b = (if MaxUint64 - a < b then None else Some (a + b))"

definition addThree :: "uint64 \<Rightarrow> uint64 \<Rightarrow> uint64 \<Rightarrow> uint64 option" where
  "addThree a b c = (case addTwo a b of None \<Rightarrow> None | Some subtotal \<Rightarrow> addTwo subtotal c)"

definition mebibyte :: uint64 where
  "mebibyte = 1024 * 1024"

definition mbToBytes :: "uint64 \<Rightarrow> uint64 option" where
  "mbToBytes memoryMB = (if MaxUint64 div mebibyte < memoryMB then None else Some (memoryMB * mebibyte))"

fun kv_product :: "uint64 \<Rightarrow> uint64 list \<Rightarrow> uint64 option" where
  "kv_product val [] = Some val"
| "kv_product val (factor # factors) =
     (if val \<noteq> 0 \<and> MaxUint64 div val < factor then None else kv_product (val * factor) factors)"

definition modelKVBytes :: "model_profile \<Rightarrow> uint64 \<Rightarrow> uint64 option" where
  "modelKVBytes model bytesPerElement =
     kv_product 2 [word_of_int (mp_LayerCount model), word_of_int (mp_KVHeads model), word_of_int (mp_HeadDim model),
                   word_of_int (mp_RequestedContext model), bytesPerElement]"

subsection \<open>Size of the weights\<close>

definition is_digit :: "char \<Rightarrow> bool" where
  "is_digit c \<longleftrightarrow> CHR ''0'' \<le> c \<and> c \<le> CHR ''9''"

definition quantizationBits :: "string \<Rightarrow> int option" where
  "quantizationBits val =
     (let normalized = to_lower (trim_space val)
      in if normalized \<in> set [''f32'', ''float32'', ''fp32''] then Some 32
         else if normalized \<in> set [''f16'', ''float16'', ''fp16'', ''bf16'', ''bfloat16''] then Some 16
         else if normalized \<in> set [''q8'', ''q8_0'', ''q8_1'', ''int8'', ''8bit'', ''8-bit''] then Some 8
         else case dropWhile (\<lambda>c. c \<noteq> CHR ''q'') normalized of
                [] \<Rightarrow> None
              | _ # rest \<Rightarrow>
                  (let digits = takeWhile is_digit rest
                   in if digits = [] then None
                      else case parse_int 10 64 digits of
                             None \<Rightarrow> None
                           | Some bitsPerWeight \<Rightarrow>
                               if 0 < bitsPerWeight \<and> bitsPerWeight \<le> 32 then Some bitsPerWeight else None))"

definition EffectiveWeightsSizeBytes :: "model_profile \<Rightarrow> size_error + uint64" where
  "EffectiveWeightsSizeBytes model =
     (if 0 < mp_WeightsSizeBytes model then Inr (mp_WeightsSizeBytes model)
      else if 0 < mp_FileSizeBytes model then Inr (mp_FileSizeBytes model)
      else if mp_Parameters model = 0 then Inl UnknownWeightsSize
      else case quantizationBits (mp_Quantization model) of
             None \<Rightarrow> Inl (UnknownQuantization (mp_Quantization model))
           | Some bitsPerWeight \<Rightarrow> multiplyDivideCeil (mp_Parameters model) (word_of_int bitsPerWeight) 8)"

datatype profile_problem = BadLayerCount | BadHiddenSize | BadKVHeads | BadHeadDim | BadContext | BadWeights size_error

definition validateModelProfile :: "model_profile \<Rightarrow> profile_problem list" where
  "validateModelProfile model =
     (if mp_LayerCount model \<le> 0 then [BadLayerCount] else []) @
     (if mp_HiddenSize model \<le> 0 then [BadHiddenSize] else []) @
     (if mp_KVHeads model \<le> 0 then [BadKVHeads] else []) @
     (if mp_HeadDim model \<le> 0 then [BadHeadDim] else []) @
     (if mp_RequestedContext model \<le> 0 then [BadContext] else []) @
     (case EffectiveWeightsSizeBytes model of Inl e \<Rightarrow> [BadWeights e] | Inr _ \<Rightarrow> [])"

subsection \<open>Layers that fit\<close>

definition layerRange :: "int \<Rightarrow> int \<Rightarrow> int \<Rightarrow> int \<times> int" where
  "layerRange totalLayers partitions index =
     (let base = totalLayers div partitions;
          remainder = totalLayers mod partitions;
          start = index * base + (if index < remainder then index else remainder);
          count = (if index < remainder then base + 1 else base)
      in (start, start + count))"

definition layers_fit :: "uint64 \<Rightarrow> uint64 \<Rightarrow> uint64 \<Rightarrow> int \<Rightarrow> int \<Rightarrow> bool" where
  "layers_fit usableBytes weightsBytes kvBytes layerCount middle =
     (case (multiplyDivideCeil weightsBytes (word_of_int middle) (word_of_int layerCount),
            multiplyDivideCeil kvBytes (word_of_int middle) (word_of_int layerCount)) of
        (Inr weights, Inr kv) \<Rightarrow> (case addTwo weights kv of None \<Rightarrow> False | Some tot \<Rightarrow> tot \<le> usableBytes)
      | _ \<Rightarrow> False)"

function fit_search :: "(int \<Rightarrow> bool) \<Rightarrow> int \<Rightarrow> int \<Rightarrow> int" where
  "fit_search fits low high =
     (if low < high
      then let middle = low + (high - low + 1) div 2
           in if fits middle then fit_search fits middle high else fit_search fits low (middle - 1)
      else low)"
  by pat_completeness auto
termination by (relation "measure (\<lambda>(_, low, high). nat (high - low))") auto

declare fit_search.simps [simp del]

definition maximumLayersThatFit :: "uint64 \<Rightarrow> uint64 \<Rightarrow> uint64 \<Rightarrow> int \<Rightarrow> int" where
  "maximumLayersThatFit usableBytes weightsBytes kvBytes layerCount =
     fit_search (layers_fit usableBytes weightsBytes kvBytes layerCount) 0 layerCount"

subsection \<open>Proportional distribution\<close>

fun total_capacity :: "uint64 \<Rightarrow> memory_device list \<Rightarrow> uint64 option" where
  "total_capacity tot [] = Some tot"
| "total_capacity tot (r # rs) =
     (if MaxUint64 - tot < md_freeBytes r then None else total_capacity (tot + md_freeBytes r) rs)"

fun layer_capacity :: "int \<Rightarrow> int \<Rightarrow> memory_device list \<Rightarrow> int" where
  "layer_capacity layerCount acc [] = acc"
| "layer_capacity layerCount acc (r # rs) =
     (if layerCount - acc \<le> md_maxLayers r then layerCount else layer_capacity layerCount (acc + md_maxLayers r) rs)"

text \<open>The share of one device, never more than what it can hold, and the remainder of the division.\<close>

definition capped_share :: "int \<Rightarrow> uint64 \<Rightarrow> uint64 \<Rightarrow> int \<Rightarrow> (int \<times> uint64) option" where
  "capped_share layers freeBytes tot available =
     (case multiplyDivideFloorRem (word_of_int layers) freeBytes tot of
        None \<Rightarrow> None
      | Some (share, remainder) \<Rightarrow>
          Some (uint (if word_of_int available < share then word_of_int available else share), remainder))"

fun initial_shares :: "int \<Rightarrow> uint64 \<Rightarrow> memory_device list \<Rightarrow> (int \<times> uint64) list option" where
  "initial_shares layerCount tot [] = Some []"
| "initial_shares layerCount tot (r # rs) =
     (case (if md_freeBytes r = 0 then Some (0, 0) else capped_share layerCount (md_freeBytes r) tot (md_maxLayers r)) of
        None \<Rightarrow> None
      | Some p \<Rightarrow> map_option (\<lambda>ps. p # ps) (initial_shares layerCount tot rs))"

fun hand_out :: "nat list \<Rightarrow> int list \<Rightarrow> int \<Rightarrow> int list \<times> int" where
  "hand_out [] assignments remaining = (assignments, remaining)"
| "hand_out (i # is) assignments remaining =
     (if remaining = 0 then (assignments, remaining)
      else hand_out is (assignments[i := assignments ! i + 1]) (remaining - 1))"

text \<open>The devices with room for another layer, those with the largest remainder first.\<close>

definition top_up_order :: "memory_device list \<Rightarrow> uint64 list \<Rightarrow> int list \<Rightarrow> nat list" where
  "top_up_order resources remainders assignments =
     sort_key (\<lambda>i. (- uint (remainders ! i), i))
       (filter (\<lambda>i. assignments ! i < md_maxLayers (resources ! i)) [0..<length resources])"

definition top_up :: "memory_device list \<Rightarrow> uint64 list \<Rightarrow> int list \<Rightarrow> int \<Rightarrow> int list \<times> int" where
  "top_up resources remainders assignments remaining =
     hand_out (top_up_order resources remainders assignments) assignments remaining"

fun active_weight :: "uint64 \<Rightarrow> (memory_device \<times> int) list \<Rightarrow> uint64 option" where
  "active_weight acc [] = Some acc"
| "active_weight acc ((r, a) # rs) =
     (if a < md_maxLayers r
      then (if MaxUint64 - acc < md_freeBytes r then None else active_weight (acc + md_freeBytes r) rs)
      else active_weight acc rs)"

fun round_shares :: "int \<Rightarrow> uint64 \<Rightarrow> (memory_device \<times> int) list \<Rightarrow> (int \<times> uint64) list option" where
  "round_shares roundLayers weight [] = Some []"
| "round_shares roundLayers weight ((r, a) # rs) =
     (case (if md_maxLayers r - a \<le> 0 then Some (0, 0)
            else capped_share roundLayers (md_freeBytes r) weight (md_maxLayers r - a)) of
        None \<Rightarrow> None
      | Some (share, remainder) \<Rightarrow> map_option (\<lambda>ps. (a + share, remainder) # ps) (round_shares roundLayers weight rs))"

lemma hand_out_le: "hand_out is assignments remaining = (assignments', remaining') \<Longrightarrow> remaining' \<le> remaining"
proof (induction "is" arbitrary: assignments remaining)
  case (Cons i "is")
  then show ?case by (fastforce split: if_splits)
qed simp

lemma round_shares_ge: "round_shares n w rs = Some ps \<Longrightarrow> sum_list (map snd rs) \<le> sum_list (map fst ps)"
proof (induction rs arbitrary: ps)
  case (Cons x rs)
  obtain r a where x: "x = (r, a)" by fastforce
  from Cons.prems x obtain s m ps' where "ps = (a + s, m) # ps'" "round_shares n w rs = Some ps'" "0 \<le> s"
    by (auto simp: capped_share_def split: option.splits if_splits)
  with Cons.IH [of ps'] x show ?case by simp
qed simp

text \<open>The rounds of the distribution; each round that neither ends it nor fails hands out a layer.\<close>

function spread :: "memory_device list \<Rightarrow> int list \<Rightarrow> int \<Rightarrow> int list option" where
  "spread resources assignments remaining =
     (if remaining \<le> 0 then Some assignments
      else case active_weight 0 (zip resources assignments) of
             None \<Rightarrow> None
           | Some activeWeight \<Rightarrow>
               if activeWeight = 0 then None
               else (case round_shares remaining activeWeight (zip resources assignments) of
                       None \<Rightarrow> None
                     | Some ps \<Rightarrow>
                         (let assignments1 = map fst ps;
                              remaining1 = remaining - (sum_list assignments1 - sum_list (map snd (zip resources assignments)))
                          in if remaining1 = 0 then Some assignments1
                             else let (assignments2, remaining2) = top_up resources (map snd ps) assignments1 remaining1
                                  in if remaining2 = remaining then None else spread resources assignments2 remaining2)))"
  by pat_completeness auto
termination
proof (relation "measure (\<lambda>(_, _, remaining). nat remaining)")
  fix resources assignments remaining w ps as1 r1 x as2 r2
  assume "\<not> remaining \<le> (0 :: int)" and s: "round_shares remaining w (zip resources assignments) = Some ps"
    and d: "as1 = map fst ps" "r1 = remaining - (sum_list as1 - sum_list (map snd (zip resources assignments)))"
      "x = top_up resources (map snd ps) as1 r1" "(as2, r2) = x" "r2 \<noteq> remaining"
  have "r1 \<le> remaining" using round_shares_ge [OF s] d(1,2) by simp
  moreover have "r2 \<le> r1" using hand_out_le d(3,4) unfolding top_up_def by metis
  ultimately show "((resources, as2, r2), resources, assignments, remaining) \<in> measure (\<lambda>(_, _, remaining). nat remaining)"
    using \<open>\<not> remaining \<le> 0\<close> d(5) by simp
qed simp

declare spread.simps [simp del]

definition proportionalLayerAssignments :: "memory_device list \<Rightarrow> int \<Rightarrow> int list option" where
  "proportionalLayerAssignments resources layerCount =
     (if resources = [] then None
      else case total_capacity 0 resources of
             None \<Rightarrow> None
           | Some totalCapacity \<Rightarrow>
               if totalCapacity = 0 then None
               else if layer_capacity layerCount 0 resources < layerCount then None
               else (case initial_shares layerCount totalCapacity resources of
                       None \<Rightarrow> None
                     | Some ps \<Rightarrow>
                         (let assignments = map fst ps;
                              remaining = layerCount - sum_list assignments;
                              (assignments1, remaining1) =
                                (if 0 < remaining then top_up resources (map snd ps) assignments remaining
                                 else (assignments, remaining))
                          in spread resources assignments1 remaining1)))"

subsection \<open>Exact arithmetic\<close>

lemma unat_lt64: "unat (x :: uint64) < 2 ^ 64"
  using unsigned_less [of x] by simp

lemma unat_of_nat64: "n < 2 ^ 64 \<Longrightarrow> unat (word_of_nat n :: uint64) = n"
  by (simp add: unsigned_of_nat take_bit_nat_eq_self)

lemma unat_MaxUint64: "unat MaxUint64 = 2 ^ 64 - 1"
  by (simp add: unsigned_minus_1_eq_mask mask_eq_exp_minus_1)

lemma mul64_exact:
  assumes "mul64 a b = (hi, lo)"
  shows "unat hi * 2 ^ 64 + unat lo = unat a * unat b" "unat hi = (unat a * unat b) div 2 ^ 64"
proof -
  have "unat a * unat b < 2 ^ 64 * 2 ^ 64" using unat_lt64 [of a] unat_lt64 [of b] by (intro mult_strict_mono') simp_all
  then have "(unat a * unat b) div 2 ^ 64 < 2 ^ 64" by (rule less_mult_imp_div_less)
  then show hi: "unat hi = (unat a * unat b) div 2 ^ 64" using assms unat_of_nat64 by (auto simp: mul64_def)
  have "unat lo = (unat a * unat b) mod 2 ^ 64" using assms by (auto simp: mul64_def unat_word_ariths)
  then show "unat hi * 2 ^ 64 + unat lo = unat a * unat b" unfolding hi by (simp add: div_mult_mod_eq)
qed

lemma mul64_overflow: "mul64 a b = (hi, lo) \<Longrightarrow> divisor \<le> hi \<longleftrightarrow> unat divisor * 2 ^ 64 \<le> unat a * unat b"
  using mul64_exact(2) [of a b hi lo] by (simp add: word_le_nat_alt less_eq_div_iff_mult_less_eq)

lemma div64_exact:
  assumes "mul64 a b = (hi, lo)" "\<not> divisor \<le> hi" "div64 hi lo divisor = (q, r)"
  shows "unat q = (unat a * unat b) div unat divisor" "unat r = (unat a * unat b) mod unat divisor"
proof -
  have d: "0 < unat divisor" using assms(2) by (simp add: word_le_nat_alt)
  have "unat a * unat b < unat divisor * 2 ^ 64" using assms(1,2) mul64_overflow [of a b hi lo divisor] by simp
  then have "(unat a * unat b) div unat divisor < 2 ^ 64" using d by (simp add: div_less_iff_less_mult mult.commute)
  moreover have "(unat a * unat b) mod unat divisor < 2 ^ 64" using mod_less_divisor [OF d] unat_lt64 [of divisor] by (rule less_trans)
  ultimately show "unat q = (unat a * unat b) div unat divisor" "unat r = (unat a * unat b) mod unat divisor"
    using assms(3) mul64_exact(1) [OF assms(1)] unat_of_nat64 by (auto simp: div64_def Let_def)
qed

text \<open>The quotient rounded up.\<close>

definition ceil_div :: "nat \<Rightarrow> nat \<Rightarrow> nat" where
  "ceil_div n d = n div d + (if n mod d = 0 then 0 else 1)"

lemma multiplyDivideCeil_exact:
  "multiplyDivideCeil a b divisor =
     (if divisor = 0 then Inl DivisionByZero
      else if ceil_div (unat a * unat b) (unat divisor) < 2 ^ 64
      then Inr (word_of_nat (ceil_div (unat a * unat b) (unat divisor)))
      else Inl SizeOverflow)"
proof (cases "divisor = 0")
  case False
  let ?n = "unat a * unat b" and ?d = "unat divisor"
  have d: "0 < ?d" using False by (simp add: unat_gt_0)
  obtain hi lo where m: "mul64 a b = (hi, lo)" by fastforce
  show ?thesis
  proof (cases "divisor \<le> hi")
    case True
    with m have "?d * 2 ^ 64 \<le> ?n" using mul64_overflow by blast
    then have "2 ^ 64 \<le> ?n div ?d" using d by (simp add: less_eq_div_iff_mult_less_eq mult.commute)
    then have "\<not> ceil_div ?n ?d < 2 ^ 64" by (simp add: ceil_div_def)
    with False True m show ?thesis by (simp add: multiplyDivideCeil_def)
  next
    case fits: False
    obtain q r where qr: "div64 hi lo divisor = (q, r)" by fastforce
    note e = div64_exact [OF m fits qr]
    have r: "r = 0 \<longleftrightarrow> ?n mod ?d = 0" using e(2) by (metis unat_eq_zero)
    have q: "q = MaxUint64 \<longleftrightarrow> ?n div ?d = 2 ^ 64 - 1"
    proof -
      have "q = MaxUint64 \<longleftrightarrow> unat q = unat MaxUint64" by (simp only: word_unat_eq_iff)
      then show ?thesis using e(1) by (simp add: unat_MaxUint64)
    qed
    have lt: "?n div ?d < 2 ^ 64" using e(1) unat_lt64 [of q] by simp
    have n: "q = word_of_nat (?n div ?d)" using e(1) unat_of_nat64 [OF lt] by (simp add: word_unat_eq_iff)
    show ?thesis using False fits m qr r q lt n
      by (auto simp: multiplyDivideCeil_def ceil_div_def)
  qed
qed (simp add: multiplyDivideCeil_def)

lemma multiplyDivideFloorRem_exact:
  "multiplyDivideFloorRem a b divisor = Some (q, r) \<longleftrightarrow>
     unat a * unat b < unat divisor * 2 ^ 64 \<and>
     unat q = (unat a * unat b) div unat divisor \<and> unat r = (unat a * unat b) mod unat divisor"
proof -
  obtain hi lo where m: "mul64 a b = (hi, lo)" by fastforce
  show ?thesis
  proof (cases "divisor \<le> hi \<or> divisor = 0")
    case True
    with mul64_overflow [OF m, of divisor] m show ?thesis by (auto simp: multiplyDivideFloorRem_def)
  next
    case False
    obtain q' r' where qr: "div64 hi lo divisor = (q', r')" by fastforce
    from False div64_exact [OF m _ qr] mul64_overflow [OF m, of divisor] m qr show ?thesis
      by (auto simp: multiplyDivideFloorRem_def word_unat_eq_iff)
  qed
qed

lemma addTwo_exact: "addTwo a b = Some c \<longleftrightarrow> unat a + unat b = unat c"
proof -
  have "unat (MaxUint64 - a) = 2 ^ 64 - 1 - unat a" by (simp add: unat_sub word_n1_ge unat_MaxUint64)
  then have "MaxUint64 - a < b \<longleftrightarrow> 2 ^ 64 \<le> unat a + unat b" using unat_lt64 [of a] by (auto simp: word_less_nat_alt)
  then show ?thesis using unat_lt64 [of c] unat_add_lem [of a b]
    by (auto simp: addTwo_def word_unat_eq_iff)
qed

lemma addThree_exact: "addThree a b c = Some d \<longleftrightarrow> unat a + unat b + unat c = unat d"
proof (cases "addTwo a b")
  case None
  then have "2 ^ 64 \<le> unat a + unat b" using addTwo_exact [of a b "word_of_nat (unat a + unat b)"] unat_of_nat64 [of "unat a + unat b"] by force
  with None show ?thesis using unat_lt64 [of d] by (simp add: addThree_def)
next
  case (Some e)
  then show ?thesis using addTwo_exact [of a b e] addTwo_exact [of e c d] by (simp add: addThree_def)
qed


subsection \<open>The search for the largest number of layers\<close>

lemma ceil_div_mono: "m \<le> n \<Longrightarrow> ceil_div m d \<le> ceil_div n d"
proof (cases "m div d = n div d")
  case True
  assume "m \<le> n"
  then have "m mod d \<le> n mod d" using True by (metis div_mult_mod_eq nat_add_left_cancel_le)
  with True show ?thesis by (simp add: ceil_div_def)
next
  case False
  assume "m \<le> n"
  then have "m div d < n div d" using False div_le_mono [of m n d] by simp
  then show ?thesis by (simp add: ceil_div_def)
qed

lemma ceil_div_le: "0 < d \<Longrightarrow> k \<le> d \<Longrightarrow> ceil_div (n * k) d \<le> n"
  using ceil_div_mono [of "n * k" "n * d" d] by (simp add: ceil_div_def)

text \<open>The bytes that \<open>k\<close> of the layers need, in exact arithmetic.\<close>

definition layer_bytes :: "uint64 \<Rightarrow> uint64 \<Rightarrow> int \<Rightarrow> int \<Rightarrow> nat" where
  "layer_bytes weightsBytes kvBytes layerCount k =
     ceil_div (unat weightsBytes * nat k) (nat layerCount) + ceil_div (unat kvBytes * nat k) (nat layerCount)"

lemma layer_bytes_mono: "j \<le> k \<Longrightarrow> layer_bytes w kv n j \<le> layer_bytes w kv n k"
  unfolding layer_bytes_def by (intro add_mono ceil_div_mono mult_le_mono2 nat_mono)

lemma unat_of_int: "0 \<le> k \<Longrightarrow> k < 2 ^ 63 \<Longrightarrow> unat (word_of_int k :: uint64) = nat k"
proof -
  assume "0 \<le> k" "k < 2 ^ 63"
  then have "nat k < 2 ^ 64" by (simp add: nat_less_iff)
  moreover have "(word_of_int k :: uint64) = word_of_nat (nat k)" using \<open>0 \<le> k\<close> by simp
  ultimately show ?thesis using unat_of_nat64 by metis
qed

lemma mdc_layers:
  assumes "0 < n" "n < 2 ^ 63" "0 \<le> k" "k \<le> n"
  shows "multiplyDivideCeil b (word_of_int k) (word_of_int n) = Inr (word_of_nat (ceil_div (unat b * nat k) (nat n)))"
    "ceil_div (unat b * nat k) (nat n) < 2 ^ 64"
proof -
  have u: "unat (word_of_int k :: uint64) = nat k" "unat (word_of_int n :: uint64) = nat n" using assms by (simp_all add: unat_of_int)
  have "ceil_div (unat b * nat k) (nat n) \<le> unat b" using assms by (intro ceil_div_le) (simp_all add: nat_mono)
  then show lt: "ceil_div (unat b * nat k) (nat n) < 2 ^ 64" using unat_lt64 [of b] by (rule le_less_trans)
  have "(word_of_int n :: uint64) \<noteq> 0" using u(2) assms(1) by auto
  then show "multiplyDivideCeil b (word_of_int k) (word_of_int n) = Inr (word_of_nat (ceil_div (unat b * nat k) (nat n)))"
    unfolding multiplyDivideCeil_exact u using lt by simp
qed

lemma layers_fit_exact:
  assumes "0 < n" "n < 2 ^ 63" "0 \<le> k" "k \<le> n"
  shows "layers_fit usable w kv n k \<longleftrightarrow> layer_bytes w kv n k \<le> unat usable"
proof -
  let ?a = "ceil_div (unat w * nat k) (nat n)" and ?b = "ceil_div (unat kv * nat k) (nat n)"
  note l = mdc_layers [OF assms]
  have u: "unat (word_of_nat ?a :: uint64) = ?a" "unat (word_of_nat ?b :: uint64) = ?b" by (rule unat_of_nat64, rule l(2))+
  show ?thesis
  proof (cases "addTwo (word_of_nat ?a) (word_of_nat ?b)")
    case None
    then have "2 ^ 64 \<le> ?a + ?b"
      using addTwo_exact [of "word_of_nat ?a" "word_of_nat ?b" "word_of_nat (?a + ?b)"] unat_of_nat64 [of "?a + ?b"] u by force
    then have "\<not> layer_bytes w kv n k \<le> unat usable" using unat_lt64 [of usable] unfolding layer_bytes_def by linarith
    then show ?thesis using None l(1) by (simp add: layers_fit_def)
  next
    case (Some c)
    from iffD1 [OF addTwo_exact this] have "?a + ?b = unat c" unfolding u .
    then show ?thesis using Some l(1) by (simp add: layers_fit_def layer_bytes_def word_le_nat_alt)
  qed
qed

lemma fit_search_max:
  assumes "\<And>j k. low \<le> j \<Longrightarrow> j \<le> k \<Longrightarrow> k \<le> high \<Longrightarrow> fits k \<Longrightarrow> fits j" "low \<le> high" "fits low"
  shows "low \<le> fit_search fits low high \<and> fit_search fits low high \<le> high \<and> fits (fit_search fits low high) \<and>
    (\<forall>k. fit_search fits low high < k \<longrightarrow> k \<le> high \<longrightarrow> \<not> fits k)"
  using assms
proof (induction fits low high rule: fit_search.induct)
  case (1 fits low high)
  show ?case
  proof (cases "low < high")
    case True
    let ?m = "low + (high - low + 1) div 2"
    have m: "low < ?m" "?m \<le> high" using True by linarith+
    show ?thesis
    proof (cases "fits ?m")
      case fit: True
      have "?m \<le> fit_search fits ?m high \<and> fit_search fits ?m high \<le> high \<and> fits (fit_search fits ?m high) \<and>
          (\<forall>k. fit_search fits ?m high < k \<longrightarrow> k \<le> high \<longrightarrow> \<not> fits k)"
        using m by (intro 1(1) [OF True refl fit]) (use 1(3) fit in auto)
      moreover have "fit_search fits low high = fit_search fits ?m high" using True fit by (subst fit_search.simps) simp
      ultimately show ?thesis using m by simp
    next
      case nofit: False
      have "low \<le> fit_search fits low (?m - 1) \<and> fit_search fits low (?m - 1) \<le> ?m - 1 \<and> fits (fit_search fits low (?m - 1)) \<and>
          (\<forall>k. fit_search fits low (?m - 1) < k \<longrightarrow> k \<le> ?m - 1 \<longrightarrow> \<not> fits k)"
        using m by (intro 1(2) [OF True refl nofit]) (use 1(3,5) in auto)
      moreover have "\<not> fits k" if "?m \<le> k" "k \<le> high" for k using nofit 1(3) [of ?m k] m that by auto
      moreover have "fit_search fits low high = fit_search fits low (?m - 1)" using True nofit by (subst fit_search.simps) simp
      ultimately have a: "low \<le> fit_search fits low high" "fit_search fits low high \<le> ?m - 1" "fits (fit_search fits low high)"
        "\<And>k. fit_search fits low high < k \<Longrightarrow> k \<le> ?m - 1 \<Longrightarrow> \<not> fits k" "\<And>k. ?m \<le> k \<Longrightarrow> k \<le> high \<Longrightarrow> \<not> fits k" by auto
      have "\<not> fits k" if "fit_search fits low high < k" "k \<le> high" for k using a(4,5) [of k] that by linarith
      with a(1-3) m show ?thesis by auto
    qed
  next
    case False
    then have "fit_search fits low high = low" by (subst fit_search.simps) simp
    then show ?thesis using False 1(4,5) by auto
  qed
qed

lemma maximumLayersThatFit_max:
  assumes "0 < n" "n < 2 ^ 63"
  shows "0 \<le> maximumLayersThatFit usable w kv n \<and> maximumLayersThatFit usable w kv n \<le> n \<and>
    (\<forall>k. 0 \<le> k \<longrightarrow> k \<le> n \<longrightarrow> (layer_bytes w kv n k \<le> unat usable \<longleftrightarrow> k \<le> maximumLayersThatFit usable w kv n))"
proof -
  let ?f = "layers_fit usable w kv n" and ?m = "maximumLayersThatFit usable w kv n"
  have e: "?f k \<longleftrightarrow> layer_bytes w kv n k \<le> unat usable" if "0 \<le> k" "k \<le> n" for k using layers_fit_exact [OF assms that] .
  have mono: "?f j" if "0 \<le> j" "j \<le> k" "k \<le> n" "?f k" for j k
    using e [of j] e [of k] that layer_bytes_mono [OF that(2), of w kv n] by simp
  have "?f 0" using e [of 0] assms(1) by (simp add: layer_bytes_def ceil_div_def)
  from fit_search_max [of 0 n ?f, OF mono _ this] assms(1) have
    m: "0 \<le> ?m" "?m \<le> n" "?f ?m" "\<And>k. ?m < k \<Longrightarrow> k \<le> n \<Longrightarrow> \<not> ?f k" by (auto simp: maximumLayersThatFit_def)
  have "layer_bytes w kv n k \<le> unat usable \<longleftrightarrow> k \<le> ?m" if "0 \<le> k" "k \<le> n" for k
    using e [OF that] mono [OF that(1) _ m(2,3)] m(4) [OF _ that(2)] by (meson not_less)
  with m(1,2) show ?thesis by blast
qed

subsection \<open>Correctness of the distribution\<close>

lemma total_capacity_exact: "total_capacity t rs = Some c \<longleftrightarrow> unat t + sum_list (map (\<lambda>r. unat (md_freeBytes r)) rs) = unat c"
proof (induction rs arbitrary: t)
  case Nil
  then show ?case by (auto simp: word_unat_eq_iff)
next
  case (Cons r rs)
  show ?case
  proof (cases "addTwo t (md_freeBytes r)")
    case None
    then have "2 ^ 64 \<le> unat t + unat (md_freeBytes r)"
      using addTwo_exact [of t "md_freeBytes r" "word_of_nat (unat t + unat (md_freeBytes r))"] unat_of_nat64 [of "unat t + unat (md_freeBytes r)"] by force
    then have "unat t + sum_list (map (\<lambda>r. unat (md_freeBytes r)) (r # rs)) \<noteq> unat c" using unat_lt64 [of c] by simp
    moreover have "MaxUint64 - t < md_freeBytes r" using None by (simp add: addTwo_def split: if_splits)
    ultimately show ?thesis by simp
  next
    case (Some e)
    then have "\<not> MaxUint64 - t < md_freeBytes r" "e = t + md_freeBytes r" by (simp_all add: addTwo_def split: if_splits)
    moreover have "unat t + unat (md_freeBytes r) = unat e" using iffD1 [OF addTwo_exact Some] .
    ultimately show ?thesis using Cons.IH [of e] by (simp add: add.assoc [symmetric])
  qed
qed

lemma layer_capacity_exact:
  "acc \<le> n \<Longrightarrow> \<forall>r \<in> set rs. 0 \<le> md_maxLayers r \<Longrightarrow>
     layer_capacity n acc rs < n \<longleftrightarrow> acc + sum_list (map md_maxLayers rs) < n"
proof (induction rs arbitrary: acc)
  case (Cons r rs)
  have "0 \<le> sum_list (map md_maxLayers rs)" using Cons.prems(2) by (intro sum_list_nonneg) auto
  with Cons show ?case by (auto simp: add.assoc)
qed simp

definition floor_share :: "int \<Rightarrow> uint64 \<Rightarrow> uint64 \<Rightarrow> int" where
  "floor_share n f t = int ((nat n * unat f) div unat t)"

lemma floor_share_bounds: "0 \<le> n \<Longrightarrow> f \<le> t \<Longrightarrow> 0 \<le> floor_share n f t \<and> floor_share n f t \<le> n"
proof -
  assume n: "0 \<le> n" and f: "f \<le> t"
  have "nat n * unat f \<le> nat n * unat t" using f by (simp add: word_le_nat_alt)
  then have "(nat n * unat f) div unat t \<le> (nat n * unat t) div unat t" by (rule div_le_mono)
  also have "\<dots> \<le> nat n" by (cases "unat t = 0") simp_all
  finally show ?thesis using n by (simp add: floor_share_def nat_le_iff flip: zle_int)
qed

lemma capped_share_exact:
  assumes "0 \<le> n" "n < 2 ^ 63" "f \<le> t" "t \<noteq> 0" "0 \<le> available" "available < 2 ^ 63"
  shows "\<exists>m. capped_share n f t available = Some (min available (floor_share n f t), m)"
proof -
  let ?q = "(nat n * unat f) div unat t" and ?r = "(nat n * unat f) mod unat t"
  have n: "unat (word_of_int n :: uint64) = nat n" using assms(1,2) by (rule unat_of_int)
  have t: "0 < unat t" using assms(4) by (simp add: unat_gt_0)
  have "nat n < 2 ^ 64" using assms(1,2) by (simp add: nat_less_iff)
  then have "nat n * unat t < 2 ^ 64 * unat t" using t by simp
  moreover have "nat n * unat f \<le> nat n * unat t" using assms(3) by (simp add: word_le_nat_alt)
  ultimately have lt: "nat n * unat f < unat t * 2 ^ 64" unfolding mult.commute [of "unat t"] by (meson le_less_trans)
  have q: "?q < 2 ^ 64" using lt t by (simp add: div_less_iff_less_mult mult.commute)
  have r: "?r < 2 ^ 64" using mod_less_divisor [OF t, of "nat n * unat f"] unat_lt64 [of t] by (rule less_trans)
  have "multiplyDivideFloorRem (word_of_int n) f t = Some (word_of_nat ?q, word_of_nat ?r)"
    unfolding multiplyDivideFloorRem_exact n unat_of_nat64 [OF q] unat_of_nat64 [OF r] using lt by simp
  moreover have "uint (if word_of_int available < (word_of_nat ?q :: uint64) then word_of_int available else (word_of_nat ?q :: uint64)) =
      min available (floor_share n f t)"
  proof -
    have a: "unat (word_of_int available :: uint64) = nat available" using assms(5,6) by (rule unat_of_int)
    have c: "word_of_int available < (word_of_nat ?q :: uint64) \<longleftrightarrow> available < int ?q"
      using assms(5) by (simp add: word_less_nat_alt a unat_of_nat64 [OF q] nat_less_iff)
    have u: "uint (word_of_int available :: uint64) = available" using a assms(5) by (simp add: uint_nat)
    have v: "uint (word_of_nat ?q :: uint64) = int ?q" unfolding uint_nat unat_of_nat64 [OF q] ..
    show ?thesis unfolding c floor_share_def using u v by (simp add: min_def)
  qed
  ultimately show ?thesis by (simp add: capped_share_def)
qed

lemma div_add_le: "a div d + b div d \<le> (a + b) div (d :: nat)"
proof (cases "d = 0")
  case False
  have "a div d * d + b div d * d \<le> a + b" by (intro add_mono) simp_all
  then have "(a div d + b div d) * d \<le> a + b" by (simp only: distrib_right)
  with False show ?thesis by (simp add: less_eq_div_iff_mult_less_eq)
qed simp

lemma int_sum_list: "int (sum_list (map f xs)) = sum_list (map (\<lambda>x. int (f x)) xs)"
  by (induction xs) simp_all

lemma sum_floor_share:
  assumes "0 \<le> n" "sum_list (map unat fs) \<le> unat t"
  shows "sum_list (map (\<lambda>f. floor_share n f t) fs) \<le> n"
proof -
  have "sum_list (map (\<lambda>f. (nat n * unat f) div d) fs) \<le> (nat n * sum_list (map unat fs)) div d" for d
  proof (induction fs)
    case (Cons f fs)
    from order_trans [OF add_left_mono [OF Cons.IH] div_add_le] show ?case by (simp add: distrib_left)
  qed simp
  also have "(nat n * sum_list (map unat fs)) div unat t \<le> (nat n * unat t) div unat t" using assms(2) by (intro div_le_mono) simp
  also have "\<dots> \<le> nat n" by (cases "unat t = 0") simp_all
  finally have "int (sum_list (map (\<lambda>f. (nat n * unat f) div unat t) fs)) \<le> n" using assms(1) by (simp add: le_nat_iff)
  then show ?thesis by (simp only: floor_share_def int_sum_list)
qed

lemma initial_shares_exact:
  assumes "0 \<le> n" "n < 2 ^ 63" "t \<noteq> 0" "\<forall>r \<in> set rs. md_freeBytes r \<le> t \<and> 0 \<le> md_maxLayers r \<and> md_maxLayers r \<le> n"
  shows "\<exists>ps. initial_shares n t rs = Some ps \<and> map fst ps = map (\<lambda>r. min (md_maxLayers r) (floor_share n (md_freeBytes r) t)) rs"
  using assms(4)
proof (induction rs)
  case (Cons r rs)
  then obtain ps where ps: "initial_shares n t rs = Some ps" "map fst ps = map (\<lambda>r. min (md_maxLayers r) (floor_share n (md_freeBytes r) t)) rs" by auto
  have "\<exists>m. (if md_freeBytes r = 0 then Some (0, 0) else capped_share n (md_freeBytes r) t (md_maxLayers r)) =
      Some (min (md_maxLayers r) (floor_share n (md_freeBytes r) t), m)"
  proof (cases "md_freeBytes r = 0")
    case True
    then show ?thesis using Cons.prems by (simp add: floor_share_def)
  next
    case False
    then show ?thesis using capped_share_exact [of n "md_freeBytes r" t "md_maxLayers r"] Cons.prems assms(1-3) by simp
  qed
  with ps show ?case by auto
qed simp

lemma active_weight_exact:
  "active_weight acc xs = Some w \<longleftrightarrow>
     unat acc + sum_list (map (\<lambda>x. unat (md_freeBytes (fst x))) (filter (\<lambda>x. snd x < md_maxLayers (fst x)) xs)) = unat w"
proof -
  have "active_weight acc xs = total_capacity acc (map fst (filter (\<lambda>x. snd x < md_maxLayers (fst x)) xs))"
    by (induction acc xs rule: active_weight.induct) simp_all
  then show ?thesis by (simp add: total_capacity_exact comp_def)
qed

definition dealt_share :: "int \<Rightarrow> uint64 \<Rightarrow> memory_device \<times> int \<Rightarrow> int" where
  "dealt_share n w x = (case x of (r, a) \<Rightarrow>
     if md_maxLayers r - a \<le> 0 then 0 else min (md_maxLayers r - a) (floor_share n (md_freeBytes r) w))"

lemma round_shares_exact:
  assumes "0 \<le> n" "n < 2 ^ 63" "w \<noteq> 0"
    and "\<forall>(r, a) \<in> set xs. 0 \<le> a \<and> md_maxLayers r < 2 ^ 63 \<and> (a < md_maxLayers r \<longrightarrow> md_freeBytes r \<le> w)"
  shows "\<exists>ps. round_shares n w xs = Some ps \<and> map fst ps = map (\<lambda>x. snd x + dealt_share n w x) xs"
  using assms(4)
proof (induction xs)
  case (Cons x xs)
  obtain r a where x: "x = (r, a)" by fastforce
  from Cons obtain ps where ps: "round_shares n w xs = Some ps" "map fst ps = map (\<lambda>x. snd x + dealt_share n w x) xs" by auto
  have "\<exists>m. (if md_maxLayers r - a \<le> 0 then Some (0, 0) else capped_share n (md_freeBytes r) w (md_maxLayers r - a)) =
      Some (dealt_share n w x, m)"
    using capped_share_exact [of n "md_freeBytes r" w "md_maxLayers r - a"] Cons.prems assms(1-3) x by (simp add: dealt_share_def)
  with ps x show ?case by auto
qed simp

lemma sum_list_update_int: "i < length as \<Longrightarrow> sum_list (as[i := x]) = sum_list as + x - (as ! i :: int)"
  by (induction as arbitrary: i) (auto split: nat.split)

lemma hand_out_exact:
  assumes "hand_out is as n = (as', n')" "distinct is" "\<forall>i \<in> set is. i < length as" "0 \<le> n"
  shows "length as' = length as \<and> 0 \<le> n' \<and> sum_list as' + n' = sum_list as + n \<and>
    (\<forall>i < length as. as ! i \<le> as' ! i \<and> as' ! i \<le> as ! i + (if i \<in> set is then 1 else 0)) \<and> (is \<noteq> [] \<and> 0 < n \<longrightarrow> n' < n)"
  using assms
proof (induction "is" arbitrary: as n)
  case (Cons i "is")
  show ?case
  proof (cases "n = 0")
    case False
    let ?as = "as[i := as ! i + 1]"
    have ih: "length as' = length ?as" "0 \<le> n'" "sum_list as' + n' = sum_list ?as + (n - 1)"
        "\<forall>j < length ?as. ?as ! j \<le> as' ! j \<and> as' ! j \<le> ?as ! j + (if j \<in> set is then 1 else 0)"
      using Cons.IH [of ?as "n - 1"] Cons.prems False by auto
    have "sum_list ?as = sum_list as + 1" using Cons.prems(3) by (simp add: sum_list_update_int)
    moreover have "n' \<le> n - 1" using hand_out_le [of "is" ?as "n - 1" as' n'] Cons.prems(1) False by simp
    moreover have "as ! j \<le> as' ! j \<and> as' ! j \<le> as ! j + (if j \<in> set (i # is) then 1 else 0)" if "j < length as" for j
    proof -
      have "i \<notin> set is" using Cons.prems(2) by simp
      with ih(4) [rule_format, of j] that show ?thesis by (cases "j = i") auto
    qed
    ultimately show ?thesis using ih(1-3) by simp
  qed (use Cons.prems in auto)
qed simp


text \<open>A distribution of \<open>n\<close> layers, some of them not yet handed out, that overloads no device.\<close>

definition dealt :: "int \<Rightarrow> memory_device list \<Rightarrow> int list \<Rightarrow> int \<Rightarrow> bool" where
  "dealt n rs as remaining \<longleftrightarrow> length as = length rs \<and> 0 \<le> remaining \<and> sum_list as + remaining = n \<and>
     (\<forall>i < length rs. 0 \<le> as ! i \<and> as ! i \<le> md_maxLayers (rs ! i))"

lemma sum_list_mono_nth:
  fixes as bs :: "int list"
  shows "length as = length bs \<Longrightarrow> \<forall>i < length as. as ! i \<le> bs ! i \<Longrightarrow> sum_list as \<le> sum_list bs"
proof (induction as bs rule: list_induct2)
  case (Cons a as b bs)
  have "a \<le> b" using Cons.prems [rule_format, of 0] by simp
  moreover have "sum_list as \<le> sum_list bs" using Cons.IH Cons.prems by (metis Suc_less_eq length_Cons nth_Cons_Suc)
  ultimately show ?case by simp
qed simp

lemma top_up_dealt:
  assumes "dealt n rs as remaining" "top_up rs ms as remaining = (as', remaining')"
  shows "dealt n rs as' remaining'" "0 < remaining \<Longrightarrow> n \<le> sum_list (map md_maxLayers rs) \<Longrightarrow> remaining' < remaining"
proof -
  let ?is = "top_up_order rs ms as"
  have o: "distinct ?is" "set ?is = {i. i < length rs \<and> as ! i < md_maxLayers (rs ! i)}" by (auto simp: top_up_order_def)
  have d: "length as = length rs" "0 \<le> remaining" "sum_list as + remaining = n"
    "\<forall>i < length rs. 0 \<le> as ! i \<and> as ! i \<le> md_maxLayers (rs ! i)" using assms(1) by (simp_all add: dealt_def)
  have h: "length as' = length as" "0 \<le> remaining'" "sum_list as' + remaining' = sum_list as + remaining"
    "\<forall>i < length as. as ! i \<le> as' ! i \<and> as' ! i \<le> as ! i + (if i \<in> set ?is then 1 else 0)"
    "?is \<noteq> [] \<Longrightarrow> 0 < remaining \<Longrightarrow> remaining' < remaining"
    using hand_out_exact [OF assms(2) [unfolded top_up_def] o(1)] d(1,2) o(2) by auto
  have "0 \<le> as' ! i \<and> as' ! i \<le> md_maxLayers (rs ! i)" if "i < length rs" for i
    using h(4) [rule_format, of i] d(4) [rule_format, of i] d(1) o(2) that by (cases "i \<in> set ?is") auto
  then show "dealt n rs as' remaining'" using h(1-3) d by (simp add: dealt_def)
  assume "0 < remaining" "n \<le> sum_list (map md_maxLayers rs)"
  moreover have "?is \<noteq> []"
  proof
    assume "?is = []"
    then have "\<forall>i < length rs. map md_maxLayers rs ! i \<le> as ! i" using o(2) by force
    then have "sum_list (map md_maxLayers rs) \<le> sum_list as" using d(1) by (intro sum_list_mono_nth) simp_all
    with calculation d(3) show False by linarith
  qed
  ultimately show "remaining' < remaining" using h(5) by blast
qed

lemma dealt_share_sum:
  "sum_list (map (dealt_share n w) xs) \<le>
     sum_list (map (\<lambda>f. floor_share n f w) (map (\<lambda>x. md_freeBytes (fst x)) (filter (\<lambda>x. snd x < md_maxLayers (fst x)) xs)))"
  by (induction xs) (auto simp: dealt_share_def)

lemma sum_list_filter_le_nat: "sum_list (map f (filter P xs)) \<le> (sum_list (map f xs) :: nat)"
  by (induction xs) auto

lemma member_le_sum_list_nat: "x \<in> set xs \<Longrightarrow> (f x :: nat) \<le> sum_list (map f xs)"
  by (induction xs) auto

lemma round_dealt:
  assumes d: "dealt n rs as remaining" and n: "n < 2 ^ 63" "0 < remaining" and m: "\<forall>r \<in> set rs. md_maxLayers r \<le> n"
    and w: "active_weight 0 (zip rs as) = Some w" "w \<noteq> 0"
  obtains ps where "round_shares remaining w (zip rs as) = Some ps"
    "dealt n rs (map fst ps) (remaining - (sum_list (map fst ps) - sum_list (map snd (zip rs as))))"
proof -
  let ?xs = "zip rs as" and ?act = "\<lambda>x. snd x < md_maxLayers (fst x)"
  have l: "length as = length rs" "0 \<le> remaining" "sum_list as + remaining = n"
    "\<forall>i < length rs. 0 \<le> as ! i \<and> as ! i \<le> md_maxLayers (rs ! i)" using d by (simp_all add: dealt_def)
  have as: "map snd ?xs = as" using l(1) by simp
  have "0 \<le> sum_list as" using l(1,4) by (intro sum_list_nonneg) (metis in_set_conv_nth)
  then have rn: "remaining < 2 ^ 63" using l(3) n(1) by linarith
  have W: "sum_list (map (\<lambda>x. unat (md_freeBytes (fst x))) (filter ?act ?xs)) = unat w" using w(1) by (simp add: active_weight_exact)
  have f: "md_freeBytes (fst x) \<le> w" if "x \<in> set ?xs" "?act x" for x
    using member_le_sum_list_nat [of x "filter ?act ?xs" "\<lambda>x. unat (md_freeBytes (fst x))"] that W by (simp add: word_le_nat_alt)
  have b: "0 \<le> snd x \<and> snd x \<le> md_maxLayers (fst x) \<and> fst x \<in> set rs" if "x \<in> set ?xs" for x
    using that l(1,4) by (auto simp: set_zip)
  have "\<forall>(r, a) \<in> set ?xs. 0 \<le> a \<and> md_maxLayers r < 2 ^ 63 \<and> (a < md_maxLayers r \<longrightarrow> md_freeBytes r \<le> w)"
    using b f m n(1) by fastforce
  from round_shares_exact [OF l(2) rn w(2) this] obtain ps where
    ps: "round_shares remaining w ?xs = Some ps" "map fst ps = map (\<lambda>x. snd x + dealt_share remaining w x) ?xs" by blast
  have share: "0 \<le> dealt_share remaining w x \<and> snd x + dealt_share remaining w x \<le> md_maxLayers (fst x)" if "x \<in> set ?xs" for x
    using b [OF that] floor_share_bounds [OF l(2) f [OF that]] by (cases x) (auto simp: dealt_share_def)
  have "sum_list (map (dealt_share remaining w) ?xs) \<le> sum_list (map (\<lambda>f. floor_share remaining f w) (map (\<lambda>x. md_freeBytes (fst x)) (filter ?act ?xs)))"
    by (rule dealt_share_sum)
  also have "\<dots> \<le> remaining" using W l(2) by (intro sum_floor_share) (simp_all add: comp_def)
  finally have le: "sum_list (map (dealt_share remaining w) ?xs) \<le> remaining" .
  have s: "sum_list (map fst ps) = sum_list as + sum_list (map (dealt_share remaining w) ?xs)"
    unfolding ps(2) by (simp add: sum_list_addf as)
  have "0 \<le> map fst ps ! i \<and> map fst ps ! i \<le> md_maxLayers (rs ! i)" if "i < length rs" for i
  proof -
    have x: "?xs ! i = (rs ! i, as ! i)" using that l(1) by simp
    then have m: "(rs ! i, as ! i) \<in> set ?xs" using that l(1) nth_mem [of i ?xs] by simp
    then show ?thesis unfolding ps(2) using share [OF m] b [OF m] that l(1) x by simp
  qed
  moreover have "length (map fst ps) = length rs" unfolding ps(2) using l(1) by simp
  ultimately have "dealt n rs (map fst ps) (remaining - (sum_list (map fst ps) - sum_list as))"
    unfolding dealt_def s using le l(3) by (intro conjI) simp_all
  with ps(1) show thesis using that as by simp
qed


lemma map_fst_unat: "map (\<lambda>x. unat (md_freeBytes (fst x))) xs = map (\<lambda>r. unat (md_freeBytes r)) (map fst xs)"
  by simp

lemma spread_ok:
  assumes "dealt n rs as remaining" "n < 2 ^ 63" "n \<le> sum_list (map md_maxLayers rs)"
    and "\<forall>r \<in> set rs. 0 < md_freeBytes r \<and> md_maxLayers r \<le> n" "sum_list (map (\<lambda>r. unat (md_freeBytes r)) rs) < 2 ^ 64"
  shows "\<exists>as'. spread rs as remaining = Some as' \<and> dealt n rs as' 0"
  using assms(1)
proof (induction "nat remaining" arbitrary: as remaining rule: less_induct)
  case less
  have len: "length as = length rs" using less.prems by (simp add: dealt_def)
  show ?case
  proof (cases "remaining \<le> 0")
    case True
    with less.prems have "remaining = 0" by (simp add: dealt_def)
    then show ?thesis using less.prems by (subst spread.simps) simp
  next
    case False
    let ?xs = "zip rs as" and ?act = "\<lambda>x. snd x < md_maxLayers (fst x)"
    let ?W = "sum_list (map (\<lambda>x. unat (md_freeBytes (fst x))) (filter ?act ?xs))"
    have "?W \<le> sum_list (map (\<lambda>x. unat (md_freeBytes (fst x))) ?xs)" by (rule sum_list_filter_le_nat)
    also have "\<dots> = sum_list (map (\<lambda>r. unat (md_freeBytes r)) rs)" unfolding map_fst_unat by (simp add: len)
    finally have "?W < 2 ^ 64" using assms(5) by linarith
    then have w: "active_weight 0 ?xs = Some (word_of_nat ?W)" by (simp add: active_weight_exact unat_of_nat64)
    have "\<exists>x \<in> set ?xs. ?act x"
    proof (rule ccontr)
      assume "\<not> (\<exists>x \<in> set ?xs. ?act x)"
      then have "\<forall>i < length rs. map md_maxLayers rs ! i \<le> as ! i" using len by (force simp: set_zip)
      then have "sum_list (map md_maxLayers rs) \<le> sum_list as" using len by (intro sum_list_mono_nth) simp_all
      with assms(3) less.prems False show False by (simp add: dealt_def)
    qed
    then obtain x where x: "x \<in> set (filter ?act ?xs)" by auto
    then have "fst x \<in> set rs" using set_zip_leftD [of "fst x" "snd x" rs as] by simp
    then have "0 < unat (md_freeBytes (fst x))" using assms(4) by (simp add: word_less_nat_alt)
    then have "0 < ?W" using member_le_sum_list_nat [OF x, of "\<lambda>x. unat (md_freeBytes (fst x))"] by linarith
    then have w0: "(word_of_nat ?W :: uint64) \<noteq> 0" using unat_of_nat64 [OF \<open>?W < 2 ^ 64\<close>] by (metis less_numeral_extra(3) unat_0)
    have "\<forall>r \<in> set rs. md_maxLayers r \<le> n" using assms(4) by blast
    from round_dealt [OF less.prems assms(2) _ this w w0] False obtain ps where
      ps: "round_shares remaining (word_of_nat ?W) ?xs = Some ps"
        "dealt n rs (map fst ps) (remaining - (sum_list (map fst ps) - sum_list (map snd ?xs)))" by auto
    define rem1 where "rem1 = remaining - (sum_list (map fst ps) - sum_list (map snd ?xs))"
    obtain as2 rem2 where t: "top_up rs (map snd ps) (map fst ps) rem1 = (as2, rem2)" by fastforce
    have e: "spread rs as remaining = (if rem1 = 0 then Some (map fst ps) else if rem2 = remaining then None else spread rs as2 rem2)"
      using False w w0 ps(1) t unfolding rem1_def by (subst spread.simps) (simp add: Let_def)
    show ?thesis
    proof (cases "rem1 = 0")
      case True
      with e ps(2) show ?thesis by (simp add: rem1_def)
    next
      case ne: False
      note d1 = ps(2) [folded rem1_def]
      have "0 < rem1" using d1 ne by (simp add: dealt_def)
      from top_up_dealt [OF d1 t] this assms(3) have d2: "dealt n rs as2 rem2" "rem2 < rem1" by blast+
      have "rem1 \<le> remaining" using round_shares_ge [OF ps(1)] by (simp add: rem1_def)
      with d2(2) have lt: "nat rem2 < nat remaining" "rem2 \<noteq> remaining" using False by auto
      from less.hyps [OF lt(1) d2(1)] e ne lt(2) show ?thesis by simp
    qed
  qed
qed

lemma proportional_exact:
  assumes n: "0 < n" "n < 2 ^ 63" and r: "\<forall>r \<in> set rs. 0 < md_freeBytes r \<and> 0 \<le> md_maxLayers r \<and> md_maxLayers r \<le> n"
  shows "if sum_list (map (\<lambda>r. unat (md_freeBytes r)) rs) < 2 ^ 64 \<and> n \<le> sum_list (map md_maxLayers rs)
    then \<exists>as. proportionalLayerAssignments rs n = Some as \<and> dealt n rs as 0 else proportionalLayerAssignments rs n = None"
proof -
  let ?T = "sum_list (map (\<lambda>r. unat (md_freeBytes r)) rs)" and ?M = "sum_list (map md_maxLayers rs)"
  have lc: "layer_capacity n 0 rs < n \<longleftrightarrow> ?M < n" using layer_capacity_exact [of 0 n rs] n r by simp
  show ?thesis
  proof (cases "?T < 2 ^ 64 \<and> n \<le> ?M")
    case False
    show ?thesis
    proof (cases "?T < 2 ^ 64")
      case True
      with False lc show ?thesis by (simp add: proportionalLayerAssignments_def split: option.split)
    next
      case big: False
      have "total_capacity 0 rs \<noteq> Some c" for c using total_capacity_exact [of 0 rs c] big unat_lt64 [of c] by auto
      then have "total_capacity 0 rs = None" by (cases "total_capacity 0 rs") auto
      with big show ?thesis by (simp add: proportionalLayerAssignments_def)
    qed
  next
    case True
    then have ne: "rs \<noteq> []" using n by auto
    let ?w = "word_of_nat ?T :: uint64"
    have u: "unat ?w = ?T" using True by (intro unat_of_nat64) simp
    have t: "total_capacity 0 rs = Some ?w" by (simp only: total_capacity_exact u) simp
    have f: "md_freeBytes x \<le> ?w" if "x \<in> set rs" for x
      using member_le_sum_list_nat [OF that, of "\<lambda>r. unat (md_freeBytes r)"] by (simp only: word_le_nat_alt u)
    have w0: "?w \<noteq> 0" using f [of "hd rs"] r ne by (metis hd_in_set leD)
    from initial_shares_exact [of n ?w rs] n w0 r f obtain ps where
      ps: "initial_shares n ?w rs = Some ps" "map fst ps = map (\<lambda>r. min (md_maxLayers r) (floor_share n (md_freeBytes r) ?w)) rs" by auto
    have le: "sum_list (map fst ps) \<le> n"
    proof -
      have "sum_list (map fst ps) \<le> sum_list (map (\<lambda>r. floor_share n (md_freeBytes r) ?w) rs)" unfolding ps(2) by (rule sum_list_mono) simp
      also have "\<dots> \<le> n" using sum_floor_share [of n "map md_freeBytes rs" ?w] n u by (simp add: comp_def)
      finally show ?thesis .
    qed
    have "0 \<le> map fst ps ! i \<and> map fst ps ! i \<le> md_maxLayers (rs ! i)" if "i < length rs" for i
      unfolding ps(2) using that r floor_share_bounds [of n "md_freeBytes (rs ! i)" ?w] f [of "rs ! i"] n(1) by simp
    moreover have "length (map fst ps) = length rs" unfolding ps(2) by simp
    ultimately have d: "dealt n rs (map fst ps) (n - sum_list (map fst ps))" unfolding dealt_def using le by (intro conjI) simp_all
    obtain as1 rem1 where s: "(if 0 < n - sum_list (map fst ps) then top_up rs (map snd ps) (map fst ps) (n - sum_list (map fst ps))
        else (map fst ps, n - sum_list (map fst ps))) = (as1, rem1)" by fastforce
    then have "dealt n rs as1 rem1" using d top_up_dealt(1) [OF d] by (auto split: if_splits)
    from spread_ok [OF this n(2)] True r have "\<exists>as. spread rs as1 rem1 = Some as \<and> dealt n rs as 0" by auto
    moreover have "proportionalLayerAssignments rs n = spread rs as1 rem1"
      using ne t w0 lc True ps(1) s by (simp add: proportionalLayerAssignments_def Let_def)
    ultimately show ?thesis using True by simp
  qed
qed


lemma layerRange_chain:
  assumes "0 < p" "0 \<le> i"
  shows "fst (layerRange t p 0) = 0" "snd (layerRange t p i) = fst (layerRange t p (i + 1))" "snd (layerRange t p (p - 1)) = t"
    "p \<le> t \<Longrightarrow> fst (layerRange t p i) < snd (layerRange t p i)"
proof -
  have m: "0 \<le> t mod p" "t mod p < p" using assms(1) by simp_all
  have "t = p * (t div p) + t mod p" by simp
  then have "(p - 1) * (t div p) + t div p + t mod p = t" by (simp add: algebra_simps)
  then show "snd (layerRange t p (p - 1)) = t" using m by (auto simp: layerRange_def Let_def)
  show "fst (layerRange t p 0) = 0" using m by (simp add: layerRange_def Let_def)
  show "snd (layerRange t p i) = fst (layerRange t p (i + 1))" by (auto simp: layerRange_def Let_def algebra_simps)
  assume "p \<le> t"
  then have "1 \<le> t div p" using assms(1) by (simp add: pos_imp_zdiv_pos_iff int_one_le_iff_zero_less)
  then show "fst (layerRange t p i) < snd (layerRange t p i)" by (simp add: layerRange_def Let_def)
qed

text \<open>C27: \<^verbatim>\<open>maximumLayersThatFit\<close> finds the greatest number of layers whose share of the weights and of the
  KV cache, each rounded up, fits the usable bytes of a device in exact arithmetic: a number of
  layers fits if and only if it is at most the result. The 64 bit computation never reports an
  overflow for a number of layers that would fit.\<close>

theorem maximum_layers_exact:
  assumes "0 < layerCount" "layerCount < 2 ^ 63" "0 \<le> k" "k \<le> layerCount"
  shows "layer_bytes weightsBytes kvBytes layerCount k \<le> unat usableBytes \<longleftrightarrow>
    k \<le> maximumLayersThatFit usableBytes weightsBytes kvBytes layerCount"
  using maximumLayersThatFit_max [OF assms(1,2), of usableBytes weightsBytes kvBytes] assms(3,4) by blast

theorem maximum_layers_exact_witness:
  "layer_bytes 1000 10 4 3 \<le> unat (800 :: uint64) \<longleftrightarrow> 3 \<le> maximumLayersThatFit 800 1000 10 4"
  by (rule maximum_layers_exact) simp_all

text \<open>C28: the proportional distribution succeeds exactly when the devices together have room for the
  layers and their free memory can be added up. Then every layer is handed out, and no device gets
  more layers than fit; otherwise the result is a refusal. In particular the rounds of the
  distribution always end, and never in one of their failure branches.\<close>

theorem proportional_distribution_exact:
  assumes "0 < layerCount" "layerCount < 2 ^ 63"
    and "\<forall>r \<in> set resources. 0 < md_freeBytes r \<and> 0 \<le> md_maxLayers r \<and> md_maxLayers r \<le> layerCount"
  shows "(proportionalLayerAssignments resources layerCount \<noteq> None \<longleftrightarrow>
      sum_list (map (\<lambda>r. unat (md_freeBytes r)) resources) < 2 ^ 64 \<and> layerCount \<le> sum_list (map md_maxLayers resources)) \<and>
    (\<forall>assignments. proportionalLayerAssignments resources layerCount = Some assignments \<longrightarrow>
      length assignments = length resources \<and> sum_list assignments = layerCount \<and>
      (\<forall>i < length resources. 0 \<le> assignments ! i \<and> assignments ! i \<le> md_maxLayers (resources ! i)))"
  using proportional_exact [OF assms] by (auto simp: dealt_def split: if_splits)

definition sample_capabilities :: capabilities where
  "sample_capabilities = \<lparr>ca_Devices = [], ca_Backends = [], ca_NPUVendors = [], ca_Quantizations = [], ca_PrimaryQuantization = [],
     ca_Modalities = [], ca_MaxParallelSeqs = 0, ca_MaxContextLength = 0, ca_RequiresContextCap = False, ca_SupportsSharding = [],
     ca_HomogeneousOnly = False, ca_OS = [], ca_ValidatedRPC = False\<rparr>"

definition sample_gpu :: "int \<Rightarrow> uint64 \<Rightarrow> device" where
  "sample_gpu index freeMB = \<lparr>dv_Kind = ''gpu'', dv_Vendor = ''v'', dv_Name = ''n'', dv_Index = index, dv_MemoryMB = 0,
     dv_FreeMemoryMB = freeMB, dv_UnifiedMemory = False, dv_Driver = [], dv_Backends = []\<rparr>"

definition sample_node :: "string \<Rightarrow> device list \<Rightarrow> candidate_node" where
  "sample_node i ds = \<lparr>cn_ID = i, cn_OS = ''linux'', cn_RPCAddress = i, cn_RPCProtected = True, cn_AllowInsecureShardNetwork = False,
     cn_Devices = ds, cn_NetworkLinks = [\<lparr>nl_Name = ''eth0'', nl_SpeedMbps = 1000, nl_RDMA = False, nl_Trusted = True\<rparr>],
     cn_Capabilities = sample_capabilities\<rparr>"

definition sample_memory :: "uint64 \<Rightarrow> int \<Rightarrow> memory_device" where
  "sample_memory free layers = \<lparr>md_node = sample_node ''a'' [], md_device = sample_gpu 0 0, md_freeBytes = free, md_usableBytes = free,
     md_maxLayers = layers\<rparr>"

theorem proportional_distribution_exact_witness:
  "\<exists>assignments. proportionalLayerAssignments [sample_memory 300 2, sample_memory 100 3, sample_memory 50 1] 5 = Some assignments \<and>
     sum_list assignments = 5 \<and> assignments ! 0 \<le> 2"
proof -
  let ?rs = "[sample_memory 300 2, sample_memory 100 3, sample_memory 50 1]"
  have "\<forall>r \<in> set ?rs. 0 < md_freeBytes r \<and> 0 \<le> md_maxLayers r \<and> md_maxLayers r \<le> 5" by (simp add: sample_memory_def)
  note t = proportional_distribution_exact [OF _ _ this, simplified]
  have "proportionalLayerAssignments ?rs 5 \<noteq> None" using t by (auto simp: sample_memory_def)
  then obtain as where as: "proportionalLayerAssignments ?rs 5 = Some as" by blast
  with t have "sum_list as = 5 \<and> as ! 0 \<le> 2" by (auto simp: sample_memory_def)
  with as show ?thesis by blast
qed

end
