(* ===== verification/Shard_Plan.thy ===== *)
theory Shard_Plan
  imports Shard_Memory "HOL-Library.Code_Target_Nat"
begin

text \<open>
  The shard planner (\<^verbatim>\<open>internal/shard/plan.go\<close>, \<^verbatim>\<open>plan_validation.go\<close>, \<^verbatim>\<open>plan_llama.go\<close>,
  \<^verbatim>\<open>plan_vllm.go\<close>): which nodes and devices may take part, how the layers of a model are placed on
  them, and the refusals. Every text that the code formats for the rationale of a plan is a
  constructor that carries the values of the text. The message of a refusal, which repeats its
  code and rationale in a sentence, is left out. \<^verbatim>\<open>sort.Slice\<close> is \<open>sort_key\<close>; where two elements
  compare as equal (devices of kinds that no plan uses) the order of the code is unspecified.
\<close>

subsection \<open>Policies, plans and refusals\<close>

definition ModeLlamaCPPRPC :: string where "ModeLlamaCPPRPC = ''llamacpp-rpc''"
definition ModeVLLMMP :: string where "ModeVLLMMP = ''vllm-mp''"
definition VLLMParallelismAuto :: string where "VLLMParallelismAuto = ''auto''"
definition VLLMParallelismPipeline :: string where "VLLMParallelismPipeline = ''pipeline''"
definition VLLMParallelismTensorAcrossNodes :: string where "VLLMParallelismTensorAcrossNodes = ''tensor-across-nodes''"

record policy =
  po_Mode :: string
  po_SafetyMarginMB :: uint64
  po_KVCacheBytesPerElement :: uint64
  po_AllowCPUOffload :: bool
  po_MinimumLinkSpeedMbps :: uint64
  po_VLLMParallelism :: string

datatype refusal_code =
    RefusalInvalidModel | RefusalInvalidPolicy | RefusalInvalidCandidates | RefusalNoCompatibleNodes
  | RefusalInsufficientMemory | RefusalHeterogeneity | RefusalUnsupportedOS | RefusalLinkTooSlow | RefusalUntrustedNetwork

datatype rejection =
    ModeNotAdvertised string | OSNotSupported string | NoRelay | NoRPCAddress | BadRPCAddress

datatype candidate_error =
    EmptyCandidateID nat | DuplicateCandidate string | RepeatedDevice string string | NegativeDeviceIndex string
  | MoreFreeThanTotal string string

datatype reason =
    BadProfile "profile_problem list" | BadMode string | MarginOverflow | BadParallelism string | BadWeightsSize size_error | KVOverflow
  | BadCandidate candidate_error | NoCandidates
  | NodeRejected string rejection | DeviceKindUnsupported string string int | BackendMismatch string string int
  | CPUOffloadDisabled string int | NPUNotValidated string int | UnknownDeviceKind string int string
  | NoFreeMemory string string int | DevicesAccepted string nat | NoInventory string
  | NPUTooSmall string int uint64 uint64 | NPUSelected string | LayersAssigned string int int int | ShareZero string string int
  | DeviceCapacity string string int int int | TotalCapacity int int | NoRelayEndpoint
  | NotLinux string string | UntrustedLink string | InsecureAllowed string | NotGPU string string int
  | GPUUnsupported string int | GPUMemoryUnknown string int | NoGPUs string | GPUsAccepted string nat | TooFewLayers
  | GPUCountDiffers string nat string nat | GPUDiffers string int string
  | PipelineSelected | TensorSelected uint64 uint64 | LinksTooSlow uint64 uint64 | NoLinkMinimum | TensorNeedsLinks uint64 uint64
  | TensorRequested uint64 | GPUTooSmall string int | PipelineAssigned string int int nat | AllGPUsTensor

record refusal =
  rf_Code :: refusal_code
  rf_Rationale :: "reason list"

record device_allocation =
  al_Kind :: string
  al_Vendor :: string
  al_Name :: string
  al_Index :: int
  al_StartLayer :: int
  al_EndLayer :: int
  al_WeightsBytes :: uint64
  al_KVCacheBytes :: uint64
  al_SafetyMarginBytes :: uint64
  al_RequiredBytes :: uint64
  al_FreeMemoryBytes :: uint64

record node_plan =
  np_NodeID :: string
  np_RPCAddress :: string
  np_StartLayer :: int
  np_EndLayer :: int
  np_TensorSplitLayers :: int
  np_Devices :: "device_allocation list"

record shard_plan =
  sp_Mode :: string
  sp_Model :: model_profile
  sp_Nodes :: "node_plan list"
  sp_RPC :: string
  sp_TensorSplit :: string
  sp_TensorParallelSize :: nat
  sp_PipelineParallelSize :: nat
  sp_VLLMParallelism :: string
  sp_WholeModel :: bool
  sp_Rationale :: "reason list"

subsection \<open>Candidates\<close>

definition normalizeDeviceKind :: "string \<Rightarrow> string" where
  "normalizeDeviceKind kind = to_lower (trim_space kind)"

fun deviceKindOrder :: "string \<Rightarrow> nat" where
  "deviceKindOrder kind = (if kind = ''gpu'' then 0 else if kind = ''npu'' then 1 else if kind = ''cpu'' then 2 else 3)"

fun check_devices :: "string \<Rightarrow> string list \<Rightarrow> device list \<Rightarrow> candidate_error option" where
  "check_devices i seen [] = None"
| "check_devices i seen (d # ds) =
     (let key = normalizeDeviceKind (dv_Kind d) @ '':'' @ format_int 10 (dv_Index d)
      in if key \<in> set seen then Some (RepeatedDevice i key)
         else if dv_Index d < 0 then Some (NegativeDeviceIndex i)
         else if 0 < dv_MemoryMB d \<and> dv_MemoryMB d < dv_FreeMemoryMB d then Some (MoreFreeThanTotal i key)
         else check_devices i (key # seen) ds)"

definition clean_candidate :: "candidate_node \<Rightarrow> candidate_node" where
  "clean_candidate c = c\<lparr>cn_ID := trim_space (cn_ID c), cn_OS := to_lower (trim_space (cn_OS c)),
     cn_RPCAddress := trim_space (cn_RPCAddress c)\<rparr>"

fun clean_candidates :: "nat \<Rightarrow> string list \<Rightarrow> candidate_node list \<Rightarrow> candidate_error + candidate_node list" where
  "clean_candidates k seen [] = Inr []"
| "clean_candidates k seen (c # cs) =
     (let i = trim_space (cn_ID c)
      in if i = [] then Inl (EmptyCandidateID k)
         else if i \<in> set seen then Inl (DuplicateCandidate i)
         else case check_devices i [] (cn_Devices c) of
                Some e \<Rightarrow> Inl e
              | None \<Rightarrow> (case clean_candidates (Suc k) (i # seen) cs of
                          Inl e \<Rightarrow> Inl e
                        | Inr ns \<Rightarrow> Inr (clean_candidate c # ns)))"

definition normalizeCandidates :: "candidate_node list \<Rightarrow> candidate_error + candidate_node list" where
  "normalizeCandidates candidates =
     (case clean_candidates 0 [] candidates of Inl e \<Rightarrow> Inl e | Inr nodes \<Rightarrow> Inr (sort_key cn_ID nodes))"

definition nodeModeRejection :: "candidate_node \<Rightarrow> string \<Rightarrow> rejection option" where
  "nodeModeRejection node mode =
     (let c = cn_Capabilities node
      in if ca_SupportsSharding c \<noteq> [] \<and> \<not> list_ex (\<lambda>s. equal_fold (trim_space s) mode) (ca_SupportsSharding c)
         then Some (ModeNotAdvertised mode)
         else if ca_OS c \<noteq> [] \<and> \<not> list_ex (\<lambda>s. equal_fold (trim_space s) (cn_OS node)) (ca_OS c)
         then Some (OSNotSupported (cn_OS node))
         else None)"

definition NormalizeDeviceKind :: "string \<Rightarrow> string" where
  "NormalizeDeviceKind val =
     (let v = to_lower (trim_space val)
      in case find (\<lambda>kind. v = kind \<or> has_prefix v (kind @ '':'')) [''cpu'', ''gpu'', ''npu''] of
           Some kind \<Rightarrow> kind
         | None \<Rightarrow> if v \<in> set [''cuda'', ''rocm'', ''metal'', ''vulkan'', ''sycl''] then ''gpu'' else [])"

definition SupportsDeviceKind :: "string list \<Rightarrow> string \<Rightarrow> bool" where
  "SupportsDeviceKind devices kind = list_ex (\<lambda>d. NormalizeDeviceKind d = kind) devices"

definition deviceSupportedByEngine :: "capabilities \<Rightarrow> device \<Rightarrow> bool" where
  "deviceSupportedByEngine c d \<longleftrightarrow> \<not> (ca_Devices c \<noteq> [] \<and> \<not> SupportsDeviceKind (ca_Devices c) (normalizeDeviceKind (dv_Kind d)))"

definition BackendsOverlap :: "string list \<Rightarrow> string list \<Rightarrow> bool" where
  "BackendsOverlap engineBackends deviceBackends \<longleftrightarrow>
     engineBackends = [] \<or> deviceBackends = [] \<or>
     list_ex (\<lambda>e. list_ex (\<lambda>d. equal_fold (trim_space e) (trim_space d)) deviceBackends) engineBackends"

definition device_order :: "device \<Rightarrow> nat \<times> int \<times> string \<times> string" where
  "device_order d = (deviceKindOrder (normalizeDeviceKind (dv_Kind d)), dv_Index d, dv_Vendor d, dv_Name d)"

definition sortedDevices :: "device list \<Rightarrow> device list" where
  "sortedDevices devices = sort_key device_order devices"

definition sortMemoryDevices :: "memory_device list \<Rightarrow> memory_device list" where
  "sortMemoryDevices devices = sort_key (\<lambda>m. (cn_ID (md_node m), device_order (md_device m))) devices"

subsection \<open>Memory of a device\<close>

definition makeMemoryDevice :: "candidate_node \<Rightarrow> device \<Rightarrow> uint64 \<Rightarrow> memory_device option" where
  "makeMemoryDevice node d marginBytes =
     (case mbToBytes (dv_FreeMemoryMB d) of
        None \<Rightarrow> None
      | Some freeBytes \<Rightarrow>
          if freeBytes \<le> marginBytes then None
          else Some \<lparr>md_node = node, md_device = d, md_freeBytes = freeBytes, md_usableBytes = freeBytes - marginBytes,
                     md_maxLayers = 0\<rparr>)"

definition makeAllocation :: "device \<Rightarrow> int \<Rightarrow> int \<Rightarrow> uint64 \<Rightarrow> uint64 \<Rightarrow> uint64 \<Rightarrow> uint64 \<Rightarrow> device_allocation" where
  "makeAllocation d startLayer endLayer weightsBytes kvBytes marginBytes freeBytes =
     \<lparr>al_Kind = normalizeDeviceKind (dv_Kind d), al_Vendor = dv_Vendor d, al_Name = dv_Name d, al_Index = dv_Index d,
      al_StartLayer = startLayer, al_EndLayer = endLayer, al_WeightsBytes = weightsBytes, al_KVCacheBytes = kvBytes,
      al_SafetyMarginBytes = marginBytes,
      al_RequiredBytes = (case addThree weightsBytes kvBytes marginBytes of None \<Rightarrow> MaxUint64 | Some required \<Rightarrow> required),
      al_FreeMemoryBytes = freeBytes\<rparr>"

definition layerCapacityRationale :: "memory_device list \<Rightarrow> int \<Rightarrow> reason list" where
  "layerCapacityRationale resources requiredLayers =
     map (\<lambda>m. DeviceCapacity (cn_ID (md_node m)) (dv_Kind (md_device m)) (dv_Index (md_device m)) (md_maxLayers m) requiredLayers) resources @
     [TotalCapacity (sum_list (map md_maxLayers resources)) requiredLayers]"

subsection \<open>Plans for llama.cpp\<close>

definition llama_rejection :: "candidate_node \<Rightarrow> rejection option" where
  "llama_rejection node =
     (case nodeModeRejection node ModeLlamaCPPRPC of
        Some r \<Rightarrow> Some r
      | None \<Rightarrow>
          if \<not> cn_RPCProtected node then Some NoRelay
          else if trim_space (cn_RPCAddress node) = [] then Some NoRPCAddress
          else if list_ex (\<lambda>c. c \<in> set [CHR '','', CHR '' '', CHR 0x09, CHR 0x0D, CHR 0x0A]) (cn_RPCAddress node) then Some BadRPCAddress
          else None)"

datatype verdict = Place memory_device | WholeOnly "memory_device option" reason | Exclude reason

definition llama_device :: "int \<Rightarrow> uint64 \<Rightarrow> uint64 \<Rightarrow> uint64 \<Rightarrow> bool \<Rightarrow> candidate_node \<Rightarrow> device \<Rightarrow> verdict" where
  "llama_device layerCount weightsBytes kvBytes marginBytes allowCPU node d =
     (let kind = normalizeDeviceKind (dv_Kind d)
      in if \<not> deviceSupportedByEngine (cn_Capabilities node) d then Exclude (DeviceKindUnsupported (cn_ID node) kind (dv_Index d))
         else if \<not> BackendsOverlap (ca_Backends (cn_Capabilities node)) (dv_Backends d) then Exclude (BackendMismatch (cn_ID node) kind (dv_Index d))
         else if kind = ''cpu'' \<and> \<not> allowCPU then Exclude (CPUOffloadDisabled (cn_ID node) (dv_Index d))
         else if kind = ''npu'' \<and> \<not> ca_ValidatedRPC (cn_Capabilities node)
         then WholeOnly (makeMemoryDevice node d marginBytes) (NPUNotValidated (cn_ID node) (dv_Index d))
         else if kind \<notin> set [''gpu'', ''cpu'', ''npu''] then Exclude (UnknownDeviceKind (cn_ID node) (dv_Index d) (dv_Kind d))
         else case makeMemoryDevice node d marginBytes of
                None \<Rightarrow> Exclude (NoFreeMemory (cn_ID node) kind (dv_Index d))
              | Some m \<Rightarrow> Place (m\<lparr>md_maxLayers := maximumLayersThatFit (md_usableBytes m) weightsBytes kvBytes layerCount\<rparr>))"

record llama_scan =
  ls_resources :: "memory_device list"
  ls_npus :: "memory_device list"
  ls_unprotected :: bool
  ls_other :: bool
  ls_rationale :: "reason list"

fun add_verdict :: "verdict \<Rightarrow> llama_scan \<Rightarrow> llama_scan" where
  "add_verdict (Place m) s = s\<lparr>ls_resources := ls_resources s @ [m]\<rparr>"
| "add_verdict (WholeOnly npu r) s =
     s\<lparr>ls_npus := ls_npus s @ (case npu of None \<Rightarrow> [] | Some m \<Rightarrow> [m]), ls_rationale := ls_rationale s @ [r]\<rparr>"
| "add_verdict (Exclude r) s = s\<lparr>ls_rationale := ls_rationale s @ [r]\<rparr>"

fun is_placed :: "verdict \<Rightarrow> bool" where
  "is_placed (Place m) = True"
| "is_placed _ = False"

definition scan_node :: "(candidate_node \<Rightarrow> device \<Rightarrow> verdict) \<Rightarrow> candidate_node \<Rightarrow> llama_scan \<Rightarrow> llama_scan" where
  "scan_node judge node s =
     (case llama_rejection node of
        Some reason \<Rightarrow>
          s\<lparr>ls_unprotected := ls_unprotected s \<or> reason = NoRelay, ls_other := ls_other s \<or> reason \<noteq> NoRelay,
            ls_rationale := ls_rationale s @ [NodeRejected (cn_ID node) reason]\<rparr>
      | None \<Rightarrow>
          (let verdicts = map (judge node) (sortedDevices (cn_Devices node));
               s1 = fold add_verdict verdicts s;
               added = length (filter is_placed verdicts)
           in if 0 < added then s1\<lparr>ls_rationale := ls_rationale s1 @ [DevicesAccepted (cn_ID node) added]\<rparr>
              else if cn_Devices node = [] then s1\<lparr>ls_rationale := ls_rationale s1 @ [NoInventory (cn_ID node)]\<rparr>
              else s1))"

definition scan_nodes :: "(candidate_node \<Rightarrow> device \<Rightarrow> verdict) \<Rightarrow> candidate_node list \<Rightarrow> llama_scan" where
  "scan_nodes judge nodes =
     fold (scan_node judge) nodes \<lparr>ls_resources = [], ls_npus = [], ls_unprotected = False, ls_other = False, ls_rationale = []\<rparr>"

fun plan_whole_model ::
  "model_profile \<Rightarrow> uint64 \<Rightarrow> uint64 \<Rightarrow> uint64 \<Rightarrow> memory_device list \<Rightarrow> reason list \<Rightarrow> shard_plan option" where
  "plan_whole_model model weightsBytes kvBytes marginBytes [] rationale = None"
| "plan_whole_model model weightsBytes kvBytes marginBytes (m # ms) rationale =
     (let required = addThree weightsBytes kvBytes marginBytes
      in if (case required of None \<Rightarrow> True | Some r \<Rightarrow> md_freeBytes m < r)
         then plan_whole_model model weightsBytes kvBytes marginBytes ms
                (rationale @ [NPUTooSmall (cn_ID (md_node m)) (dv_Index (md_device m)) (case required of None \<Rightarrow> 0 | Some r \<Rightarrow> r) (md_freeBytes m)])
         else let allocation = makeAllocation (md_device m) 0 (mp_LayerCount model) weightsBytes kvBytes marginBytes (md_freeBytes m);
                  nodePlan = \<lparr>np_NodeID = cn_ID (md_node m), np_RPCAddress = trim_space (cn_RPCAddress (md_node m)),
                    np_StartLayer = 0, np_EndLayer = mp_LayerCount model, np_TensorSplitLayers = mp_LayerCount model,
                    np_Devices = [allocation]\<rparr>
              in Some \<lparr>sp_Mode = ModeLlamaCPPRPC, sp_Model = model, sp_Nodes = [nodePlan], sp_RPC = np_RPCAddress nodePlan,
                   sp_TensorSplit = format_int 10 (np_TensorSplitLayers nodePlan), sp_TensorParallelSize = 0,
                   sp_PipelineParallelSize = 0, sp_VLLMParallelism = [], sp_WholeModel = True,
                   sp_Rationale = rationale @ [NPUSelected (cn_ID (md_node m))]\<rparr>)"

definition planWholeModelNPU ::
  "model_profile \<Rightarrow> uint64 \<Rightarrow> uint64 \<Rightarrow> uint64 \<Rightarrow> memory_device list \<Rightarrow> reason list \<Rightarrow> shard_plan option" where
  "planWholeModelNPU model weightsBytes kvBytes marginBytes devices rationale =
     plan_whole_model model weightsBytes kvBytes marginBytes
       (sort_key (\<lambda>m. (- uint (md_freeBytes m), cn_ID (md_node m), dv_Index (md_device m))) devices) rationale"

datatype build_error = BuildSize size_error | BuildTooLarge string string int uint64 uint64 | BuildIncomplete int int

text \<open>The node plans in the order in which the nodes appear; the code keeps them in a map beside a list of keys.\<close>

definition add_allocation :: "memory_device \<Rightarrow> int \<Rightarrow> device_allocation \<Rightarrow> node_plan list \<Rightarrow> node_plan list" where
  "add_allocation m layers a nps =
     (let i = cn_ID (md_node m);
          extend = (\<lambda>np. np\<lparr>np_TensorSplitLayers := np_TensorSplitLayers np + layers, np_Devices := np_Devices np @ [a]\<rparr>)
      in if list_ex (\<lambda>np. np_NodeID np = i) nps
         then update_first (\<lambda>np. np_NodeID np = i)
                (\<lambda>np. extend (np\<lparr>np_StartLayer := min (np_StartLayer np) (al_StartLayer a), np_EndLayer := max (np_EndLayer np) (al_EndLayer a)\<rparr>)) nps
         else nps @ [extend \<lparr>np_NodeID = i, np_RPCAddress = trim_space (cn_RPCAddress (md_node m)),
                np_StartLayer = al_StartLayer a, np_EndLayer = al_EndLayer a, np_TensorSplitLayers = 0, np_Devices = []\<rparr>])"

fun build_nodes ::
  "int \<Rightarrow> uint64 \<Rightarrow> uint64 \<Rightarrow> uint64 \<Rightarrow> int \<Rightarrow> (memory_device \<times> int) list \<Rightarrow> node_plan list \<Rightarrow> build_error + int \<times> node_plan list" where
  "build_nodes layerCount weightsBytes kvBytes marginBytes layer [] nps = Inr (layer, nps)"
| "build_nodes layerCount weightsBytes kvBytes marginBytes layer ((m, layers) # rest) nps =
     (if layers = 0 then build_nodes layerCount weightsBytes kvBytes marginBytes layer rest nps
      else case multiplyDivideCeil weightsBytes (word_of_int layers) (word_of_int layerCount) of
             Inl e \<Rightarrow> Inl (BuildSize e)
           | Inr weightPart \<Rightarrow>
               (case multiplyDivideCeil kvBytes (word_of_int layers) (word_of_int layerCount) of
                  Inl e \<Rightarrow> Inl (BuildSize e)
                | Inr kvPart \<Rightarrow>
                    (let a = makeAllocation (md_device m) layer (layer + layers) weightPart kvPart marginBytes (md_freeBytes m)
                     in if al_FreeMemoryBytes a < al_RequiredBytes a
                        then Inl (BuildTooLarge (cn_ID (md_node m)) (dv_Kind (md_device m)) (dv_Index (md_device m)) (al_RequiredBytes a) (al_FreeMemoryBytes a))
                        else build_nodes layerCount weightsBytes kvBytes marginBytes (layer + layers) rest (add_allocation m layers a nps))))"

definition buildLlamaPlan ::
  "model_profile \<Rightarrow> uint64 \<Rightarrow> uint64 \<Rightarrow> uint64 \<Rightarrow> memory_device list \<Rightarrow> int list \<Rightarrow> reason list \<Rightarrow> build_error + shard_plan" where
  "buildLlamaPlan model weightsBytes kvBytes marginBytes resources assignments rationale =
     (case build_nodes (mp_LayerCount model) weightsBytes kvBytes marginBytes 0 (zip resources assignments) [] of
        Inl e \<Rightarrow> Inl e
      | Inr (layer, nps) \<Rightarrow>
          if layer \<noteq> mp_LayerCount model then Inl (BuildIncomplete layer (mp_LayerCount model))
          else Inr \<lparr>sp_Mode = ModeLlamaCPPRPC, sp_Model = model, sp_Nodes = nps,
                 sp_RPC = join_strings (map np_RPCAddress nps) '','',
                 sp_TensorSplit = join_strings (map (\<lambda>np. format_int 10 (np_TensorSplitLayers np)) nps) '','',
                 sp_TensorParallelSize = 0, sp_PipelineParallelSize = 0, sp_VLLMParallelism = [],
                 sp_WholeModel = (length nps = 1 \<and> length (np_Devices (hd nps)) = 1 \<and>
                   np_EndLayer (hd nps) - np_StartLayer (hd nps) = mp_LayerCount model),
                 sp_Rationale = rationale @
                   map (\<lambda>np. LayersAssigned (np_NodeID np) (np_StartLayer np) (np_EndLayer np) (np_TensorSplitLayers np)) nps @
                   map (\<lambda>(m, _). ShareZero (cn_ID (md_node m)) (dv_Kind (md_device m)) (dv_Index (md_device m)))
                     (filter (\<lambda>(_, layers). layers = 0) (zip resources assignments))\<rparr>)"

definition planLlamaCPPRPC ::
  "model_profile \<Rightarrow> uint64 \<Rightarrow> uint64 \<Rightarrow> uint64 \<Rightarrow> candidate_node list \<Rightarrow> policy \<Rightarrow> refusal + shard_plan" where
  "planLlamaCPPRPC model weightsBytes kvBytes marginBytes nodes policy =
     (let s = scan_nodes (llama_device (mp_LayerCount model) weightsBytes kvBytes marginBytes (po_AllowCPUOffload policy)) nodes;
          resources = sortMemoryDevices (ls_resources s);
          fallback =
            (case (if ls_npus s = [] then None else planWholeModelNPU model weightsBytes kvBytes marginBytes (ls_npus s) (ls_rationale s)) of
               Some plan \<Rightarrow> Inr plan
             | None \<Rightarrow>
                 if resources = [] \<and> ls_npus s = []
                 then (if ls_unprotected s \<and> \<not> ls_other s
                       then Inl \<lparr>rf_Code = RefusalUntrustedNetwork, rf_Rationale = ls_rationale s @ [NoRelayEndpoint]\<rparr>
                       else Inl \<lparr>rf_Code = RefusalNoCompatibleNodes, rf_Rationale = ls_rationale s\<rparr>)
                 else Inl \<lparr>rf_Code = RefusalInsufficientMemory,
                        rf_Rationale = ls_rationale s @ layerCapacityRationale resources (mp_LayerCount model)\<rparr>)
      in case proportionalLayerAssignments resources (mp_LayerCount model) of
           Some assignments \<Rightarrow>
             (case buildLlamaPlan model weightsBytes kvBytes marginBytes resources assignments (ls_rationale s) of
                Inl _ \<Rightarrow> Inl \<lparr>rf_Code = RefusalInsufficientMemory, rf_Rationale = ls_rationale s\<rparr>
              | Inr plan \<Rightarrow> Inr plan)
         | None \<Rightarrow> fallback)"

subsection \<open>Plans for vLLM\<close>

record eligible_node =
  el_node :: candidate_node
  el_devices :: "device list"

definition hasTrustedNetworkLink :: "candidate_node \<Rightarrow> bool" where
  "hasTrustedNetworkLink node = list_ex nl_Trusted (cn_NetworkLinks node)"

definition gpu_problem :: "candidate_node \<Rightarrow> device \<Rightarrow> reason option" where
  "gpu_problem node d =
     (if normalizeDeviceKind (dv_Kind d) \<noteq> ''gpu'' then Some (NotGPU (cn_ID node) (dv_Kind d) (dv_Index d))
      else if \<not> deviceSupportedByEngine (cn_Capabilities node) d \<or> \<not> BackendsOverlap (ca_Backends (cn_Capabilities node)) (dv_Backends d)
      then Some (GPUUnsupported (cn_ID node) (dv_Index d))
      else if dv_FreeMemoryMB d = 0 then Some (GPUMemoryUnknown (cn_ID node) (dv_Index d))
      else None)"

record vllm_scan =
  vs_eligible :: "eligible_node list"
  vs_linux :: bool
  vs_untrusted :: bool
  vs_trusted :: bool
  vs_rationale :: "reason list"

definition scan_vllm :: "candidate_node \<Rightarrow> vllm_scan \<Rightarrow> vllm_scan" where
  "scan_vllm node s =
     (if \<not> equal_fold (trim_space (cn_OS node)) ''linux''
      then s\<lparr>vs_rationale := vs_rationale s @ [NotLinux (cn_ID node) (cn_OS node)]\<rparr>
      else case nodeModeRejection node ModeVLLMMP of
             Some r \<Rightarrow> s\<lparr>vs_linux := True, vs_rationale := vs_rationale s @ [NodeRejected (cn_ID node) r]\<rparr>
           | None \<Rightarrow>
               if \<not> hasTrustedNetworkLink node \<and> \<not> cn_AllowInsecureShardNetwork node
               then s\<lparr>vs_linux := True, vs_untrusted := True, vs_rationale := vs_rationale s @ [UntrustedLink (cn_ID node)]\<rparr>
               else
                 (let devices = sortedDevices (cn_Devices node);
                      gpus = filter (\<lambda>d. gpu_problem node d = None) devices;
                      s1 = s\<lparr>vs_linux := True, vs_trusted := True,
                        vs_rationale := vs_rationale s @
                          (if hasTrustedNetworkLink node then [] else [InsecureAllowed (cn_ID node)]) @
                          List.map_filter (gpu_problem node) devices\<rparr>
                  in if gpus = [] then s1\<lparr>vs_rationale := vs_rationale s1 @ [NoGPUs (cn_ID node)]\<rparr>
                     else s1\<lparr>vs_eligible := vs_eligible s1 @ [\<lparr>el_node = node, el_devices = gpus\<rparr>],
                       vs_rationale := vs_rationale s1 @ [GPUsAccepted (cn_ID node) (length gpus)]\<rparr>))"

definition deviceSignature :: "device \<Rightarrow> string" where
  "deviceSignature d =
     normalizeDeviceKind (dv_Kind d) @ ''|'' @ to_lower (trim_space (dv_Vendor d)) @ ''|'' @ to_lower (trim_space (dv_Name d)) @ ''|'' @
     format_base 10 (unat (dv_MemoryMB d)) @ ''|'' @ join_strings (map (\<lambda>b. to_lower (trim_space b)) (sort (dv_Backends d))) '',''"

fun odd_device :: "string \<Rightarrow> string \<Rightarrow> device list \<Rightarrow> reason option" where
  "odd_device i reference [] = None"
| "odd_device i reference (d # ds) =
     (if deviceSignature d \<noteq> reference then Some (GPUDiffers i (dv_Index d) reference) else odd_device i reference ds)"

fun odd_node :: "string \<Rightarrow> nat \<Rightarrow> string \<Rightarrow> eligible_node list \<Rightarrow> reason option" where
  "odd_node i0 n reference [] = None"
| "odd_node i0 n reference (e # es) =
     (if length (el_devices e) \<noteq> n then Some (GPUCountDiffers (cn_ID (el_node e)) (length (el_devices e)) i0 n)
      else case odd_device (cn_ID (el_node e)) reference (el_devices e) of
             Some r \<Rightarrow> Some r
           | None \<Rightarrow> odd_node i0 n reference es)"

definition homogeneityViolation :: "eligible_node list \<Rightarrow> reason option" where
  "homogeneityViolation nodes =
     (if length nodes < 2 then None
      else odd_node (cn_ID (el_node (hd nodes))) (length (el_devices (hd nodes))) (deviceSignature (hd (el_devices (hd nodes)))) nodes)"

definition fastest_link :: "candidate_node \<Rightarrow> uint64" where
  "fastest_link node =
     foldl (\<lambda>fastest link. if hasTrustedNetworkLink node \<and> \<not> nl_Trusted link then fastest
              else if fastest < nl_SpeedMbps link then nl_SpeedMbps link else fastest) 0 (cn_NetworkLinks node)"

fun minimum_link :: "uint64 \<Rightarrow> eligible_node list \<Rightarrow> uint64" where
  "minimum_link minimum [] = (if minimum = MaxUint64 then 0 else minimum)"
| "minimum_link minimum (e # es) =
     (let fastest = fastest_link (el_node e)
      in if fastest = 0 then 0 else minimum_link (if fastest < minimum then fastest else minimum) es)"

definition minimumNodeLinkSpeed :: "eligible_node list \<Rightarrow> uint64" where
  "minimumNodeLinkSpeed nodes = minimum_link MaxUint64 nodes"

definition chooseVLLMParallelism :: "eligible_node list \<Rightarrow> policy \<Rightarrow> (refusal_code + string) \<times> reason list" where
  "chooseVLLMParallelism nodes policy =
     (let requested = (if po_VLLMParallelism policy = [] then VLLMParallelismPipeline else po_VLLMParallelism policy)
      in if requested = VLLMParallelismPipeline then (Inr VLLMParallelismPipeline, [PipelineSelected])
         else
           (let linkSpeed = minimumNodeLinkSpeed nodes;
                minimum = po_MinimumLinkSpeedMbps policy;
                linkOK = (0 < linkSpeed \<and> minimum \<le> linkSpeed)
            in if requested = VLLMParallelismAuto
               then (if 0 < minimum \<and> linkOK then (Inr VLLMParallelismTensorAcrossNodes, [TensorSelected linkSpeed minimum])
                     else if 0 < minimum then (Inr VLLMParallelismPipeline, [LinksTooSlow minimum linkSpeed])
                     else (Inr VLLMParallelismPipeline, [NoLinkMinimum]))
               else if requested = VLLMParallelismTensorAcrossNodes
               then (if \<not> linkOK then (Inl RefusalLinkTooSlow, [TensorNeedsLinks minimum linkSpeed])
                     else (Inr VLLMParallelismTensorAcrossNodes, [TensorRequested linkSpeed]))
               else (Inl RefusalInvalidPolicy, [])))"

fun vllm_devices ::
  "string \<Rightarrow> int \<Rightarrow> int \<Rightarrow> uint64 \<Rightarrow> uint64 \<Rightarrow> uint64 \<Rightarrow> nat \<Rightarrow> device list \<Rightarrow> (refusal_code \<times> reason list) + device_allocation list" where
  "vllm_devices i startLayer endLayer weightPart kvPart marginBytes devicesInGroup [] = Inr []"
| "vllm_devices i startLayer endLayer weightPart kvPart marginBytes devicesInGroup (d # ds) =
     (case mbToBytes (dv_FreeMemoryMB d) of
        None \<Rightarrow> Inl (RefusalInsufficientMemory, [])
      | Some freeBytes \<Rightarrow>
          (case (multiplyDivideCeil weightPart 1 (word_of_nat devicesInGroup), multiplyDivideCeil kvPart 1 (word_of_nat devicesInGroup)) of
             (Inr deviceWeights, Inr deviceKV) \<Rightarrow>
               (let a = makeAllocation d startLayer endLayer deviceWeights deviceKV marginBytes freeBytes
                in if freeBytes < al_RequiredBytes a then Inl (RefusalInsufficientMemory, [GPUTooSmall i (dv_Index d)])
                   else case vllm_devices i startLayer endLayer weightPart kvPart marginBytes devicesInGroup ds of
                          Inl e \<Rightarrow> Inl e
                        | Inr as \<Rightarrow> Inr (a # as))
           | _ \<Rightarrow> Inl (RefusalInvalidModel, [])))"

fun vllm_nodes ::
  "int \<Rightarrow> uint64 \<Rightarrow> uint64 \<Rightarrow> uint64 \<Rightarrow> bool \<Rightarrow> nat \<Rightarrow> nat \<Rightarrow> nat \<Rightarrow> eligible_node list \<Rightarrow> reason list \<Rightarrow>
     (refusal_code \<times> reason list) + node_plan list \<times> reason list" where
  "vllm_nodes layerCount weightsBytes kvBytes marginBytes tensor nodeCount devicesPerNode k [] rationale = Inr ([], rationale)"
| "vllm_nodes layerCount weightsBytes kvBytes marginBytes tensor nodeCount devicesPerNode k (e # es) rationale =
     (let (startLayer, endLayer) = (if tensor then (0, layerCount) else layerRange layerCount (int nodeCount) (int k));
          nodeLayers = endLayer - startLayer
      in case (multiplyDivideCeil weightsBytes (word_of_int nodeLayers) (word_of_int layerCount),
               multiplyDivideCeil kvBytes (word_of_int nodeLayers) (word_of_int layerCount)) of
           (Inr weightPart, Inr kvPart) \<Rightarrow>
             (case vllm_devices (cn_ID (el_node e)) startLayer endLayer weightPart kvPart marginBytes
                     (if tensor then nodeCount * devicesPerNode else devicesPerNode) (el_devices e) of
                Inl (code, r) \<Rightarrow> Inl (code, rationale @ r)
              | Inr as \<Rightarrow>
                  (case vllm_nodes layerCount weightsBytes kvBytes marginBytes tensor nodeCount devicesPerNode (Suc k) es
                          (rationale @ [PipelineAssigned (cn_ID (el_node e)) startLayer endLayer devicesPerNode]) of
                     Inl x \<Rightarrow> Inl x
                   | Inr (nps, r) \<Rightarrow>
                       Inr (\<lparr>np_NodeID = cn_ID (el_node e), np_RPCAddress = [], np_StartLayer = startLayer, np_EndLayer = endLayer,
                             np_TensorSplitLayers = 0, np_Devices = as\<rparr> # nps, r)))
         | _ \<Rightarrow> Inl (RefusalInvalidModel, rationale))"

definition planVLLMMP ::
  "model_profile \<Rightarrow> uint64 \<Rightarrow> uint64 \<Rightarrow> uint64 \<Rightarrow> candidate_node list \<Rightarrow> policy \<Rightarrow> refusal + shard_plan" where
  "planVLLMMP model weightsBytes kvBytes marginBytes nodes policy =
     (let s = fold scan_vllm nodes \<lparr>vs_eligible = [], vs_linux = False, vs_untrusted = False, vs_trusted = False, vs_rationale = []\<rparr>;
          eligible = vs_eligible s;
          rationale = vs_rationale s;
          refuse = (\<lambda>code r. Inl \<lparr>rf_Code = code, rf_Rationale = r\<rparr>)
      in if eligible = []
         then refuse (if \<not> vs_linux s then RefusalUnsupportedOS
                      else if vs_untrusted s \<and> \<not> vs_trusted s then RefusalUntrustedNetwork
                      else RefusalNoCompatibleNodes) rationale
         else if mp_LayerCount model < int (length eligible) then refuse RefusalInvalidPolicy (rationale @ [TooFewLayers])
         else case homogeneityViolation eligible of
                Some r \<Rightarrow> refuse RefusalHeterogeneity (rationale @ [r])
              | None \<Rightarrow>
                  (case chooseVLLMParallelism eligible policy of
                     (Inl code, r) \<Rightarrow> refuse code (rationale @ r)
                   | (Inr topology, r) \<Rightarrow>
                       (let nodeCount = length eligible;
                            devicesPerNode = length (el_devices (hd eligible));
                            tensor = (topology = VLLMParallelismTensorAcrossNodes)
                        in case vllm_nodes (mp_LayerCount model) weightsBytes kvBytes marginBytes tensor nodeCount devicesPerNode 0 eligible (rationale @ r) of
                             Inl (code, r2) \<Rightarrow> refuse code r2
                           | Inr (nps, r2) \<Rightarrow>
                               Inr \<lparr>sp_Mode = ModeVLLMMP, sp_Model = model, sp_Nodes = nps, sp_RPC = [], sp_TensorSplit = [],
                                 sp_TensorParallelSize = (if tensor then nodeCount * devicesPerNode else devicesPerNode),
                                 sp_PipelineParallelSize = (if tensor then 1 else nodeCount), sp_VLLMParallelism = topology,
                                 sp_WholeModel = False, sp_Rationale = r2 @ (if tensor then [AllGPUsTensor] else [])\<rparr>)))"

subsection \<open>Planning\<close>

definition Plan :: "model_profile \<Rightarrow> candidate_node list \<Rightarrow> policy \<Rightarrow> refusal + shard_plan" where
  "Plan model candidateNodes policy =
     (let refuse = (\<lambda>code r. Inl \<lparr>rf_Code = code, rf_Rationale = [r]\<rparr>)
      in if validateModelProfile model \<noteq> [] then refuse RefusalInvalidModel (BadProfile (validateModelProfile model))
         else if po_Mode policy \<noteq> ModeLlamaCPPRPC \<and> po_Mode policy \<noteq> ModeVLLMMP then refuse RefusalInvalidPolicy (BadMode (po_Mode policy))
         else if MaxUint64 div mebibyte < po_SafetyMarginMB policy then refuse RefusalInvalidPolicy MarginOverflow
         else if po_Mode policy = ModeVLLMMP \<and>
                 po_VLLMParallelism policy \<notin> set [[], VLLMParallelismAuto, VLLMParallelismPipeline, VLLMParallelismTensorAcrossNodes]
         then refuse RefusalInvalidPolicy (BadParallelism (po_VLLMParallelism policy))
         else case EffectiveWeightsSizeBytes model of
                Inl e \<Rightarrow> refuse RefusalInvalidModel (BadWeightsSize e)
              | Inr weightsBytes \<Rightarrow>
                  (case modelKVBytes model (if po_KVCacheBytesPerElement policy = 0 then 2 else po_KVCacheBytesPerElement policy) of
                     None \<Rightarrow> refuse RefusalInvalidModel KVOverflow
                   | Some kvBytes \<Rightarrow>
                       (case normalizeCandidates candidateNodes of
                          Inl e \<Rightarrow> refuse RefusalInvalidCandidates (BadCandidate e)
                        | Inr nodes \<Rightarrow>
                            if nodes = [] then refuse RefusalNoCompatibleNodes NoCandidates
                            else if po_Mode policy = ModeLlamaCPPRPC
                            then planLlamaCPPRPC model weightsBytes kvBytes (po_SafetyMarginMB policy * mebibyte) nodes policy
                            else planVLLMMP model weightsBytes kvBytes (po_SafetyMarginMB policy * mebibyte) nodes policy)))"

subsection \<open>Consecutive layers\<close>

fun consecutive :: "int \<Rightarrow> device_allocation list \<Rightarrow> int \<Rightarrow> bool" where
  "consecutive s [] e \<longleftrightarrow> s = e"
| "consecutive s (a # as) e \<longleftrightarrow> al_StartLayer a = s \<and> s < al_EndLayer a \<and> consecutive (al_EndLayer a) as e"

lemma consecutive_append: "consecutive s (as @ bs) e \<longleftrightarrow> (\<exists>m. consecutive s as m \<and> consecutive m bs e)"
  by (induction as arbitrary: s) auto

lemma consecutive_le: "consecutive s as e \<Longrightarrow> s \<le> e \<and> (as \<noteq> [] \<longrightarrow> s < e)"
proof (induction as arbitrary: s)
  case (Cons a as)
  then have "al_EndLayer a \<le> e" by auto
  with Cons.prems show ?case by simp
qed simp

text \<open>A node plan covers a range of layers without gaps, in the order of its devices.\<close>

definition node_ok :: "node_plan \<Rightarrow> bool" where
  "node_ok np \<longleftrightarrow> np_Devices np \<noteq> [] \<and> consecutive (np_StartLayer np) (np_Devices np) (np_EndLayer np)"

definition built_ok :: "int \<Rightarrow> node_plan list \<Rightarrow> bool" where
  "built_ok layer nps \<longleftrightarrow> consecutive 0 (concat (map np_Devices nps)) layer \<and> sorted_wrt (<) (map np_NodeID nps) \<and>
     (\<forall>np \<in> set nps. node_ok np \<and> np_TensorSplitLayers np = np_EndLayer np - np_StartLayer np) \<and>
     (nps \<noteq> [] \<longrightarrow> np_EndLayer (last nps) = layer)"

lemma add_allocation_cases:
  assumes "sorted_wrt (<) (map np_NodeID nps)" "\<forall>np \<in> set nps. np_NodeID np \<le> cn_ID (md_node m)"
  obtains (new) "\<forall>np \<in> set nps. np_NodeID np < cn_ID (md_node m)"
      "add_allocation m k a nps = nps @ [\<lparr>np_NodeID = cn_ID (md_node m), np_RPCAddress = trim_space (cn_RPCAddress (md_node m)),
         np_StartLayer = al_StartLayer a, np_EndLayer = al_EndLayer a, np_TensorSplitLayers = k, np_Devices = [a]\<rparr>]"
  | (old) ps np where "nps = ps @ [np]" "np_NodeID np = cn_ID (md_node m)"
      "add_allocation m k a nps = ps @ [np\<lparr>np_StartLayer := min (np_StartLayer np) (al_StartLayer a), np_EndLayer := max (np_EndLayer np) (al_EndLayer a),
         np_TensorSplitLayers := np_TensorSplitLayers np + k, np_Devices := np_Devices np @ [a]\<rparr>]"
proof (cases "\<exists>np \<in> set nps. np_NodeID np = cn_ID (md_node m)")
  case False
  then have "\<forall>np \<in> set nps. np_NodeID np < cn_ID (md_node m)" using assms(2) by (simp add: order_le_less)
  moreover have "\<not> list_ex (\<lambda>np. np_NodeID np = cn_ID (md_node m)) nps" using False by (simp add: list_ex_iff)
  ultimately show thesis by (intro new) (simp_all add: add_allocation_def Let_def)
next
  case True
  then have ex: "list_ex (\<lambda>np. np_NodeID np = cn_ID (md_node m)) nps" by (simp add: list_ex_iff)
  let ?f = "\<lambda>np. np\<lparr>np_StartLayer := min (np_StartLayer np) (al_StartLayer a), np_EndLayer := max (np_EndLayer np) (al_EndLayer a),
      np_TensorSplitLayers := np_TensorSplitLayers np + k, np_Devices := np_Devices np @ [a]\<rparr>"
  obtain x where x: "find (\<lambda>np. np_NodeID np = cn_ID (md_node m)) nps = Some x"
    using True by (cases "find (\<lambda>np. np_NodeID np = cn_ID (md_node m)) nps") (auto simp: find_None_iff)
  from update_first_decomp [OF x, of ?f] obtain ys zs where
    d: "nps = ys @ x # zs" "update_first (\<lambda>np. np_NodeID np = cn_ID (md_node m)) ?f nps = ys @ ?f x # zs" by blast
  have i: "np_NodeID x = cn_ID (md_node m)" using find_Some_mem [OF x] by simp
  have "zs = []"
  proof (rule ccontr)
    assume "zs \<noteq> []"
    then obtain z where z: "z \<in> set zs" by (meson list.set_sel(1))
    then have "np_NodeID x < np_NodeID z" using assms(1) d(1) by (simp add: sorted_wrt_append)
    moreover have "np_NodeID z \<le> cn_ID (md_node m)" using assms(2) d(1) z by simp
    ultimately show False using i by simp
  qed
  with d i ex show thesis by (intro old [of ys x]) (simp_all add: add_allocation_def Let_def comp_def)
qed

lemma add_allocation_ok:
  assumes b: "built_ok layer nps" and l: "\<forall>np \<in> set nps. np_NodeID np \<le> cn_ID (md_node m)"
    and a: "al_StartLayer a = layer" "al_EndLayer a = layer + k" "0 < k"
  shows "built_ok (layer + k) (add_allocation m k a nps)"
proof -
  have s: "sorted_wrt (<) (map np_NodeID nps)" and c: "consecutive 0 (concat (map np_Devices nps)) layer" using b by (simp_all add: built_ok_def)
  from s l show ?thesis
  proof (cases rule: add_allocation_cases [of nps m k a])
    case new
    then show ?thesis using b a by (auto simp: built_ok_def node_ok_def consecutive_append sorted_wrt_append)
  next
    case (old ps np)
    have np: "node_ok np" "np_TensorSplitLayers np = np_EndLayer np - np_StartLayer np" "np_EndLayer np = layer"
      using b old(1) by (auto simp: built_ok_def)
    have "np_StartLayer np < layer" using np consecutive_le [of "np_StartLayer np" "np_Devices np" "np_EndLayer np"] by (simp add: node_ok_def)
    then have e: "add_allocation m k a nps = ps @ [np\<lparr>np_EndLayer := layer + k, np_TensorSplitLayers := np_TensorSplitLayers np + k,
        np_Devices := np_Devices np @ [a]\<rparr>]" using old(3) a np(3) by simp
    show ?thesis unfolding e built_ok_def
    proof (intro conjI)
      show "consecutive 0 (concat (map np_Devices (ps @ [np\<lparr>np_EndLayer := layer + k, np_TensorSplitLayers := np_TensorSplitLayers np + k,
          np_Devices := np_Devices np @ [a]\<rparr>]))) (layer + k)" using c old(1) a by (auto simp: consecutive_append)
      show "sorted_wrt (<) (map np_NodeID (ps @ [np\<lparr>np_EndLayer := layer + k, np_TensorSplitLayers := np_TensorSplitLayers np + k,
          np_Devices := np_Devices np @ [a]\<rparr>]))" using s old(1) by (simp add: sorted_wrt_append)
    qed (use b old(1) np a in \<open>auto simp: built_ok_def node_ok_def consecutive_append\<close>)
  qed
qed

lemma add_allocation_members:
  assumes "np \<in> set (add_allocation m k a nps)"
  shows "(np_NodeID np = cn_ID (md_node m) \<and> (np_RPCAddress np = trim_space (cn_RPCAddress (md_node m)) \<or> (\<exists>np' \<in> set nps. np_NodeID np' = np_NodeID np \<and> np_RPCAddress np' = np_RPCAddress np))) \<or> np \<in> set nps"
    "b \<in> set (np_Devices np) \<Longrightarrow> b = a \<or> (\<exists>np' \<in> set nps. b \<in> set (np_Devices np'))"
  using assms
  by (auto simp: add_allocation_def Let_def split: if_splits dest!: set_update_firstD find_Some_mem)

subsection \<open>Memory of an allocation\<close>

definition alloc_ok :: "uint64 \<Rightarrow> uint64 \<Rightarrow> uint64 \<Rightarrow> int \<Rightarrow> device_allocation \<Rightarrow> bool" where
  "alloc_ok weightsBytes kvBytes marginBytes layerCount a \<longleftrightarrow>
     unat (al_WeightsBytes a) = ceil_div (unat weightsBytes * nat (al_EndLayer a - al_StartLayer a)) (nat layerCount) \<and>
     unat (al_KVCacheBytes a) = ceil_div (unat kvBytes * nat (al_EndLayer a - al_StartLayer a)) (nat layerCount) \<and>
     al_SafetyMarginBytes a = marginBytes \<and>
     unat (al_RequiredBytes a) = unat (al_WeightsBytes a) + unat (al_KVCacheBytes a) + unat marginBytes \<and>
     al_RequiredBytes a \<le> al_FreeMemoryBytes a"

lemma mbToBytes_exact:
  assumes "mbToBytes x = Some f"
  shows "unat f = unat x * 2 ^ 20" "f \<noteq> MaxUint64"
proof -
  have m: "unat mebibyte = 2 ^ 20" by (simp add: mebibyte_def)
  have "unat (MaxUint64 div mebibyte) = 2 ^ 44 - 1" unfolding unat_div m unat_MaxUint64 by simp
  then have "unat x \<le> 2 ^ 44 - 1" using assms by (simp add: mbToBytes_def word_less_nat_alt split: if_splits)
  then have "unat x * unat mebibyte < 2 ^ 64" unfolding m by simp
  moreover have "f = x * mebibyte" using assms by (simp add: mbToBytes_def split: if_splits)
  ultimately show u: "unat f = unat x * 2 ^ 20" using unat_mult_lem [of x mebibyte] m by simp
  show "f \<noteq> MaxUint64"
  proof
    assume "f = MaxUint64"
    then have "unat x * 2 ^ 20 = 2 ^ 64 - 1" using u unat_MaxUint64 by simp
    then have "(2 ^ 20 :: nat) dvd 2 ^ 64 - 1" by (metis dvd_triv_right)
    then show False by simp
  qed
qed

text \<open>The marker for an overflowing requirement is larger than every amount of free memory.\<close>

lemma alloc_required:
  assumes "al_RequiredBytes (makeAllocation d s e w kv margin free) \<le> free" "free \<noteq> MaxUint64"
  shows "unat (al_RequiredBytes (makeAllocation d s e w kv margin free)) = unat w + unat kv + unat margin"
proof (cases "addThree w kv margin")
  case None
  then have "MaxUint64 \<le> free" using assms(1) by (simp add: makeAllocation_def)
  then have "free = MaxUint64" using word_order.extremum_unique by blast
  with assms(2) show ?thesis by simp
next
  case (Some r)
  from iffD1 [OF addThree_exact this] Some show ?thesis by (simp add: makeAllocation_def)
qed

lemma alloc_fits:
  assumes "unat w + unat kv + unat margin \<le> unat free"
  shows "al_RequiredBytes (makeAllocation d s e w kv margin free) \<le> free"
    "unat (al_RequiredBytes (makeAllocation d s e w kv margin free)) = unat w + unat kv + unat margin"
proof -
  have lt: "unat w + unat kv + unat margin < 2 ^ 64" using assms unat_lt64 [of free] by linarith
  have "addThree w kv margin = Some (word_of_nat (unat w + unat kv + unat margin))"
    unfolding addThree_exact unat_of_nat64 [OF lt] ..
  then have r: "al_RequiredBytes (makeAllocation d s e w kv margin free) = word_of_nat (unat w + unat kv + unat margin)"
    by (simp add: makeAllocation_def)
  then show "unat (al_RequiredBytes (makeAllocation d s e w kv margin free)) = unat w + unat kv + unat margin"
    using unat_of_nat64 [OF lt] by simp
  then show "al_RequiredBytes (makeAllocation d s e w kv margin free) \<le> free" using assms by (simp add: word_le_nat_alt)
qed

definition resource_ok :: "uint64 \<Rightarrow> uint64 \<Rightarrow> uint64 \<Rightarrow> int \<Rightarrow> memory_device \<Rightarrow> bool" where
  "resource_ok weightsBytes kvBytes marginBytes layerCount m \<longleftrightarrow>
     marginBytes < md_freeBytes m \<and> md_usableBytes m = md_freeBytes m - marginBytes \<and>
     md_maxLayers m = maximumLayersThatFit (md_usableBytes m) weightsBytes kvBytes layerCount"

lemma resource_memory:
  assumes "resource_ok W KV margin L m" "0 < L" "L < 2 ^ 63" "0 \<le> k" "k \<le> md_maxLayers m"
  shows "layer_bytes W KV L k + unat margin \<le> unat (md_freeBytes m)" "k \<le> L"
proof -
  note x = maximumLayersThatFit_max [OF assms(2,3), of "md_usableBytes m" W KV]
  have m: "unat margin < unat (md_freeBytes m)" "md_maxLayers m = maximumLayersThatFit (md_usableBytes m) W KV L"
    using assms(1) by (simp_all add: resource_ok_def word_less_nat_alt)
  show k: "k \<le> L" using x assms(5) m by linarith
  have "layer_bytes W KV L k \<le> unat (md_usableBytes m)" using x k assms(4,5) m by simp
  moreover have "unat (md_usableBytes m) = unat (md_freeBytes m) - unat margin"
    using assms(1) by (simp add: resource_ok_def unat_sub order.strict_implies_order)
  ultimately show "layer_bytes W KV L k + unat margin \<le> unat (md_freeBytes m)" using m(1) by linarith
qed

lemma build_nodes_ok:
  assumes L: "0 < L" "L < 2 ^ 63"
    and r: "\<forall>(m, k) \<in> set xs. resource_ok W KV margin L m \<and> 0 \<le> k \<and> k \<le> md_maxLayers m"
    and s: "sorted (map (\<lambda>(m, _). cn_ID (md_node m)) xs)"
    and b: "built_ok layer nps" "\<forall>np \<in> set nps. \<forall>(m, _) \<in> set xs. np_NodeID np \<le> cn_ID (md_node m)"
    and a: "\<forall>np \<in> set nps. (\<forall>a \<in> set (np_Devices np). alloc_ok W KV margin L a) \<and> Q (np_NodeID np) (np_RPCAddress np)"
    and q: "\<forall>(m, _) \<in> set xs. Q (cn_ID (md_node m)) (trim_space (cn_RPCAddress (md_node m)))"
  shows "\<exists>nps'. build_nodes L W KV margin layer xs nps = Inr (layer + sum_list (map snd xs), nps') \<and>
    built_ok (layer + sum_list (map snd xs)) nps' \<and>
    (\<forall>np \<in> set nps'. (\<forall>a \<in> set (np_Devices np). alloc_ok W KV margin L a) \<and> Q (np_NodeID np) (np_RPCAddress np))"
  using r s b a q
proof (induction xs arbitrary: layer nps)
  case (Cons x xs)
  obtain m k where x: "x = (m, k)" by fastforce
  show ?case
  proof (cases "k = 0")
    case True
    with Cons x show ?thesis by auto
  next
    case False
    have m: "resource_ok W KV margin L m" "0 \<le> k" "k \<le> md_maxLayers m" using Cons.prems(1) x by auto
    note mem = resource_memory [OF m(1) L m(2,3)]
    note w = mdc_layers [OF L m(2) mem(2), of W] and v = mdc_layers [OF L m(2) mem(2), of KV]
    let ?w = "word_of_nat (ceil_div (unat W * nat k) (nat L)) :: uint64" and ?v = "word_of_nat (ceil_div (unat KV * nat k) (nat L)) :: uint64"
    let ?a = "makeAllocation (md_device m) layer (layer + k) ?w ?v margin (md_freeBytes m)"
    have u: "unat ?w = ceil_div (unat W * nat k) (nat L)" "unat ?v = ceil_div (unat KV * nat k) (nat L)"
      using w(2) v(2) by (simp_all only: unat_of_nat64)
    have "unat ?w + unat ?v + unat margin \<le> unat (md_freeBytes m)" unfolding u using mem(1) by (simp add: layer_bytes_def)
    note fit = alloc_fits [OF this, of "md_device m" layer "layer + k"]
    have ok: "alloc_ok W KV margin L ?a" using fit u by (simp add: alloc_ok_def makeAllocation_def)
    have "\<not> al_FreeMemoryBytes ?a < al_RequiredBytes ?a" using fit(1) by (simp add: makeAllocation_def)
    then have e: "build_nodes L W KV margin layer (x # xs) nps = build_nodes L W KV margin (layer + k) xs (add_allocation m k ?a nps)"
      using x False w(1) v(1) by (simp add: Let_def)
    let ?nps = "add_allocation m k ?a nps"
    have b1: "built_ok (layer + k) ?nps"
      using Cons.prems(3,4) x False m(2) by (intro add_allocation_ok) (auto simp: makeAllocation_def)
    have b2: "\<forall>np \<in> set ?nps. \<forall>(m', _) \<in> set xs. np_NodeID np \<le> cn_ID (md_node m')"
      using Cons.prems(2,4) x add_allocation_members(1) [of _ m k ?a nps] by fastforce
    have b3: "\<forall>np \<in> set ?nps. (\<forall>a \<in> set (np_Devices np). alloc_ok W KV margin L a) \<and> Q (np_NodeID np) (np_RPCAddress np)"
    proof (intro ballI conjI)
      fix np assume np: "np \<in> set ?nps"
      have q: "Q (cn_ID (md_node m)) (trim_space (cn_RPCAddress (md_node m)))" using Cons.prems(6) x by simp
      from add_allocation_members(1) [OF np] consider "np_NodeID np = cn_ID (md_node m)" "np_RPCAddress np = trim_space (cn_RPCAddress (md_node m))"
        | np' where "np' \<in> set nps" "np_NodeID np' = np_NodeID np" "np_RPCAddress np' = np_RPCAddress np" by blast
      then show "Q (np_NodeID np) (np_RPCAddress np)"
      proof cases
        case 1 then show ?thesis using q by simp
      next
        case 2 then show ?thesis using Cons.prems(5) by metis
      qed
      show "alloc_ok W KV margin L b" if "b \<in> set (np_Devices np)" for b
        using add_allocation_members(2) [OF np that] ok Cons.prems(5) by blast
    qed
    have "\<exists>nps'. build_nodes L W KV margin (layer + k) xs ?nps = Inr ((layer + k) + sum_list (map snd xs), nps') \<and>
        built_ok ((layer + k) + sum_list (map snd xs)) nps' \<and>
        (\<forall>np \<in> set nps'. (\<forall>a \<in> set (np_Devices np). alloc_ok W KV margin L a) \<and> Q (np_NodeID np) (np_RPCAddress np))"
      using Cons.prems(1,2,6) by (intro Cons.IH b1 b2 b3) auto
    then show ?thesis unfolding e using x by (simp add: add.assoc)
  qed
qed auto

subsection \<open>The devices that take part\<close>

fun placed_device :: "verdict \<Rightarrow> memory_device list" where
  "placed_device (Place m) = [m]"
| "placed_device _ = []"

fun whole_device :: "verdict \<Rightarrow> memory_device list" where
  "whole_device (WholeOnly (Some m) r) = [m]"
| "whole_device _ = []"

lemma placed_device_mem: "m \<in> set (placed_device v) \<longleftrightarrow> v = Place m"
  by (cases v) auto

lemma whole_device_mem: "m \<in> set (whole_device v) \<longleftrightarrow> (\<exists>r. v = WholeOnly (Some m) r)"
proof (cases v)
  case (WholeOnly x r)
  then show ?thesis by (cases x) auto
qed auto

definition node_verdicts :: "(candidate_node \<Rightarrow> device \<Rightarrow> verdict) \<Rightarrow> candidate_node \<Rightarrow> verdict list" where
  "node_verdicts judge n = (if llama_rejection n = None then map (judge n) (sortedDevices (cn_Devices n)) else [])"

lemma fold_add_verdict:
  "ls_resources (fold add_verdict vs s) = ls_resources s @ concat (map placed_device vs)"
  "ls_npus (fold add_verdict vs s) = ls_npus s @ concat (map whole_device vs)"
proof (induction vs arbitrary: s)
  case (Cons v vs)
  {
    case 1
    then show ?case using Cons(1) by (cases v) simp_all
  next
    case 2
    then show ?case using Cons(2) by (cases v) (auto split: option.split)
  }
qed simp_all

lemma scan_node_devices:
  "ls_resources (scan_node judge n s) = ls_resources s @ concat (map placed_device (node_verdicts judge n))"
  "ls_npus (scan_node judge n s) = ls_npus s @ concat (map whole_device (node_verdicts judge n))"
  by (simp_all add: scan_node_def node_verdicts_def Let_def fold_add_verdict split: option.split)

lemma scan_nodes_devices:
  "ls_resources (scan_nodes judge nodes) = concat (map placed_device (concat (map (node_verdicts judge) nodes)))"
  "ls_npus (scan_nodes judge nodes) = concat (map whole_device (concat (map (node_verdicts judge) nodes)))"
proof -
  have "ls_resources (fold (scan_node judge) nodes s) = ls_resources s @ concat (map placed_device (concat (map (node_verdicts judge) nodes)))"
    "ls_npus (fold (scan_node judge) nodes s) = ls_npus s @ concat (map whole_device (concat (map (node_verdicts judge) nodes)))" for s
    by (induction nodes arbitrary: s) (simp_all add: scan_node_devices)
  then show "ls_resources (scan_nodes judge nodes) = concat (map placed_device (concat (map (node_verdicts judge) nodes)))"
    "ls_npus (scan_nodes judge nodes) = concat (map whole_device (concat (map (node_verdicts judge) nodes)))"
    by (simp_all add: scan_nodes_def)
qed

lemma makeMemoryDevice_ok:
  "makeMemoryDevice n d margin = Some m \<Longrightarrow>
     md_node m = n \<and> md_device m = d \<and> margin < md_freeBytes m \<and> md_usableBytes m = md_freeBytes m - margin \<and>
     mbToBytes (dv_FreeMemoryMB d) = Some (md_freeBytes m)"
  by (auto simp: makeMemoryDevice_def split: option.splits if_splits)

lemma llama_device_Place:
  "llama_device L W KV margin cpu n d = Place m \<Longrightarrow> md_node m = n \<and> md_device m = d \<and> resource_ok W KV margin L m \<and> md_freeBytes m \<noteq> MaxUint64"
  using mbToBytes_exact(2)
  by (auto simp: llama_device_def Let_def resource_ok_def split: if_splits option.splits dest!: makeMemoryDevice_ok)

lemma llama_device_Whole:
  "llama_device L W KV margin cpu n d = WholeOnly (Some m) r \<Longrightarrow> md_node m = n \<and> md_freeBytes m \<noteq> MaxUint64"
  using mbToBytes_exact(2)
  by (auto simp: llama_device_def Let_def split: if_splits option.splits dest!: makeMemoryDevice_ok)

lemma llama_resources:
  assumes "m \<in> set (ls_resources (scan_nodes (llama_device L W KV margin cpu) nodes))"
  shows "md_node m \<in> set nodes" "llama_rejection (md_node m) = None" "resource_ok W KV margin L m"
proof -
  from assms obtain n d where "n \<in> set nodes" "llama_rejection n = None" "llama_device L W KV margin cpu n d = Place m"
    unfolding scan_nodes_devices(1) by (auto simp: node_verdicts_def placed_device_mem split: if_splits)
  with llama_device_Place show "md_node m \<in> set nodes" "llama_rejection (md_node m) = None" "resource_ok W KV margin L m" by blast+
qed

lemma llama_npus:
  assumes "m \<in> set (ls_npus (scan_nodes (llama_device L W KV margin cpu) nodes))"
  shows "md_node m \<in> set nodes" "llama_rejection (md_node m) = None" "md_freeBytes m \<noteq> MaxUint64"
proof -
  from assms obtain n d r where "n \<in> set nodes" "llama_rejection n = None" "llama_device L W KV margin cpu n d = WholeOnly (Some m) r"
    unfolding scan_nodes_devices(2) by (auto simp: node_verdicts_def whole_device_mem split: if_splits)
  with llama_device_Whole show "md_node m \<in> set nodes" "llama_rejection (md_node m) = None" "md_freeBytes m \<noteq> MaxUint64" by blast+
qed

subsection \<open>Soundness of llama.cpp plans\<close>

definition llama_plan_ok :: "uint64 \<Rightarrow> uint64 \<Rightarrow> uint64 \<Rightarrow> int \<Rightarrow> candidate_node list \<Rightarrow> shard_plan \<Rightarrow> bool" where
  "llama_plan_ok W KV margin L nodes plan \<longleftrightarrow>
     consecutive 0 (concat (map np_Devices (sp_Nodes plan))) L \<and>
     (\<forall>np \<in> set (sp_Nodes plan). node_ok np \<and> np_TensorSplitLayers np = np_EndLayer np - np_StartLayer np \<and>
        (\<forall>a \<in> set (np_Devices np). alloc_ok W KV margin L a) \<and>
        (\<exists>n \<in> set nodes. llama_rejection n = None \<and> cn_ID n = np_NodeID np \<and> trim_space (cn_RPCAddress n) = np_RPCAddress np))"

lemma plan_whole_model_ok:
  assumes "plan_whole_model model W KV margin ms r = Some plan" "0 < mp_LayerCount model"
    "\<forall>m \<in> set ms. md_node m \<in> set nodes \<and> llama_rejection (md_node m) = None \<and> md_freeBytes m \<noteq> MaxUint64"
  shows "llama_plan_ok W KV margin (mp_LayerCount model) nodes plan"
  using assms
proof (induction ms arbitrary: r)
  case (Cons m ms)
  let ?big = "case addThree W KV margin of None \<Rightarrow> True | Some req \<Rightarrow> md_freeBytes m < req"
  show ?case
  proof (cases ?big)
    case True
    from Cons.IH [OF _ Cons.prems(2)] Cons.prems(1,3) True show ?thesis by (simp add: Let_def)
  next
    case False
    let ?a = "makeAllocation (md_device m) 0 (mp_LayerCount model) W KV margin (md_freeBytes m)"
    from False obtain req where req: "addThree W KV margin = Some req" "req \<le> md_freeBytes m" by (auto split: option.splits)
    have "ceil_div (x * nat L) (nat L) = x" if "0 < L" for x L using that by (simp add: ceil_div_def)
    then have "alloc_ok W KV margin (mp_LayerCount model) ?a"
      using Cons.prems(2) req iffD1 [OF addThree_exact req(1)] by (simp add: alloc_ok_def makeAllocation_def)
    then show ?thesis using Cons.prems False by (auto simp: llama_plan_ok_def node_ok_def Let_def makeAllocation_def)
  qed
qed simp


lemma built_plan_ok:
  assumes L: "0 < mp_LayerCount model" "mp_LayerCount model < 2 ^ 63"
    and r: "\<forall>m \<in> set rs. resource_ok W KV margin (mp_LayerCount model) m \<and> md_node m \<in> set nodes \<and> llama_rejection (md_node m) = None"
    and s: "sorted (map (\<lambda>m. cn_ID (md_node m)) rs)" and d: "dealt (mp_LayerCount model) rs as 0"
  shows "\<exists>plan. buildLlamaPlan model W KV margin rs as rationale = Inr plan \<and> llama_plan_ok W KV margin (mp_LayerCount model) nodes plan"
proof -
  let ?L = "mp_LayerCount model" and ?xs = "zip rs as"
  let ?Q = "\<lambda>i addr. \<exists>n \<in> set nodes. llama_rejection n = None \<and> cn_ID n = i \<and> trim_space (cn_RPCAddress n) = addr"
  have l: "length as = length rs" "sum_list as = ?L" "\<forall>i < length rs. 0 \<le> as ! i \<and> as ! i \<le> md_maxLayers (rs ! i)" using d by (simp_all add: dealt_def)
  have x: "fst x \<in> set rs \<and> 0 \<le> snd x \<and> snd x \<le> md_maxLayers (fst x)" if "x \<in> set ?xs" for x
    using that l(1,3) by (auto simp: set_zip)
  have "\<exists>nps. build_nodes ?L W KV margin 0 ?xs [] = Inr (0 + sum_list (map snd ?xs), nps) \<and> built_ok (0 + sum_list (map snd ?xs)) nps \<and>
      (\<forall>np \<in> set nps. (\<forall>a \<in> set (np_Devices np). alloc_ok W KV margin ?L a) \<and> ?Q (np_NodeID np) (np_RPCAddress np))"
  proof (rule build_nodes_ok [OF L])
    show "\<forall>(m, k) \<in> set ?xs. resource_ok W KV margin ?L m \<and> 0 \<le> k \<and> k \<le> md_maxLayers m" using x r by fastforce
    have "map (\<lambda>(m, _). cn_ID (md_node m)) ?xs = map (\<lambda>m. cn_ID (md_node m)) (map fst ?xs)" by (simp add: case_prod_unfold)
    then show "sorted (map (\<lambda>(m, _). cn_ID (md_node m)) ?xs)" using s l(1) by simp
    show "\<forall>(m, _) \<in> set ?xs. ?Q (cn_ID (md_node m)) (trim_space (cn_RPCAddress (md_node m)))" using x r by fastforce
  qed (simp_all add: built_ok_def)
  then obtain nps where nps: "build_nodes ?L W KV margin 0 ?xs [] = Inr (?L, nps)" "built_ok ?L nps"
    "\<forall>np \<in> set nps. (\<forall>a \<in> set (np_Devices np). alloc_ok W KV margin ?L a) \<and> ?Q (np_NodeID np) (np_RPCAddress np)"
    using l(1,2) by auto
  then show ?thesis by (auto simp: buildLlamaPlan_def llama_plan_ok_def built_ok_def)
qed

text \<open>The planner for llama.cpp: what it returns is sound, and it plans whenever the devices have room.\<close>

definition llama_resources_of :: "model_profile \<Rightarrow> uint64 \<Rightarrow> uint64 \<Rightarrow> uint64 \<Rightarrow> candidate_node list \<Rightarrow> policy \<Rightarrow> memory_device list" where
  "llama_resources_of model W KV margin nodes policy =
     ls_resources (scan_nodes (llama_device (mp_LayerCount model) W KV margin (po_AllowCPUOffload policy)) nodes)"

lemma planLlama_ok:
  assumes L: "0 < mp_LayerCount model" "mp_LayerCount model < 2 ^ 63"
  shows "planLlamaCPPRPC model W KV margin nodes policy = Inr plan \<Longrightarrow> llama_plan_ok W KV margin (mp_LayerCount model) nodes plan"
    "mp_LayerCount model \<le> sum_list (map md_maxLayers (llama_resources_of model W KV margin nodes policy)) \<Longrightarrow>
     sum_list (map (\<lambda>m. unat (md_freeBytes m)) (llama_resources_of model W KV margin nodes policy)) < 2 ^ 64 \<Longrightarrow>
     \<exists>plan. planLlamaCPPRPC model W KV margin nodes policy = Inr plan"
proof -
  let ?L = "mp_LayerCount model"
  define s where "s = scan_nodes (llama_device ?L W KV margin (po_AllowCPUOffload policy)) nodes"
  define rs where "rs = sortMemoryDevices (ls_resources s)"
  have rs: "mset rs = mset (ls_resources s)" "sorted (map (\<lambda>m. (cn_ID (md_node m), device_order (md_device m))) rs)"
    by (simp_all add: rs_def sortMemoryDevices_def)
  from rs(2) have srt: "sorted (map (\<lambda>m. cn_ID (md_node m)) rs)" by (auto simp: sorted_map elim: sorted_wrt_mono_rel [rotated])
  have set: "set rs = set (ls_resources s)" using rs(1) by (metis set_mset_mset)
  have r: "\<forall>m \<in> set rs. resource_ok W KV margin ?L m \<and> md_node m \<in> set nodes \<and> llama_rejection (md_node m) = None"
    unfolding set s_def by (intro ballI conjI) (erule llama_resources)+
  have b: "\<forall>m \<in> set rs. 0 < md_freeBytes m \<and> 0 \<le> md_maxLayers m \<and> md_maxLayers m \<le> ?L"
  proof
    fix m assume "m \<in> set rs"
    then have "resource_ok W KV margin ?L m" using r by blast
    then show "0 < md_freeBytes m \<and> 0 \<le> md_maxLayers m \<and> md_maxLayers m \<le> ?L"
      using maximumLayersThatFit_max [OF L, of "md_usableBytes m" W KV] by (auto simp: resource_ok_def intro: le_less_trans [OF word_zero_le])
  qed
  note p = proportional_exact [OF L b]
  have built: "\<exists>plan. buildLlamaPlan model W KV margin rs as (ls_rationale s) = Inr plan \<and> llama_plan_ok W KV margin ?L nodes plan"
    if "proportionalLayerAssignments rs ?L = Some as" for as
    using that p built_plan_ok [OF L r srt] by (auto split: if_splits)
  show "llama_plan_ok W KV margin ?L nodes plan" if plan: "planLlamaCPPRPC model W KV margin nodes policy = Inr plan"
  proof (cases "proportionalLayerAssignments rs ?L")
    case None
    then have "planWholeModelNPU model W KV margin (ls_npus s) (ls_rationale s) = Some plan"
      using plan by (simp add: planLlamaCPPRPC_def Let_def s_def [symmetric] rs_def [symmetric] split: option.splits if_splits)
    then show ?thesis unfolding planWholeModelNPU_def
      by (rule plan_whole_model_ok [OF _ L(1)]) (use llama_npus in \<open>auto simp: s_def\<close>)
  next
    case (Some as)
    with built [OF Some] plan show ?thesis by (auto simp: planLlamaCPPRPC_def Let_def s_def [symmetric] rs_def [symmetric])
  qed
  assume "?L \<le> sum_list (map md_maxLayers (llama_resources_of model W KV margin nodes policy))"
    "sum_list (map (\<lambda>m. unat (md_freeBytes m)) (llama_resources_of model W KV margin nodes policy)) < 2 ^ 64"
  moreover have "sum_list (map f rs) = sum_list (map f (ls_resources s))" for f :: "memory_device \<Rightarrow> int"
    using rs(1) by (metis mset_map sum_mset_sum_list)
  moreover have "sum_list (map f rs) = sum_list (map f (ls_resources s))" for f :: "memory_device \<Rightarrow> nat"
    using rs(1) by (metis mset_map sum_mset_sum_list)
  ultimately obtain as where "proportionalLayerAssignments rs ?L = Some as" using p by (auto simp: llama_resources_of_def s_def)
  from built [OF this] this show "\<exists>plan. planLlamaCPPRPC model W KV margin nodes policy = Inr plan"
    by (auto simp: planLlamaCPPRPC_def Let_def s_def [symmetric] rs_def [symmetric])
qed

subsection \<open>Soundness of vLLM plans\<close>

definition gpu_alloc_ok :: "nat \<Rightarrow> nat \<Rightarrow> uint64 \<Rightarrow> nat \<Rightarrow> int \<Rightarrow> int \<Rightarrow> device_allocation \<Rightarrow> bool" where
  "gpu_alloc_ok weights kv margin g s e a \<longleftrightarrow>
     al_StartLayer a = s \<and> al_EndLayer a = e \<and> unat (al_WeightsBytes a) = ceil_div weights g \<and> unat (al_KVCacheBytes a) = ceil_div kv g \<and>
     unat (al_RequiredBytes a) = unat (al_WeightsBytes a) + unat (al_KVCacheBytes a) + unat margin \<and>
     al_RequiredBytes a \<le> al_FreeMemoryBytes a"

lemma mdc_group:
  assumes "0 < g" "g < 2 ^ 64"
  shows "multiplyDivideCeil w 1 (word_of_nat g) = Inr (word_of_nat (ceil_div (unat w) g))"
    "unat (word_of_nat (ceil_div (unat w) g) :: uint64) = ceil_div (unat w) g"
proof -
  have g: "unat (word_of_nat g :: uint64) = g" using assms(2) by (rule unat_of_nat64)
  have "ceil_div (unat w) g \<le> unat w" using ceil_div_le [of g 1 "unat w"] assms(1) by simp
  then have lt: "ceil_div (unat w) g < 2 ^ 64" using unat_lt64 [of w] by linarith
  then show "unat (word_of_nat (ceil_div (unat w) g) :: uint64) = ceil_div (unat w) g" by (rule unat_of_nat64)
  have "(word_of_nat g :: uint64) \<noteq> 0" using g assms(1) by auto
  then show "multiplyDivideCeil w 1 (word_of_nat g) = Inr (word_of_nat (ceil_div (unat w) g))"
    using lt unfolding multiplyDivideCeil_exact g by simp
qed

lemma vllm_devices_ok:
  assumes "vllm_devices i s e wp kp margin g ds = Inr as" "0 < g" "g < 2 ^ 64"
  shows "length as = length ds \<and> (\<forall>a \<in> set as. gpu_alloc_ok (unat wp) (unat kp) margin g s e a)"
  using assms(1)
proof (induction ds arbitrary: as)
  case (Cons d ds)
  note w = mdc_group [OF assms(2,3), of wp] and v = mdc_group [OF assms(2,3), of kp]
  from Cons.prems obtain free as' where f: "mbToBytes (dv_FreeMemoryMB d) = Some free"
    and r: "al_RequiredBytes (makeAllocation d s e (word_of_nat (ceil_div (unat wp) g)) (word_of_nat (ceil_div (unat kp) g)) margin free) \<le> free"
    and as: "as = makeAllocation d s e (word_of_nat (ceil_div (unat wp) g)) (word_of_nat (ceil_div (unat kp) g)) margin free # as'"
      "vllm_devices i s e wp kp margin g ds = Inr as'"
    by (auto simp: w(1) v(1) Let_def not_less split: option.splits if_splits sum.splits)
  have "gpu_alloc_ok (unat wp) (unat kp) margin g s e
      (makeAllocation d s e (word_of_nat (ceil_div (unat wp) g)) (word_of_nat (ceil_div (unat kp) g)) margin free)"
    using alloc_required [OF r mbToBytes_exact(2) [OF f]] r w(2) v(2) by (simp add: gpu_alloc_ok_def) (simp add: makeAllocation_def)
  with Cons.IH [OF as(2)] as(1) show ?case by simp
qed simp

fun node_chain :: "int \<Rightarrow> node_plan list \<Rightarrow> int \<Rightarrow> bool" where
  "node_chain s [] e \<longleftrightarrow> s = e"
| "node_chain s (np # nps) e \<longleftrightarrow> np_StartLayer np = s \<and> s < np_EndLayer np \<and> node_chain (np_EndLayer np) nps e"

definition gpu_node_ok :: "uint64 \<Rightarrow> uint64 \<Rightarrow> uint64 \<Rightarrow> int \<Rightarrow> nat \<Rightarrow> eligible_node \<Rightarrow> node_plan \<Rightarrow> bool" where
  "gpu_node_ok W KV margin L g e np \<longleftrightarrow>
     np_NodeID np = cn_ID (el_node e) \<and> length (np_Devices np) = length (el_devices e) \<and>
     (\<forall>a \<in> set (np_Devices np).
        gpu_alloc_ok (ceil_div (unat W * nat (np_EndLayer np - np_StartLayer np)) (nat L))
          (ceil_div (unat KV * nat (np_EndLayer np - np_StartLayer np)) (nat L)) margin g (np_StartLayer np) (np_EndLayer np) a)"

lemma layerRange_bounds:
  assumes "0 < p" "0 \<le> i" "i < p" "p \<le> t"
  shows "0 \<le> fst (layerRange t p i)" "snd (layerRange t p i) \<le> t"
proof -
  have m: "0 \<le> t mod p" "t mod p < p" "0 \<le> t div p" using assms by (simp_all add: pos_imp_zdiv_nonneg_iff)
  show "0 \<le> fst (layerRange t p i)" using m assms(2) by (auto simp: layerRange_def Let_def)
  have "(i + 1) * (t div p) \<le> p * (t div p)" using assms(3) m(3) by (intro mult_right_mono) simp_all
  then have le: "(t div p) + i * (t div p) \<le> t - t mod p" by (simp add: algebra_simps minus_mod_eq_mult_div)
  then show "snd (layerRange t p i) \<le> t" using m assms(3) by (simp add: layerRange_def Let_def algebra_simps)
qed

lemma vllm_nodes_ok:
  assumes L: "0 < L" "L < 2 ^ 63" and N: "0 < N" "int N \<le> L" and g: "0 < (if tensor then N * D else D)" "(if tensor then N * D else D) < 2 ^ 64"
  shows "vllm_nodes L W KV margin tensor N D k es r = Inr (nps, r') \<Longrightarrow> k + length es = N \<Longrightarrow>
    list_all2 (gpu_node_ok W KV margin L (if tensor then N * D else D)) es nps \<and>
    (if tensor then \<forall>np \<in> set nps. np_StartLayer np = 0 \<and> np_EndLayer np = L
     else node_chain (fst (layerRange L (int N) (int k))) nps L)"
proof (induction es arbitrary: k r nps r')
  case Nil
  have "snd (layerRange L (int N) (int N - 1)) = L" "snd (layerRange L (int N) (int N - 1)) = fst (layerRange L (int N) (int N - 1 + 1))"
    using layerRange_chain(2,3) [of "int N" "int N - 1" L] N(1) by simp_all
  with Nil show ?case by auto
next
  case (Cons e es)
  let ?g = "if tensor then N * D else D"
  obtain s t where st: "(if tensor then (0, L) else layerRange L (int N) (int k)) = (s, t)" by fastforce
  have kn: "0 \<le> int k" "int k < int N" using Cons.prems(2) by simp_all
  have b: "0 \<le> t - s" "t - s \<le> L" "s < t"
    using st layerRange_bounds [of "int N" "int k" L] layerRange_chain(4) [of "int N" "int k" L] N kn L(1) by (auto split: if_splits)
  note w = mdc_layers [OF L b(1,2), of W] and v = mdc_layers [OF L b(1,2), of KV]
  from Cons.prems(1) obtain as r1 nps1 where
    d: "vllm_devices (cn_ID (el_node e)) s t (word_of_nat (ceil_div (unat W * nat (t - s)) (nat L))) (word_of_nat (ceil_div (unat KV * nat (t - s)) (nat L)))
          margin ?g (el_devices e) = Inr as"
    and rest: "vllm_nodes L W KV margin tensor N D (Suc k) es (r @ [PipelineAssigned (cn_ID (el_node e)) s t D]) = Inr (nps1, r1)"
    and nps: "nps = \<lparr>np_NodeID = cn_ID (el_node e), np_RPCAddress = [], np_StartLayer = s, np_EndLayer = t, np_TensorSplitLayers = 0, np_Devices = as\<rparr> # nps1"
    using st w(1) v(1) by (auto simp: Let_def split: sum.splits)
  note da = vllm_devices_ok [OF d g] and ih = Cons.IH [OF rest]
  have "gpu_node_ok W KV margin L ?g e (hd nps)"
    using da unfolding unat_of_nat64 [OF w(2)] unat_of_nat64 [OF v(2)] by (simp add: gpu_node_ok_def nps)
  moreover have "t = fst (layerRange L (int N) (int (Suc k)))" "s = fst (layerRange L (int N) (int k))" if "\<not> tensor"
    using that st layerRange_chain(2) [of "int N" "int k" L] N(1) by (simp_all add: add.commute)
  ultimately show ?case using ih Cons.prems(2) nps st b(3) by (auto split: if_splits)
qed

definition vllm_admitted :: "candidate_node \<Rightarrow> bool" where
  "vllm_admitted n \<longleftrightarrow> equal_fold (trim_space (cn_OS n)) ''linux'' \<and> (hasTrustedNetworkLink n \<or> cn_AllowInsecureShardNetwork n)"

lemma scan_vllm_cases:
  "vs_eligible (scan_vllm n s) = vs_eligible s \<or>
   (\<exists>ds. vs_eligible (scan_vllm n s) = vs_eligible s @ [\<lparr>el_node = n, el_devices = ds\<rparr>] \<and> vllm_admitted n \<and> ds \<noteq> [] \<and> length ds \<le> length (cn_Devices n))"
  by (auto simp: scan_vllm_def Let_def vllm_admitted_def sortedDevices_def intro: order_trans [OF length_filter_le] split: option.splits)

lemma scan_vllm_ok:
  "(\<forall>e \<in> set (vs_eligible (fold scan_vllm nodes s)). e \<in> set (vs_eligible s) \<or> el_node e \<in> set nodes \<and> vllm_admitted (el_node e) \<and> el_devices e \<noteq> []) \<and>
   sum_list (map (\<lambda>e. length (el_devices e)) (vs_eligible (fold scan_vllm nodes s))) \<le>
     sum_list (map (\<lambda>e. length (el_devices e)) (vs_eligible s)) + sum_list (map (\<lambda>n. length (cn_Devices n)) nodes)"
proof (induction nodes arbitrary: s)
  case (Cons n nodes)
  from scan_vllm_cases [of n s] Cons.IH [of "scan_vllm n s"] show ?case by (auto simp: add.assoc)
qed simp

lemma odd_node_None:
  "odd_node i n ref es = None \<Longrightarrow> e \<in> set es \<Longrightarrow> length (el_devices e) = n"
  by (induction es) (auto split: if_splits option.splits)

lemma homogeneous_lengths:
  assumes "homogeneityViolation es = None" "e \<in> set es"
  shows "length (el_devices e) = length (el_devices (hd es))"
proof (cases "length es < 2")
  case True
  with assms(2) have "es = [e]" by (cases es) (auto simp: less_Suc_eq length_Suc_conv)
  then show ?thesis by simp
qed (use assms in \<open>auto simp: homogeneityViolation_def elim: odd_node_None\<close>)

definition vllm_plan_ok :: "uint64 \<Rightarrow> uint64 \<Rightarrow> uint64 \<Rightarrow> int \<Rightarrow> candidate_node list \<Rightarrow> shard_plan \<Rightarrow> bool" where
  "vllm_plan_ok W KV margin L nodes plan \<longleftrightarrow>
     (if sp_VLLMParallelism plan = VLLMParallelismTensorAcrossNodes
      then \<forall>np \<in> set (sp_Nodes plan). np_StartLayer np = 0 \<and> np_EndLayer np = L
      else node_chain 0 (sp_Nodes plan) L) \<and>
     sp_TensorParallelSize plan * sp_PipelineParallelSize plan = length (concat (map np_Devices (sp_Nodes plan))) \<and>
     (\<forall>np \<in> set (sp_Nodes plan). np_Devices np \<noteq> [] \<and>
        (\<forall>a \<in> set (np_Devices np).
          gpu_alloc_ok (ceil_div (unat W * nat (np_EndLayer np - np_StartLayer np)) (nat L))
            (ceil_div (unat KV * nat (np_EndLayer np - np_StartLayer np)) (nat L)) margin (sp_TensorParallelSize plan)
            (np_StartLayer np) (np_EndLayer np) a) \<and>
        (\<exists>n \<in> set nodes. vllm_admitted n \<and> cn_ID n = np_NodeID np))"

lemma planVLLM_ok:
  assumes L: "0 < mp_LayerCount model" "mp_LayerCount model < 2 ^ 63" and plan: "planVLLMMP model W KV margin nodes policy = Inr plan"
    and few: "sum_list (map (\<lambda>n. length (cn_Devices n)) nodes) < 2 ^ 64"
  shows "vllm_plan_ok W KV margin (mp_LayerCount model) nodes plan"
proof -
  let ?L = "mp_LayerCount model"
  define es where "es = vs_eligible (fold scan_vllm nodes \<lparr>vs_eligible = [], vs_linux = False, vs_untrusted = False, vs_trusted = False, vs_rationale = []\<rparr>)"
  define D where "D = length (el_devices (hd es))"
  from plan obtain t r nps r2 where es: "es \<noteq> []" "int (length es) \<le> ?L" "homogeneityViolation es = None"
    and nps: "vllm_nodes ?L W KV margin (t = VLLMParallelismTensorAcrossNodes) (length es) D 0 es r = Inr (nps, r2)"
    and p: "sp_Nodes plan = nps" "sp_VLLMParallelism plan = t"
      "sp_TensorParallelSize plan = (if t = VLLMParallelismTensorAcrossNodes then length es * D else D)"
      "sp_PipelineParallelSize plan = (if t = VLLMParallelismTensorAcrossNodes then 1 else length es)"
    unfolding planVLLMMP_def Let_def es_def [symmetric] D_def [symmetric]
    by (clarsimp simp: not_less split: if_splits option.splits prod.splits sum.splits) (metis (full_types))+
  have e: "\<forall>e \<in> set es. el_node e \<in> set nodes \<and> vllm_admitted (el_node e) \<and> el_devices e \<noteq> []"
    "sum_list (map (\<lambda>e. length (el_devices e)) es) < 2 ^ 64"
    using scan_vllm_ok [of nodes "\<lparr>vs_eligible = [], vs_linux = False, vs_untrusted = False, vs_trusted = False, vs_rationale = []\<rparr>"] few
    unfolding es_def [symmetric] by simp_all
  have D: "\<forall>e \<in> set es. length (el_devices e) = D" using homogeneous_lengths [OF es(3)] by (simp add: D_def)
  then have sum: "sum_list (map (\<lambda>e. length (el_devices e)) es) = length es * D" by (induction es) simp_all
  have D0: "0 < D" "0 < length es" using es(1) e(1) D by (cases es; auto)+
  have "1 * D \<le> length es * D" by (intro mult_right_mono Suc_leI [OF D0(2), folded One_nat_def]) simp
  then have "D < 2 ^ 64" using e(2) unfolding sum by linarith
  then have g: "0 < (if t = VLLMParallelismTensorAcrossNodes then length es * D else D)" "(if t = VLLMParallelismTensorAcrossNodes then length es * D else D) < 2 ^ 64"
    using D0 e(2) sum by (simp_all split: if_split)
  from vllm_nodes_ok [OF L D0(2) es(2) g nps] have n: "list_all2 (gpu_node_ok W KV margin ?L (sp_TensorParallelSize plan)) es nps"
    "if t = VLLMParallelismTensorAcrossNodes then \<forall>np \<in> set nps. np_StartLayer np = 0 \<and> np_EndLayer np = ?L else node_chain 0 nps ?L"
    using layerRange_chain(1) [of "int (length es)" 0 ?L] D0(2) by (auto simp: p)
  have "list_all2 (\<lambda>e np. length (np_Devices np) = D) es nps" using n(1) D by (auto simp: list_all2_conv_all_nth gpu_node_ok_def)
  then have "length (concat (map np_Devices nps)) = length es * D" by (induction rule: list_all2_induct) (simp_all)
  moreover have "np_Devices np \<noteq> [] \<and> (\<exists>e \<in> set es. gpu_node_ok W KV margin ?L (sp_TensorParallelSize plan) e np)" if "np \<in> set nps" for np
  proof -
    from that n(1) obtain e' where "e' \<in> set es" "gpu_node_ok W KV margin ?L (sp_TensorParallelSize plan) e' np"
      by (metis in_set_conv_nth list_all2_conv_all_nth)
    moreover from this D D0(1) have "np_Devices np \<noteq> []" by (auto simp: gpu_node_ok_def)
    ultimately show ?thesis by blast
  qed
  moreover have "\<exists>n \<in> set nodes. vllm_admitted n \<and> cn_ID n = np_NodeID np" if "e' \<in> set es" "gpu_node_ok W KV margin ?L g' e' np" for e' g' np
    using that e(1) by (auto simp: gpu_node_ok_def)
  ultimately show ?thesis using n(2) unfolding vllm_plan_ok_def by (fastforce simp: p(1,2) p(3,4) gpu_node_ok_def)
qed

subsection \<open>What every plan rests on\<close>

lemma clean_candidates_map: "clean_candidates k seen cs = Inr ns \<Longrightarrow> ns = map clean_candidate cs"
  by (induction cs arbitrary: k seen ns) (auto simp: Let_def split: if_splits option.splits sum.splits)

lemma normalize_ok:
  assumes "normalizeCandidates cs = Inr nodes"
  shows "\<forall>n \<in> set nodes. \<exists>c \<in> set cs. n = clean_candidate c"
    "sum_list (map (\<lambda>n. length (cn_Devices n)) nodes) = sum_list (map (\<lambda>c. length (cn_Devices c)) cs)"
proof -
  from assms obtain ns where "clean_candidates 0 [] cs = Inr ns" "nodes = sort_key cn_ID ns"
    by (auto simp: normalizeCandidates_def split: sum.splits)
  then have n: "nodes = sort_key cn_ID (map clean_candidate cs)" using clean_candidates_map by blast
  then show "\<forall>n \<in> set nodes. \<exists>c \<in> set cs. n = clean_candidate c" by auto
  have "mset nodes = mset (map clean_candidate cs)" unfolding n by simp
  then have "image_mset (\<lambda>n. length (cn_Devices n)) (mset nodes) = image_mset (\<lambda>n. length (cn_Devices n)) (mset (map clean_candidate cs))" by (rule arg_cong)
  then have "mset (map (\<lambda>n. length (cn_Devices n)) nodes) = mset (map (\<lambda>c. length (cn_Devices c)) cs)"
    by (simp add: clean_candidate_def multiset.map_comp comp_def)
  then show "sum_list (map (\<lambda>n. length (cn_Devices n)) nodes) = sum_list (map (\<lambda>c. length (cn_Devices c)) cs)"
    unfolding sum_mset_sum_list [symmetric] by (rule arg_cong)
qed

definition kv_element_bytes :: "policy \<Rightarrow> uint64" where
  "kv_element_bytes policy = (if po_KVCacheBytesPerElement policy = 0 then 2 else po_KVCacheBytesPerElement policy)"

lemma profile_layers: "validateModelProfile model = [] \<Longrightarrow> 0 < mp_LayerCount model"
  by (auto simp: validateModelProfile_def split: if_splits)

lemma Plan_cases:
  assumes "Plan model cs policy = Inr plan"
  obtains W KV nodes where "EffectiveWeightsSizeBytes model = Inr W" "modelKVBytes model (kv_element_bytes policy) = Some KV"
    "normalizeCandidates cs = Inr nodes" "0 < mp_LayerCount model"
    "(if po_Mode policy = ModeLlamaCPPRPC then planLlamaCPPRPC model W KV (po_SafetyMarginMB policy * mebibyte) nodes policy
      else planVLLMMP model W KV (po_SafetyMarginMB policy * mebibyte) nodes policy) = Inr plan"
    "unat (po_SafetyMarginMB policy * mebibyte) = unat (po_SafetyMarginMB policy) * 2 ^ 20"
proof -
  from assms obtain W KV nodes where "validateModelProfile model = []" "EffectiveWeightsSizeBytes model = Inr W" "modelKVBytes model (kv_element_bytes policy) = Some KV"
    "normalizeCandidates cs = Inr nodes" 
    "(if po_Mode policy = ModeLlamaCPPRPC then planLlamaCPPRPC model W KV (po_SafetyMarginMB policy * mebibyte) nodes policy
      else planVLLMMP model W KV (po_SafetyMarginMB policy * mebibyte) nodes policy) = Inr plan"
    and m: "\<not> MaxUint64 div mebibyte < po_SafetyMarginMB policy"
    unfolding Plan_def Let_def kv_element_bytes_def [symmetric] by (auto split: if_splits sum.splits option.splits)
  moreover have "mbToBytes (po_SafetyMarginMB policy) = Some (po_SafetyMarginMB policy * mebibyte)" using m by (simp add: mbToBytes_def)
  ultimately show ?thesis using that profile_layers mbToBytes_exact(1) by blast
qed

subsection \<open>Plans are sound and found\<close>


text \<open>C25: the llama.cpp planner finds a plan whenever the accepted devices together have room for all the layers, provided their free
  memory adds up to less than 2^64 bytes, the point past which the shares are no longer computed exactly.\<close>

theorem llama_plan_found:
  assumes "validateModelProfile model = []" "po_Mode policy = ModeLlamaCPPRPC" "mp_LayerCount model < 2 ^ 63"
    "po_SafetyMarginMB policy \<le> MaxUint64 div mebibyte" "EffectiveWeightsSizeBytes model = Inr W"
    "modelKVBytes model (kv_element_bytes policy) = Some KV" "normalizeCandidates candidates = Inr nodes"
    "mp_LayerCount model \<le> sum_list (map md_maxLayers (llama_resources_of model W KV (po_SafetyMarginMB policy * mebibyte) nodes policy))"
    "sum_list (map (\<lambda>m. unat (md_freeBytes m)) (llama_resources_of model W KV (po_SafetyMarginMB policy * mebibyte) nodes policy)) < 2 ^ 64"
  shows "\<exists>plan. Plan model candidates policy = Inr plan"
proof -
  note L = profile_layers [OF assms(1)]
  have "nodes \<noteq> []" using assms(8) L by (auto simp: llama_resources_of_def scan_nodes_def)
  with planLlama_ok(2) [OF L assms(3,8,9)] assms show ?thesis
    by (auto simp: Plan_def Let_def kv_element_bytes_def [symmetric] not_less ModeLlamaCPPRPC_def ModeVLLMMP_def)
qed


definition sample_profile :: model_profile where
  "sample_profile = \<lparr>mp_Name = ''m'', mp_Architecture = ''llama'', mp_Parameters = 0, mp_LayerCount = 4, mp_HiddenSize = 8, mp_KVHeads = 1, mp_HeadDim = 4,
     mp_VocabSize = 16, mp_Quantization = [], mp_FileSizeBytes = 0, mp_WeightsSizeBytes = 4000000, mp_RequestedContext = 16\<rparr>"

definition sample_policy :: "string \<Rightarrow> policy" where
  "sample_policy mode = \<lparr>po_Mode = mode, po_SafetyMarginMB = 1, po_KVCacheBytesPerElement = 0, po_AllowCPUOffload = False,
     po_MinimumLinkSpeedMbps = 0, po_VLLMParallelism = []\<rparr>"

definition sample_candidates :: "candidate_node list" where
  "sample_candidates = [sample_node ''b'' [sample_gpu 0 8], sample_node ''a'' [sample_gpu 0 4]]"

definition sample_nodes :: "candidate_node list" where
  "sample_nodes = [sample_node ''a'' [sample_gpu 0 4], sample_node ''b'' [sample_gpu 0 8]]"

lemma sample_inputs:
  "validateModelProfile sample_profile = []" "EffectiveWeightsSizeBytes sample_profile = Inr 4000000"
  "modelKVBytes sample_profile 2 = Some 1024" "normalizeCandidates sample_candidates = Inr sample_nodes"
  by code_simp+

lemma sample_rejections:
  "llama_rejection (sample_node ''a'' [sample_gpu 0 4]) = None" "llama_rejection (sample_node ''b'' [sample_gpu 0 8]) = None"
  by code_simp+

lemma sample_devices:
  "mbToBytes 4 = Some 4194304" "mbToBytes 8 = Some 8388608" "normalizeDeviceKind ''gpu'' = ''gpu''"
  "deviceSupportedByEngine sample_capabilities (sample_gpu 0 4)" "deviceSupportedByEngine sample_capabilities (sample_gpu 0 8)" "BackendsOverlap [] []"
  by code_simp+

lemma sample_resources:
  "map (\<lambda>m. (md_freeBytes m, md_maxLayers m)) (llama_resources_of sample_profile 4000000 1024 1048576 sample_nodes (sample_policy ModeLlamaCPPRPC)) =
     [(4194304, maximumLayersThatFit 3145728 4000000 1024 4), (8388608, maximumLayersThatFit 7340032 4000000 1024 4)]"
proof -
  have "llama_device 4 4000000 1024 1048576 False (sample_node ''a'' [sample_gpu 0 4]) (sample_gpu 0 4) =
     Place \<lparr>md_node = sample_node ''a'' [sample_gpu 0 4], md_device = sample_gpu 0 4, md_freeBytes = 4194304, md_usableBytes = 3145728,
       md_maxLayers = maximumLayersThatFit 3145728 4000000 1024 4\<rparr>"
    by (simp add: llama_device_def Let_def makeMemoryDevice_def sample_node_def sample_devices) (simp add: sample_gpu_def sample_devices sample_capabilities_def)
  moreover have "llama_device 4 4000000 1024 1048576 False (sample_node ''b'' [sample_gpu 0 8]) (sample_gpu 0 8) =
     Place \<lparr>md_node = sample_node ''b'' [sample_gpu 0 8], md_device = sample_gpu 0 8, md_freeBytes = 8388608, md_usableBytes = 7340032,
       md_maxLayers = maximumLayersThatFit 7340032 4000000 1024 4\<rparr>"
    by (simp add: llama_device_def Let_def makeMemoryDevice_def sample_node_def sample_devices) (simp add: sample_gpu_def sample_devices sample_capabilities_def)
  ultimately show ?thesis
    by (simp add: llama_resources_of_def scan_nodes_devices node_verdicts_def sample_nodes_def sample_rejections sample_profile_def sample_policy_def)
      (simp add: sample_node_def sortedDevices_def)
qed

lemma sample_room: "4 \<le> maximumLayersThatFit 3145728 4000000 1024 4 + maximumLayersThatFit 7340032 4000000 1024 4"
proof -
  have "3 \<le> maximumLayersThatFit 3145728 4000000 1024 4 \<longleftrightarrow> layer_bytes 4000000 1024 4 3 \<le> unat (3145728 :: uint64)"
    "1 \<le> maximumLayersThatFit 7340032 4000000 1024 4 \<longleftrightarrow> layer_bytes 4000000 1024 4 1 \<le> unat (7340032 :: uint64)"
    using maximumLayersThatFit_max [of 4 3145728 4000000 1024] maximumLayersThatFit_max [of 4 7340032 4000000 1024] by simp_all
  then show ?thesis by (simp add: layer_bytes_def ceil_div_def)
qed

lemma sample_plan_inputs:
  "mp_LayerCount sample_profile = 4" "po_SafetyMarginMB (sample_policy mode) = 1" "po_Mode (sample_policy mode) = mode"
  "kv_element_bytes (sample_policy mode) = 2" "mebibyte = 1048576" "ModeLlamaCPPRPC \<noteq> ModeVLLMMP"
  "po_VLLMParallelism (sample_policy mode) = []"
  by (simp_all add: sample_profile_def sample_policy_def kv_element_bytes_def mebibyte_def ModeLlamaCPPRPC_def ModeVLLMMP_def)

lemma sample_margin: "\<not> MaxUint64 div mebibyte < 1"
  by code_simp

lemma sample_capacity:
  "4 \<le> sum_list (map md_maxLayers (llama_resources_of sample_profile 4000000 1024 1048576 sample_nodes (sample_policy ModeLlamaCPPRPC)))"
  "sum_list (map (\<lambda>m. unat (md_freeBytes m)) (llama_resources_of sample_profile 4000000 1024 1048576 sample_nodes (sample_policy ModeLlamaCPPRPC))) < 2 ^ 64"
proof -
  let ?ms = "llama_resources_of sample_profile 4000000 1024 1048576 sample_nodes (sample_policy ModeLlamaCPPRPC)"
  have "map md_maxLayers ?ms = map snd (map (\<lambda>m. (md_freeBytes m, md_maxLayers m)) ?ms)"
    "map (\<lambda>m. unat (md_freeBytes m)) ?ms = map (unat \<circ> fst) (map (\<lambda>m. (md_freeBytes m, md_maxLayers m)) ?ms)" by simp_all
  then show "4 \<le> sum_list (map md_maxLayers ?ms)" "sum_list (map (\<lambda>m. unat (md_freeBytes m)) ?ms) < 2 ^ 64"
    using sample_room unfolding sample_resources by simp_all
qed

lemma sample_llama_plan: "\<exists>plan. Plan sample_profile sample_candidates (sample_policy ModeLlamaCPPRPC) = Inr plan"
proof -
  have "\<exists>plan. planLlamaCPPRPC sample_profile 4000000 1024 1048576 sample_nodes (sample_policy ModeLlamaCPPRPC) = Inr plan"
    using planLlama_ok(2) [of sample_profile 4000000 1024 1048576 sample_nodes "sample_policy ModeLlamaCPPRPC"] sample_capacity
    by (simp add: sample_plan_inputs)
  then show ?thesis unfolding Plan_def Let_def kv_element_bytes_def [symmetric] sample_plan_inputs(2-4) if_not_P [OF sample_margin]
    by (simp add: sample_inputs sample_plan_inputs(5-)) (simp add: sample_nodes_def)
qed


theorem llama_plan_found_witness: "\<exists>plan. Plan sample_profile sample_candidates (sample_policy ModeLlamaCPPRPC) = Inr plan"
proof (rule llama_plan_found)
  show "validateModelProfile sample_profile = []" "EffectiveWeightsSizeBytes sample_profile = Inr 4000000" "normalizeCandidates sample_candidates = Inr sample_nodes"
    "modelKVBytes sample_profile (kv_element_bytes (sample_policy ModeLlamaCPPRPC)) = Some 1024"
    by (simp_all add: sample_inputs sample_plan_inputs)
  show "po_SafetyMarginMB (sample_policy ModeLlamaCPPRPC) \<le> MaxUint64 div mebibyte" using sample_margin unfolding sample_plan_inputs(2) not_less .
qed (use sample_capacity in \<open>simp_all add: sample_plan_inputs\<close>)

lemma sample_eligible:
  "fold scan_vllm sample_nodes \<lparr>vs_eligible = [], vs_linux = False, vs_untrusted = False, vs_trusted = False, vs_rationale = []\<rparr> =
     \<lparr>vs_eligible = [\<lparr>el_node = sample_node ''a'' [sample_gpu 0 4], el_devices = [sample_gpu 0 4]\<rparr>,
        \<lparr>el_node = sample_node ''b'' [sample_gpu 0 8], el_devices = [sample_gpu 0 8]\<rparr>],
      vs_linux = True, vs_untrusted = False, vs_trusted = True, vs_rationale = [GPUsAccepted ''a'' 1, GPUsAccepted ''b'' 1]\<rparr>"
  by code_simp

lemma sample_topology:
  "homogeneityViolation [\<lparr>el_node = sample_node ''a'' [sample_gpu 0 4], el_devices = [sample_gpu 0 4]\<rparr>,
     \<lparr>el_node = sample_node ''b'' [sample_gpu 0 8], el_devices = [sample_gpu 0 8]\<rparr>] = None"
  "fst (chooseVLLMParallelism [\<lparr>el_node = sample_node ''a'' [sample_gpu 0 4], el_devices = [sample_gpu 0 4]\<rparr>,
     \<lparr>el_node = sample_node ''b'' [sample_gpu 0 8], el_devices = [sample_gpu 0 8]\<rparr>] (sample_policy ModeVLLMMP)) = Inr VLLMParallelismPipeline"
  by code_simp+

lemma sample_vllm_nodes:
  "\<exists>nps r'. vllm_nodes 4 4000000 1024 1048576 False 2 1 0 [\<lparr>el_node = sample_node ''a'' [sample_gpu 0 4], el_devices = [sample_gpu 0 4]\<rparr>,
     \<lparr>el_node = sample_node ''b'' [sample_gpu 0 8], el_devices = [sample_gpu 0 8]\<rparr>] r = Inr (nps, r')"
  by (simp add: layerRange_def multiplyDivideCeil_exact ceil_div_def sample_gpu_def sample_devices(1,2) makeAllocation_def addThree_def addTwo_def Let_def)

lemma sample_vllm_plan: "\<exists>plan. Plan sample_profile sample_candidates (sample_policy ModeVLLMMP) = Inr plan"
proof -
  obtain c r where c: "chooseVLLMParallelism [\<lparr>el_node = sample_node ''a'' [sample_gpu 0 4], el_devices = [sample_gpu 0 4]\<rparr>,
     \<lparr>el_node = sample_node ''b'' [sample_gpu 0 8], el_devices = [sample_gpu 0 8]\<rparr>] (sample_policy ModeVLLMMP) = (Inr VLLMParallelismPipeline, r)"
    using sample_topology(2) by (metis prod.collapse)
  have "VLLMParallelismPipeline \<noteq> VLLMParallelismTensorAcrossNodes" by code_simp
  then have "\<exists>plan. planVLLMMP sample_profile 4000000 1024 1048576 sample_nodes (sample_policy ModeVLLMMP) = Inr plan"
    using sample_vllm_nodes [of "[GPUsAccepted ''a'' 1, GPUsAccepted ''b'' 1] @ r"]
    unfolding planVLLMMP_def Let_def sample_eligible by (auto simp: sample_topology(1) c sample_plan_inputs(1) numeral_2_eq_2 simp del: vllm_nodes.simps)
  then show ?thesis unfolding Plan_def Let_def kv_element_bytes_def [symmetric] sample_plan_inputs(2-4) if_not_P [OF sample_margin]
    by (simp add: sample_inputs sample_plan_inputs(5-) sample_plan_inputs(6) [symmetric]) (simp add: sample_nodes_def)
qed


end
