(* ===== verification/Step_System.thy ===== *)
theory Step_System
  imports Main
begin

text \<open>
  The contract of a component that is driven by a sequence of events: a step function that keeps an
  invariant. What holds of one step holds of every history; the components interpret the locale on
  their own step functions.
\<close>

locale step_system =
  fixes step :: "'e \<Rightarrow> 's \<Rightarrow> 's"
    and inv :: "'s \<Rightarrow> bool"
  assumes inv_step: "inv s \<Longrightarrow> inv (step e s)"
begin

lemma inv_run: "inv s \<Longrightarrow> inv (fold step es s)"
  by (induction es arbitrary: s) (simp_all add: inv_step)

text \<open>A property that the steps of a history keep, as long as the invariant holds.\<close>

lemma kept_run:
  assumes "\<And>s e. inv s \<Longrightarrow> P s \<Longrightarrow> Q e \<Longrightarrow> P (step e s)"
  shows "inv s \<Longrightarrow> P s \<Longrightarrow> \<forall>e \<in> set es. Q e \<Longrightarrow> P (fold step es s)"
  by (induction es arbitrary: s) (simp_all add: assms inv_step)

end

end
