(* ===== verification/Router_Breaker.thy ===== *)
theory Router_Breaker
  imports Go_Text Step_System "HOL-Library.Product_Lexorder"
begin

text \<open>
  The circuit breakers of the model router (\<^verbatim>\<open>internal/orchestrator/router_breaker.go\<close>): one entry per node
  and model, which opens after repeated failures, half-opens when its delay has passed and then lets
  one probe through. Instants and durations are integers in nanoseconds. The clock reading of an
  operation is its argument \<open>now\<close>; so is the jitter, which the code draws from a random source
  (\<open>None\<close> for a nil function). A nil receiver is \<open>None\<close>. The states keep their strings.
\<close>

subsection \<open>Breakers\<close>

definition routerBreakerFailureThreshold :: nat where
  "routerBreakerFailureThreshold = 3"

definition routerBreakerFailureWindow :: int where
  "routerBreakerFailureWindow = 30 * 1000000000"

definition routerBreakerBaseBackoff :: int where
  "routerBreakerBaseBackoff = 1000000000"

definition routerBreakerMaxBackoff :: int where
  "routerBreakerMaxBackoff = 60 * 1000000000"

definition routerBreakerMaxEntries :: nat where
  "routerBreakerMaxEntries = 4096"

record breaker_snapshot =
  bs_NodeID :: string
  bs_Model :: string
  bs_State :: string
  bs_RecentFailures :: nat
  bs_OpenUntil :: "int option"
  bs_ProbeInFlight :: bool

record router_breaker =
  rb_state :: string
  rb_recentFailures :: "int list"
  rb_openCount :: int
  rb_openUntil :: int
  rb_probeInFlight :: bool
  rb_lastFailure :: int

type_synonym breakers = "(string, router_breaker) gomap option"

definition newRouterCircuitBreakers :: breakers where
  "newRouterCircuitBreakers = Some []"

definition routerPairKey :: "string \<Rightarrow> string \<Rightarrow> string" where
  "routerPairKey nodeID model = nodeID @ [CHR 0x00] @ model"

abbreviation breaker_key :: "string \<Rightarrow> string \<Rightarrow> string" where
  "breaker_key nodeID model \<equiv> routerPairKey nodeID (to_lower (trim_space model))"

definition transitionExpired :: "int \<Rightarrow> router_breaker \<Rightarrow> router_breaker" where
  "transitionExpired now entry =
     (if rb_state entry = ''open'' \<and> \<not> now < rb_openUntil entry
      then entry\<lparr>rb_state := ''half_open'', rb_probeInFlight := False\<rparr> else entry)"

definition pruneFailures :: "int \<Rightarrow> router_breaker \<Rightarrow> router_breaker" where
  "pruneFailures now entry =
     (let kept = dropWhile (\<lambda>t. routerBreakerFailureWindow < now - t) (rb_recentFailures entry);
          pruned = entry\<lparr>rb_recentFailures := kept\<rparr>
      in if rb_state entry = ''closed'' \<and> length kept < routerBreakerFailureThreshold then pruned\<lparr>rb_openCount := 0\<rparr> else pruned)"

text \<open>The doubling loop of \<^verbatim>\<open>open\<close>; its argument is the number of rounds left.\<close>

fun backoff_loop :: "nat \<Rightarrow> int \<Rightarrow> int" where
  "backoff_loop 0 delay = delay"
| "backoff_loop (Suc rounds) delay =
     (if delay < routerBreakerMaxBackoff then backoff_loop rounds (min (delay * 2) routerBreakerMaxBackoff) else delay)"

definition open_breaker :: "(int \<Rightarrow> int) option \<Rightarrow> int \<Rightarrow> router_breaker \<Rightarrow> router_breaker" where
  "open_breaker jitter now entry =
     (let openCount = (if rb_openCount entry < 1 then 1 else rb_openCount entry);
          delay = backoff_loop (nat (openCount - 1)) routerBreakerBaseBackoff;
          jittered = (case jitter of None \<Rightarrow> delay | Some f \<Rightarrow> f delay)
      in entry\<lparr>rb_state := ''open'', rb_probeInFlight := False, rb_openUntil := now + min jittered routerBreakerMaxBackoff,
           rb_openCount := openCount + 1\<rparr>)"

subsection \<open>Admission\<close>

definition eligible_pair :: "int \<Rightarrow> string \<Rightarrow> string \<Rightarrow> breakers \<Rightarrow> bool \<times> breakers" where
  "eligible_pair now nodeID model b =
     (case b of
        None \<Rightarrow> (True, None)
      | Some entries \<Rightarrow>
          (case gm_get entries (breaker_key nodeID model) of
             None \<Rightarrow> (True, b)
           | Some entry \<Rightarrow>
               (let e = transitionExpired now entry
                in (rb_state e \<noteq> ''open'' \<and> (rb_state e \<noteq> ''half_open'' \<or> \<not> rb_probeInFlight e),
                    Some (gm_put (breaker_key nodeID model) e entries)))))"

definition acquire :: "int \<Rightarrow> string \<Rightarrow> string \<Rightarrow> breakers \<Rightarrow> bool \<times> breakers" where
  "acquire now nodeID model b =
     (case b of
        None \<Rightarrow> (True, None)
      | Some entries \<Rightarrow>
          (case gm_get entries (breaker_key nodeID model) of
             None \<Rightarrow> (True, b)
           | Some entry \<Rightarrow>
               (let e = transitionExpired now entry;
                    keep = (\<lambda>x. Some (gm_put (breaker_key nodeID model) x entries))
                in if rb_state e \<noteq> ''half_open'' then (rb_state e \<noteq> ''open'', keep e)
                   else if rb_probeInFlight e then (False, keep e)
                   else (True, keep (e\<lparr>rb_probeInFlight := True\<rparr>)))))"

definition releaseProbe :: "string \<Rightarrow> string \<Rightarrow> breakers \<Rightarrow> breakers" where
  "releaseProbe nodeID model b =
     (case b of
        None \<Rightarrow> None
      | Some entries \<Rightarrow>
          (case gm_get entries (breaker_key nodeID model) of
             None \<Rightarrow> b
           | Some entry \<Rightarrow>
               if rb_state entry = ''half_open'' then Some (gm_put (breaker_key nodeID model) (entry\<lparr>rb_probeInFlight := False\<rparr>) entries)
               else b))"

subsection \<open>Outcomes\<close>

text \<open>Making room prunes every entry and drops those that are closed and have no recent failure. Then a new entry is added unless
  the table is full.\<close>

definition entryForUpdate :: "string \<Rightarrow> int \<Rightarrow> (string, router_breaker) gomap \<Rightarrow> router_breaker option \<times> (string, router_breaker) gomap" where
  "entryForUpdate key now entries =
     (case gm_get entries key of
        Some entry \<Rightarrow> (Some entry, entries)
      | None \<Rightarrow>
          (let kept = filter (\<lambda>(_, e). \<not> (rb_state e = ''closed'' \<and> rb_recentFailures e = []))
                        (map (\<lambda>(k, e). (k, pruneFailures now e)) entries);
               entry = \<lparr>rb_state = ''closed'', rb_recentFailures = [], rb_openCount = 0, rb_openUntil = 0, rb_probeInFlight = False, rb_lastFailure = 0\<rparr>
           in if routerBreakerMaxEntries \<le> length kept then (None, kept) else (Some entry, gm_put key entry kept)))"

definition failed_entry :: "(int \<Rightarrow> int) option \<Rightarrow> int \<Rightarrow> router_breaker \<Rightarrow> router_breaker" where
  "failed_entry jitter now entry =
     (let e = (pruneFailures now entry)\<lparr>rb_lastFailure := now\<rparr>;
          e1 = e\<lparr>rb_recentFailures := rb_recentFailures e @ [now]\<rparr>
      in if rb_state e = ''half_open'' then open_breaker jitter now e1
         else if rb_state e1 \<noteq> ''open'' \<and> routerBreakerFailureThreshold \<le> length (rb_recentFailures e1)
         then open_breaker jitter now (e1\<lparr>rb_openCount := 1\<rparr>)
         else e1)"

definition recordFailure :: "(int \<Rightarrow> int) option \<Rightarrow> int \<Rightarrow> string \<Rightarrow> string \<Rightarrow> breakers \<Rightarrow> breakers" where
  "recordFailure jitter now nodeID model b =
     (case b of
        None \<Rightarrow> None
      | Some entries \<Rightarrow>
          (case entryForUpdate (breaker_key nodeID model) now entries of
             (None, kept) \<Rightarrow> Some kept
           | (Some entry, kept) \<Rightarrow> Some (gm_put (breaker_key nodeID model) (failed_entry jitter now entry) kept)))"

definition recordSuccess :: "string \<Rightarrow> string \<Rightarrow> breakers \<Rightarrow> breakers" where
  "recordSuccess nodeID model b = map_option (gm_del (breaker_key nodeID model)) b"

definition recordHealthyResponse :: "string \<Rightarrow> string \<Rightarrow> breakers \<Rightarrow> breakers" where
  "recordHealthyResponse nodeID model b =
     (case b of
        None \<Rightarrow> None
      | Some entries \<Rightarrow>
          (case gm_get entries (breaker_key nodeID model) of
             None \<Rightarrow> b
           | Some entry \<Rightarrow> if rb_state entry = ''half_open'' then Some (gm_del (breaker_key nodeID model) entries) else b))"

definition isTransientRouterFailure :: "string \<Rightarrow> bool" where
  "isTransientRouterFailure cls \<longleftrightarrow>
     cls \<in> set [''node_unavailable'', ''transport'', ''timeout'', ''time_to_first_byte_timeout'', ''idle_stream_timeout'', ''upstream_5xx'',
       ''rate_limit'', ''stale_model'', ''upstream_read'', ''stream_interrupted'']"

subsection \<open>Snapshots\<close>

text \<open>The nodes are pairs of an identifier and the names of the models they serve, the parts of \<^verbatim>\<open>cluster.NodeStatus\<close> that are read. The
  loop runs over the pairs of a node and a model in order.\<close>

definition snapshot_item :: "int \<Rightarrow> string \<Rightarrow> string \<Rightarrow> (string, router_breaker) gomap \<Rightarrow> breaker_snapshot \<times> (string, router_breaker) gomap" where
  "snapshot_item now nodeID modelName entries =
     (case gm_get entries (routerPairKey nodeID (to_lower modelName)) of
        None \<Rightarrow> (\<lparr>bs_NodeID = nodeID, bs_Model = modelName, bs_State = ''closed'', bs_RecentFailures = 0, bs_OpenUntil = None,
                  bs_ProbeInFlight = False\<rparr>, entries)
      | Some entry \<Rightarrow>
          (let e = pruneFailures now (transitionExpired now entry)
           in (\<lparr>bs_NodeID = nodeID, bs_Model = modelName, bs_State = rb_state e, bs_RecentFailures = length (rb_recentFailures e),
                bs_OpenUntil = (if rb_state e = ''open'' then Some (rb_openUntil e) else None), bs_ProbeInFlight = rb_probeInFlight e\<rparr>,
               gm_put (routerPairKey nodeID (to_lower modelName)) e entries)))"

fun snapshot_loop :: "int \<Rightarrow> string list \<Rightarrow> (string \<times> string) list \<Rightarrow> (string, router_breaker) gomap \<Rightarrow>
    breaker_snapshot list \<times> (string, router_breaker) gomap" where
  "snapshot_loop now seen [] entries = ([], entries)"
| "snapshot_loop now seen ((nodeID, model) # pairs) entries =
     (let modelName = trim_space model; key = routerPairKey nodeID (to_lower modelName)
      in if modelName = [] \<or> key \<in> set seen then snapshot_loop now seen pairs entries
         else let (item, entries1) = snapshot_item now nodeID modelName entries;
                  (items, entries2) = snapshot_loop now (key # seen) pairs entries1
              in (item # items, entries2))"

definition snapshot :: "int \<Rightarrow> (string \<times> string list) list \<Rightarrow> breakers \<Rightarrow> breaker_snapshot list \<times> breakers" where
  "snapshot now nodes b =
     (case b of
        None \<Rightarrow> ([], None)
      | Some entries \<Rightarrow>
          (let (items, entries1) = snapshot_loop now [] (concat (map (\<lambda>(i, ms). map (Pair i) ms) nodes)) entries
           in (sort_key (\<lambda>s. (bs_NodeID s, to_lower (bs_Model s))) items, Some entries1)))"

subsection \<open>Histories\<close>

datatype breaker_event =
    Eligible int string string
  | Acquire int string string
  | ReleaseProbe string string
  | RecordFailure "(int \<Rightarrow> int) option" int string string
  | RecordSuccess string string
  | RecordHealthyResponse string string
  | Snapshot int "(string \<times> string list) list"

fun breaker_step :: "breaker_event \<Rightarrow> breakers \<Rightarrow> breakers" where
  "breaker_step (Eligible now i m) b = snd (eligible_pair now i m b)"
| "breaker_step (Acquire now i m) b = snd (acquire now i m b)"
| "breaker_step (ReleaseProbe i m) b = releaseProbe i m b"
| "breaker_step (RecordFailure jitter now i m) b = recordFailure jitter now i m b"
| "breaker_step (RecordSuccess i m) b = recordSuccess i m b"
| "breaker_step (RecordHealthyResponse i m) b = recordHealthyResponse i m b"
| "breaker_step (Snapshot now nodes) b = snd (snapshot now nodes b)"

subsection \<open>Well-formed breakers\<close>

definition breaker_ok :: "router_breaker \<Rightarrow> bool" where
  "breaker_ok e \<longleftrightarrow> rb_state e \<in> {''closed'', ''open'', ''half_open''} \<and> (rb_probeInFlight e \<longrightarrow> rb_state e = ''half_open'') \<and>
     (rb_state e = ''closed'' \<longrightarrow> length (rb_recentFailures e) < routerBreakerFailureThreshold) \<and> (rb_state e \<noteq> ''closed'' \<longrightarrow> 1 \<le> rb_openCount e)"

definition entries_ok :: "(string, router_breaker) gomap \<Rightarrow> bool" where
  "entries_ok es \<longleftrightarrow> gm_wf es \<and> length es \<le> routerBreakerMaxEntries \<and> (\<forall>e \<in> snd ` set es. breaker_ok e)"

lemma transitionExpired_ok: "breaker_ok e \<Longrightarrow> breaker_ok (transitionExpired now e)"
  by (auto simp: breaker_ok_def transitionExpired_def)

lemma pruneFailures_ok: "breaker_ok e \<Longrightarrow> breaker_ok (pruneFailures now e)"
  by (auto simp: breaker_ok_def pruneFailures_def Let_def intro: le_less_trans [OF length_dropWhile_le])

lemma open_breaker_ok: "breaker_ok (open_breaker jitter now e)"
  by (simp add: breaker_ok_def open_breaker_def Let_def)

lemma failed_entry_ok: "breaker_ok e \<Longrightarrow> breaker_ok (failed_entry jitter now e)"
  using pruneFailures_ok [of e now] by (auto simp: failed_entry_def Let_def open_breaker_ok) (auto simp: breaker_ok_def)

lemma entries_ok_get: "entries_ok es \<Longrightarrow> gm_get es k = Some e \<Longrightarrow> breaker_ok e"
  by (force simp: entries_ok_def dest: map_of_SomeD)

lemma put_values: "snd ` set (gm_put k v m) \<subseteq> insert v (snd ` set m)"
  by (induction m) auto

lemma entries_ok_put:
  assumes "entries_ok es" "breaker_ok e" "k \<in> gm_keys es \<or> length es < routerBreakerMaxEntries"
  shows "entries_ok (gm_put k e es)"
proof -
  have "length (gm_put k e es) \<le> routerBreakerMaxEntries"
    using assms gm_put_old [of k es e] gm_put_new [of k es e] by (cases "k \<in> gm_keys es") (auto simp: entries_ok_def)
  moreover have "\<forall>x \<in> snd ` set (gm_put k e es). breaker_ok x" using assms(1,2) put_values [of k e es] by (fastforce simp: entries_ok_def)
  ultimately show ?thesis using assms(1) by (auto simp: entries_ok_def)
qed

lemma entries_ok_update: "entries_ok es \<Longrightarrow> gm_get es k = Some e \<Longrightarrow> breaker_ok e' \<Longrightarrow> entries_ok (gm_put k e' es)"
  using entries_ok_put [of es e' k] by (metis gm_get_None option.distinct(1))

lemma entries_ok_del: "entries_ok es \<Longrightarrow> entries_ok (gm_del k es)"
  by (auto simp: entries_ok_def AList.delete_eq gm_wf_filter intro: le_trans [OF length_filter_le])

lemma entries_ok_prune:
  assumes "entries_ok es"
  shows "entries_ok (filter P (map (\<lambda>(k, e). (k, pruneFailures now e)) es))"
proof -
  let ?m = "map (\<lambda>(k, e). (k, pruneFailures now e)) es"
  have "map fst ?m = map fst es" by (simp add: case_prod_unfold comp_def)
  then have "gm_wf ?m" using assms by (simp add: entries_ok_def gm_wf_def del: map_map)
  then have "gm_wf (filter P ?m)" by (rule gm_wf_filter)
  moreover have "length (filter P ?m) \<le> length es" using length_filter_le [of P ?m] by simp
  moreover have "\<forall>e \<in> snd ` set (filter P ?m). breaker_ok e" using assms by (force simp: entries_ok_def intro: pruneFailures_ok)
  ultimately show ?thesis using assms unfolding entries_ok_def by (meson le_trans)
qed

lemma entryForUpdate_ok:
  assumes "entries_ok es" "entryForUpdate k now es = (r, es')"
  shows "entries_ok es' \<and> (\<forall>e. r = Some e \<longrightarrow> breaker_ok e \<and> gm_get es' k = Some e)"
  using assms(1,2) entries_ok_get [OF assms(1)] entries_ok_prune [OF assms(1)]
  by (auto simp: entryForUpdate_def Let_def not_le breaker_ok_def routerBreakerFailureThreshold_def intro!: entries_ok_put split: option.splits if_splits)

lemma snapshot_item_ok: "entries_ok es \<Longrightarrow> snapshot_item now i m es = (x, es') \<Longrightarrow> entries_ok es'"
  by (auto simp: snapshot_item_def Let_def intro: entries_ok_update pruneFailures_ok transitionExpired_ok entries_ok_get split: option.splits)

lemma snapshot_loop_ok: "entries_ok es \<Longrightarrow> entries_ok (snd (snapshot_loop now seen ps es))"
  by (induction now seen ps es rule: snapshot_loop.induct) (auto simp: Let_def snapshot_item_ok split: prod.splits)

lemma breaker_step_ok:
  assumes "entries_ok es"
  shows "\<exists>es'. breaker_step ev (Some es) = Some es' \<and> entries_ok es'"
proof (cases ev)
  case (RecordFailure j now i m)
  obtain r es' where u: "entryForUpdate (breaker_key i m) now es = (r, es')" by fastforce
  with entryForUpdate_ok [OF assms u] RecordFailure show ?thesis
    by (auto simp: recordFailure_def intro: entries_ok_update failed_entry_ok split: option.splits)
next
  case (ReleaseProbe i m)
  with assms entries_ok_get [OF assms] show ?thesis
    by (auto simp: releaseProbe_def intro!: entries_ok_update split: option.splits) (auto simp: breaker_ok_def)
next
  case (Snapshot now ns)
  with snapshot_loop_ok [OF assms] show ?thesis by (auto simp: snapshot_def split: prod.splits) (metis snd_conv)
next
  case (Acquire now i m)
  note ok = transitionExpired_ok [OF entries_ok_get [OF assms]]
  from Acquire assms ok show ?thesis
    by (auto simp: acquire_def Let_def intro!: entries_ok_update split: option.splits) (auto simp: breaker_ok_def)
qed (use assms in \<open>auto simp: eligible_pair_def releaseProbe_def recordSuccess_def recordHealthyResponse_def Let_def
       intro: entries_ok_update transitionExpired_ok entries_ok_get entries_ok_del split: option.splits\<close>)

definition breakers_ok :: "breakers \<Rightarrow> bool" where
  "breakers_ok b \<longleftrightarrow> (\<exists>es. b = Some es \<and> entries_ok es)"

interpretation brk: step_system breaker_step breakers_ok
  by unfold_locales (auto simp: breakers_ok_def dest: breaker_step_ok)

lemma breaker_history_ok: "breakers_ok (fold breaker_step evs newRouterCircuitBreakers)"
  by (rule brk.inv_run) (simp add: breakers_ok_def newRouterCircuitBreakers_def entries_ok_def)

text \<open>C40: after any history of operations, at any clock readings and with any jitter, the table has one entry per key and at most
  4096 of them, every entry is in one of the three states, a probe is in flight only in a half-open entry, a closed entry has fewer recent
  failures than the threshold, and an entry that has opened counts it.\<close>

theorem breakers_well_typed:
  "\<exists>es. fold breaker_step evs newRouterCircuitBreakers = Some es \<and> gm_wf es \<and> length es \<le> 4096 \<and>
     (\<forall>e \<in> snd ` set es. rb_state e \<in> {''closed'', ''open'', ''half_open''} \<and> (rb_probeInFlight e \<longrightarrow> rb_state e = ''half_open'') \<and>
        (rb_state e = ''closed'' \<longrightarrow> length (rb_recentFailures e) < 3) \<and> (rb_state e \<noteq> ''closed'' \<longrightarrow> 1 \<le> rb_openCount e))"
  using breaker_history_ok [of evs]
  by (fastforce simp: breakers_ok_def entries_ok_def breaker_ok_def routerBreakerMaxEntries_def routerBreakerFailureThreshold_def)

text \<open>A sample history: three failures of a pair open its breaker for a second.\<close>

definition sample_trip :: "breaker_event list" where
  "sample_trip = [RecordFailure None 0 ''n'' ''m'', RecordFailure None 1 ''n'' ''m'', RecordFailure None 2 ''n'' ''m'']"

definition sample_half_open :: router_breaker where
  "sample_half_open = \<lparr>rb_state = ''half_open'', rb_recentFailures = [0, 1, 2], rb_openCount = 2, rb_openUntil = 1000000002,
     rb_probeInFlight = True, rb_lastFailure = 2\<rparr>"

theorem breakers_well_typed_witness:
  "\<exists>es. fold breaker_step (sample_trip @ [Acquire 2000000000 ''n'' ''m'']) newRouterCircuitBreakers = Some es \<and> gm_wf es \<and>
     snd ` set es = {sample_half_open} \<and> rb_probeInFlight sample_half_open \<and> rb_state sample_half_open = ''half_open'' \<and> 1 \<le> rb_openCount sample_half_open"
proof -
  have run: "fold breaker_step (sample_trip @ [Acquire 2000000000 ''n'' ''m'']) newRouterCircuitBreakers = Some [(breaker_key ''n'' ''m'', sample_half_open)]"
    by code_simp
  from breakers_well_typed [of "sample_trip @ [Acquire 2000000000 ''n'' ''m'']"] run show ?thesis
    by (auto simp: sample_half_open_def)
qed

subsection \<open>One probe at a time\<close>

lemma entryForUpdate_other:
  assumes "gm_wf es" "entryForUpdate k' now es = (r, es')" "k \<noteq> k'" "gm_get es k = Some e"
    "rb_state e \<noteq> ''closed'' \<or> rb_recentFailures (pruneFailures now e) \<noteq> []"
  shows "gm_get es' k = Some e \<or> gm_get es' k = Some (pruneFailures now e)"
proof -
  let ?m = "map (\<lambda>(k, e). (k, pruneFailures now e)) es"
  have "map fst ?m = map fst es" by (simp add: case_prod_unfold comp_def)
  then have wf: "gm_wf ?m" using assms(1) by (simp add: gm_wf_def del: map_map)
  have "gm_get ?m k = Some (pruneFailures now e)" using assms(4) by (simp add: map_of_map)
  moreover have "rb_state (pruneFailures now e) = rb_state e" by (simp add: pruneFailures_def Let_def)
  ultimately have "gm_get (filter (\<lambda>(_, e). \<not> (rb_state e = ''closed'' \<and> rb_recentFailures e = [])) ?m) k = Some (pruneFailures now e)"
    using assms(5) by (auto simp: gm_get_filter [OF wf])
  then show ?thesis using assms(2-4) by (auto simp: entryForUpdate_def Let_def split: option.splits if_splits)
qed

lemma recordFailure_other:
  assumes "gm_wf es" "breaker_key i m \<noteq> k" "gm_get es k = Some e" "rb_state e \<noteq> ''closed'' \<or> rb_recentFailures (pruneFailures now e) \<noteq> []"
  shows "\<exists>es' e'. recordFailure j now i m (Some es) = Some es' \<and> gm_get es' k = Some e' \<and> (e' = e \<or> e' = pruneFailures now e)"
proof -
  obtain r es' where u: "entryForUpdate (breaker_key i m) now es = (r, es')" by fastforce
  from entryForUpdate_other [OF assms(1) u _ assms(3,4)] assms(2) u show ?thesis by (auto simp: recordFailure_def split: option.splits)
qed

definition probing :: "string \<Rightarrow> (string, router_breaker) gomap \<Rightarrow> bool" where
  "probing k es \<longleftrightarrow> (\<exists>e. gm_get es k = Some e \<and> rb_state e = ''half_open'' \<and> rb_probeInFlight e)"

lemma probing_prune [simp]: "rb_state (pruneFailures now e) = rb_state e" "rb_probeInFlight (pruneFailures now e) = rb_probeInFlight e"
    "rb_openUntil (pruneFailures now e) = rb_openUntil e"
  by (simp_all add: pruneFailures_def Let_def)

lemma probing_expired [simp]: "rb_state e = ''half_open'' \<Longrightarrow> transitionExpired now e = e"
  by (simp add: transitionExpired_def)

lemma snapshot_loop_probing: "probing k es \<Longrightarrow> probing k (snd (snapshot_loop now seen ps es))"
proof (induction now seen ps es rule: snapshot_loop.induct)
  case (2 now seen i m ps es)
  obtain x es1 where x: "snapshot_item now i (trim_space m) es = (x, es1)" by fastforce
  then have "probing k es1" using "2.prems" by (auto simp: probing_def snapshot_item_def Let_def split: option.splits)
  then show ?case using 2 x by (auto simp: Let_def split: prod.splits)
qed simp

text \<open>The events that end the probe of a key: the request that holds it reports its outcome or gives it back.\<close>

fun ends_probe :: "string \<Rightarrow> breaker_event \<Rightarrow> bool" where
  "ends_probe k (ReleaseProbe i m) \<longleftrightarrow> breaker_key i m = k"
| "ends_probe k (RecordFailure _ _ i m) \<longleftrightarrow> breaker_key i m = k"
| "ends_probe k (RecordSuccess i m) \<longleftrightarrow> breaker_key i m = k"
| "ends_probe k (RecordHealthyResponse i m) \<longleftrightarrow> breaker_key i m = k"
| "ends_probe k _ \<longleftrightarrow> False"

lemma probing_step:
  assumes "entries_ok es" "probing k es" "\<not> ends_probe k ev" "breaker_step ev (Some es) = Some es'"
  shows "probing k es'"
proof (cases ev)
  case (RecordFailure j now i m)
  from assms(2) obtain e where e: "gm_get es k = Some e" "rb_state e = ''half_open''" "rb_probeInFlight e" by (auto simp: probing_def)
  have wf: "gm_wf es" using assms(1) by (simp add: entries_ok_def)
  from recordFailure_other [OF wf _ e(1), of i m now j] e(2,3) assms(3,4) RecordFailure show ?thesis by (fastforce simp: probing_def)
next
  case (Snapshot now ns)
  with snapshot_loop_probing [OF assms(2)] assms(4) show ?thesis by (auto simp: snapshot_def split: prod.splits) (metis snd_conv)
qed (use assms in \<open>auto simp: probing_def eligible_pair_def acquire_def releaseProbe_def recordSuccess_def recordHealthyResponse_def Let_def
       split: option.splits if_splits\<close>)

lemma probing_run:
  assumes "entries_ok es" "probing k es" "\<forall>ev \<in> set evs. \<not> ends_probe k ev"
  shows "\<exists>es'. fold breaker_step evs (Some es) = Some es' \<and> probing k es'"
proof (rule brk.kept_run [where P = "\<lambda>b. \<exists>es. b = Some es \<and> probing k es", OF _ _ _ assms(3)])
  show "\<exists>es'. breaker_step ev b = Some es' \<and> probing k es'" if "breakers_ok b" "\<exists>es. b = Some es \<and> probing k es" "\<not> ends_probe k ev" for b ev
    using that probing_step breaker_step_ok [of _ ev] by (fastforce simp: breakers_ok_def)
qed (use assms in \<open>auto simp: breakers_ok_def\<close>)

text \<open>C38: once a half-open breaker has admitted a probe, every further request for the pair is refused, by the admission and by the
  eligibility check alike, until the outcome of the probe is reported or the probe is released, whatever happens to other pairs meanwhile
  and however late it gets.\<close>

theorem single_probe:
  assumes "acquire now i m (fold breaker_step before newRouterCircuitBreakers) = (True, Some es)"
    "gm_get es (breaker_key i m) = Some e" "rb_state e = ''half_open''" "\<forall>ev \<in> set evs. \<not> ends_probe (breaker_key i m) ev"
  shows "\<not> fst (acquire later i m (fold breaker_step evs (Some es))) \<and> \<not> fst (eligible_pair later i m (fold breaker_step evs (Some es)))"
proof -
  obtain es0 where es0: "fold breaker_step before newRouterCircuitBreakers = Some es0" "entries_ok es0"
    using breaker_history_ok [of before] by (auto simp: breakers_ok_def)
  have "entries_ok es" using breaker_step_ok [OF es0(2), of "Acquire now i m"] assms(1) es0(1) by auto
  moreover have "probing (breaker_key i m) es"
    using assms(1-3) unfolding es0(1) by (auto simp: acquire_def Let_def probing_def split: option.splits if_splits)
  ultimately obtain es' where "fold breaker_step evs (Some es) = Some es'" "probing (breaker_key i m) es'"
    using probing_run assms(4) by blast
  then show ?thesis by (auto simp: probing_def acquire_def eligible_pair_def Let_def)
qed

theorem single_probe_witness:
  "\<not> fst (acquire 3000000000 ''n'' ''m'' (breaker_step (RecordSuccess ''x'' ''m'') (Some [(breaker_key ''n'' ''m'', sample_half_open)])))"
proof -
  have "acquire 2000000000 ''n'' ''m'' (fold breaker_step sample_trip newRouterCircuitBreakers) =
      (True, Some [(breaker_key ''n'' ''m'', sample_half_open)])" by code_simp
  moreover have "breaker_key ''x'' ''m'' \<noteq> breaker_key ''n'' ''m''" by code_simp
  ultimately show ?thesis
    using single_probe [of 2000000000 "''n''" "''m''" sample_trip "[(breaker_key ''n'' ''m'', sample_half_open)]" sample_half_open "[RecordSuccess ''x'' ''m'']"]
    by (simp add: sample_half_open_def)
qed

subsection \<open>Tripping and recovery\<close>

lemma backoff_loop_exact:
  "0 < d \<Longrightarrow> d \<le> routerBreakerMaxBackoff \<Longrightarrow> backoff_loop n d = min (2 ^ n * d) routerBreakerMaxBackoff"
proof (induction n arbitrary: d)
  case (Suc n)
  let ?M = routerBreakerMaxBackoff
  have one: "1 \<le> (2 :: int) ^ n" by simp
  show ?case
  proof (cases "d * 2 \<le> ?M")
    case True
    with Suc show ?thesis by (simp add: algebra_simps)
  next
    case False
    have m: "1 * (d * 2) \<le> 2 ^ n * (d * 2)" "1 * ?M \<le> 2 ^ n * ?M"
      by (rule mult_right_mono [OF one], use Suc.prems in simp)+
    have "backoff_loop n ?M = min (2 ^ n * ?M) ?M" using Suc.prems by (intro Suc.IH) simp_all
    then have "backoff_loop (Suc n) d = ?M" using m(2) False Suc.prems by simp
    moreover have "?M \<le> 2 ^ Suc n * d" using m(1) False by (simp add: mult.commute mult.left_commute)
    ultimately show ?thesis by simp
  qed
qed simp

text \<open>A failed probe opens the breaker again, for a delay that doubles with every opening up to a minute.\<close>

lemma failed_probe_delay:
  assumes "rb_state e = ''half_open''" "1 \<le> rb_openCount e"
  shows "rb_openUntil (failed_entry None now e) = now + min (2 ^ nat (rb_openCount e - 1) * routerBreakerBaseBackoff) routerBreakerMaxBackoff"
    "rb_openCount (failed_entry None now e) = rb_openCount e + 1"
proof -
  have "backoff_loop n routerBreakerBaseBackoff = min (2 ^ n * routerBreakerBaseBackoff) routerBreakerMaxBackoff" for n
    by (rule backoff_loop_exact) (simp_all add: routerBreakerBaseBackoff_def routerBreakerMaxBackoff_def)
  then show "rb_openUntil (failed_entry None now e) = now + min (2 ^ nat (rb_openCount e - 1) * routerBreakerBaseBackoff) routerBreakerMaxBackoff"
    "rb_openCount (failed_entry None now e) = rb_openCount e + 1"
    using assms by (simp_all add: failed_entry_def open_breaker_def pruneFailures_def Let_def)
qed

text \<open>Events about other pairs; a failure among them must not be read from a clock that is ahead of the given instant, since making room
  drops failures that are older than the window by then.\<close>

fun elsewhere :: "string \<Rightarrow> int \<Rightarrow> breaker_event \<Rightarrow> bool" where
  "elsewhere k t (Eligible _ i m) \<longleftrightarrow> breaker_key i m \<noteq> k"
| "elsewhere k t (Acquire _ i m) \<longleftrightarrow> breaker_key i m \<noteq> k"
| "elsewhere k t (ReleaseProbe i m) \<longleftrightarrow> breaker_key i m \<noteq> k"
| "elsewhere k t (RecordFailure _ now i m) \<longleftrightarrow> breaker_key i m \<noteq> k \<and> now \<le> t"
| "elsewhere k t (RecordSuccess i m) \<longleftrightarrow> breaker_key i m \<noteq> k"
| "elsewhere k t (RecordHealthyResponse i m) \<longleftrightarrow> breaker_key i m \<noteq> k"
| "elsewhere k t (Snapshot _ _) \<longleftrightarrow> False"

text \<open>The part of an entry that decides about admission, kept while nothing older than the window is dropped.\<close>

definition entry_is :: "string \<Rightarrow> (router_breaker \<Rightarrow> bool) \<Rightarrow> (string, router_breaker) gomap \<Rightarrow> bool" where
  "entry_is k P es \<longleftrightarrow> (\<exists>e. gm_get es k = Some e \<and> P e)"

lemma elsewhere_step:
  assumes "entries_ok es" "entry_is k P es" "elsewhere k t ev" "breaker_step ev (Some es) = Some es'"
    and P: "\<And>e now. P e \<Longrightarrow> now \<le> t \<Longrightarrow> P (pruneFailures now e) \<and> (rb_state e \<noteq> ''closed'' \<or> rb_recentFailures (pruneFailures now e) \<noteq> [])"
  shows "entry_is k P es'"
proof (cases ev)
  case (RecordFailure j now i m)
  from assms(2) obtain e where e: "gm_get es k = Some e" "P e" by (auto simp: entry_is_def)
  have wf: "gm_wf es" using assms(1) by (simp add: entries_ok_def)
  from RecordFailure assms(3) have n: "breaker_key i m \<noteq> k" "now \<le> t" by simp_all
  from recordFailure_other [OF wf n(1) e(1), of now j] P [OF e(2) n(2)] e(2) assms(4) RecordFailure show ?thesis by (auto simp: entry_is_def)
qed (use assms(2-4) in \<open>auto simp: entry_is_def eligible_pair_def acquire_def releaseProbe_def recordSuccess_def recordHealthyResponse_def Let_def
       split: option.splits if_splits\<close>)

lemma elsewhere_run:
  assumes P: "\<And>e now. P e \<Longrightarrow> now \<le> t \<Longrightarrow> P (pruneFailures now e) \<and> (rb_state e \<noteq> ''closed'' \<or> rb_recentFailures (pruneFailures now e) \<noteq> [])"
    and "entries_ok es" "entry_is k P es" "\<forall>ev \<in> set evs. elsewhere k t ev"
  shows "\<exists>es'. fold breaker_step evs (Some es) = Some es' \<and> entries_ok es' \<and> entry_is k P es'"
proof (rule brk.kept_run [where P = "\<lambda>b. \<exists>es. b = Some es \<and> entries_ok es \<and> entry_is k P es", OF _ _ _ assms(4)])
  show "\<exists>es'. breaker_step ev b = Some es' \<and> entries_ok es' \<and> entry_is k P es'"
    if "breakers_ok b" "\<exists>es. b = Some es \<and> entries_ok es \<and> entry_is k P es" "elsewhere k t ev" for b ev
  proof -
    from that(2) obtain es where es: "b = Some es" "entries_ok es" "entry_is k P es" by blast
    from breaker_step_ok [OF es(2), of ev] obtain es' where "breaker_step ev (Some es) = Some es'" "entries_ok es'" by blast
    moreover from this elsewhere_step [OF es(2,3) that(3) _ P] have "entry_is k P es'" by blast
    ultimately show ?thesis using es(1) by blast
  qed
qed (use assms in \<open>auto simp: breakers_ok_def\<close>)

lemma recordFailure_known:
  assumes "entries_ok es" "gm_get es (breaker_key i m) = Some e"
  shows "\<exists>es'. recordFailure j now i m (Some es) = Some es' \<and> entries_ok es' \<and> gm_get es' (breaker_key i m) = Some (failed_entry j now e)"
  using assms by (auto simp: recordFailure_def entryForUpdate_def intro!: entries_ok_update failed_entry_ok intro: entries_ok_get)

definition counting :: "int list \<Rightarrow> router_breaker \<Rightarrow> bool" where
  "counting fs e \<longleftrightarrow> rb_state e = ''closed'' \<and> rb_recentFailures e = fs"

lemma counting_prune:
  assumes "counting fs e" "fs \<noteq> []" "now - hd fs \<le> routerBreakerFailureWindow"
  shows "counting fs (pruneFailures now e) \<and> rb_recentFailures (pruneFailures now e) \<noteq> []"
  using assms by (cases fs) (auto simp: counting_def pruneFailures_def Let_def)

lemma counting_failed:
  assumes "counting fs e" "fs = [] \<or> now - hd fs \<le> routerBreakerFailureWindow" "length fs < 2"
  shows "counting (fs @ [now]) (failed_entry j now e)"
  using assms by (cases fs) (auto simp: counting_def failed_entry_def pruneFailures_def Let_def routerBreakerFailureThreshold_def)

definition opened :: "int \<Rightarrow> router_breaker \<Rightarrow> bool" where
  "opened u e \<longleftrightarrow> rb_state e = ''open'' \<and> rb_openUntil e = u"

lemma counting_trips:
  assumes "counting [t1, t2] e" "t3 - t1 \<le> routerBreakerFailureWindow"
  shows "opened (t3 + min (case j of None \<Rightarrow> routerBreakerBaseBackoff | Some f \<Rightarrow> f routerBreakerBaseBackoff) routerBreakerMaxBackoff) (failed_entry j t3 e)"
  using assms by (auto simp: counting_def opened_def failed_entry_def pruneFailures_def open_breaker_def Let_def routerBreakerFailureThreshold_def split: option.splits)

lemma counting_step:
  assumes "entries_ok es" "entry_is (breaker_key i m) (counting fs) es" "fs = [] \<or> t - hd fs \<le> routerBreakerFailureWindow" "length fs < 2"
    "\<forall>ev \<in> set evs. elsewhere (breaker_key i m) t' ev" "t' - hd (fs @ [t]) \<le> routerBreakerFailureWindow"
  shows "\<exists>es'. fold breaker_step (RecordFailure j t i m # evs) (Some es) = Some es' \<and> entries_ok es' \<and> entry_is (breaker_key i m) (counting (fs @ [t])) es'"
proof -
  from assms(2) obtain e where e: "gm_get es (breaker_key i m) = Some e" "counting fs e" by (auto simp: entry_is_def)
  from recordFailure_known [OF assms(1) e(1), of j t] obtain es1 where es1: "recordFailure j t i m (Some es) = Some es1" "entries_ok es1"
    "gm_get es1 (breaker_key i m) = Some (failed_entry j t e)" by blast
  with counting_failed [OF e(2) assms(3,4), of j] have "entry_is (breaker_key i m) (counting (fs @ [t])) es1" by (auto simp: entry_is_def)
  moreover have "counting (fs @ [t]) (pruneFailures now x) \<and> (rb_state x \<noteq> ''closed'' \<or> rb_recentFailures (pruneFailures now x) \<noteq> [])"
    if "counting (fs @ [t]) x" "now \<le> t'" for x now
    using counting_prune [OF that(1)] that(2) assms(6) by auto
  ultimately show ?thesis using elsewhere_run [of "counting (fs @ [t])" t', OF _ es1(2) _ assms(5)] es1(1) by simp
qed

lemma first_failure:
  assumes "entries_ok es" "gm_get es (breaker_key i m) = None" "length es < 4096"
    "\<forall>ev \<in> set evs. elsewhere (breaker_key i m) t' ev" "t' - t \<le> routerBreakerFailureWindow"
  shows "\<exists>es'. fold breaker_step (RecordFailure j t i m # evs) (Some es) = Some es' \<and> entries_ok es' \<and> entry_is (breaker_key i m) (counting [t]) es'"
proof -
  let ?k = "breaker_key i m"
  obtain r es1 where u: "entryForUpdate ?k t es = (r, es1)" by fastforce
  have "length (filter P (map f es)) < routerBreakerMaxEntries" for P :: "string \<times> router_breaker \<Rightarrow> bool" and f
    using length_filter_le [of P "map f es"] assms(3) by (simp add: routerBreakerMaxEntries_def del: length_filter_le)
  then obtain e where e: "r = Some e" "counting [] e" using u assms(2) by (auto simp: entryForUpdate_def Let_def counting_def not_le [symmetric] split: if_splits)
  from entryForUpdate_ok [OF assms(1) u] e(1) have es1: "entries_ok es1" "gm_get es1 ?k = Some e" by auto
  then have "recordFailure j t i m (Some es) = recordFailure j t i m (Some es1)" using u e(1) by (simp add: recordFailure_def entryForUpdate_def)
  moreover have "entry_is ?k (counting []) es1" using es1(2) e(2) by (auto simp: entry_is_def)
  ultimately show ?thesis using counting_step [OF es1(1) _ _ _ assms(4), of "[]" t j] assms(5) by simp
qed



text \<open>A request that was admitted while the breaker was closed gives its probe back as well when it ends without an outcome, although it never
  held one. If the breaker has tripped and half-opened meanwhile, this releases the probe of another request, and a second probe is admitted
  while the first is still in flight.\<close>

theorem stale_release_admits_second_probe:
  "let stale = acquire 0 ''n'' ''m'' newRouterCircuitBreakers;
       first = acquire 2000000000 ''n'' ''m'' (fold breaker_step sample_trip (snd stale));
       second = acquire 2000000001 ''n'' ''m'' (releaseProbe ''n'' ''m'' (snd first))
   in fst stale \<and> fst first \<and> fst second"
  by code_simp

end
