(* ===== verification/Router_Limits.thy ===== *)
theory Router_Limits
  imports Go_Text Step_System
begin

text \<open>
  The limits per client of the model router (\<^verbatim>\<open>internal/orchestrator/router_client_limits.go\<close>): a number of
  requests per fixed window of a minute and a number of concurrent requests, for at most ten
  thousand clients. Instants and durations are integers in nanoseconds and the clock reading is an
  argument. The release function that an admission returns is a handle: releasing it twice has no
  second effect. A nil limiter is \<open>None\<close>. The hash of a credential is a parameter.
\<close>

subsection \<open>Clients\<close>

definition routerClientWindow :: int where
  "routerClientWindow = 60000000000"

definition routerClientIdleTTL :: int where
  "routerClientIdleTTL = 120000000000"

definition routerClientMaxKeys :: nat where
  "routerClientMaxKeys = 10000"

record client_limit =
  cl_windowStart :: int
  cl_requests :: int
  cl_active :: int
  cl_lastSeen :: int

record client_limiter =
  li_clients :: "(string, client_limit) gomap"
  li_requestsPerMinute :: int
  li_maxConcurrent :: int

definition newRouterClientLimiter :: "int \<Rightarrow> int \<Rightarrow> client_limiter" where
  "newRouterClientLimiter requestsPerMinute maxConcurrent =
     \<lparr>li_clients = [], li_requestsPerMinute = requestsPerMinute, li_maxConcurrent = maxConcurrent\<rparr>"

record client_request =
  rq_APIKey :: string
  rq_Authorization :: string
  rq_RemoteAddr :: string

text \<open>The host of \<^verbatim>\<open>net.SplitHostPort\<close>, or \<open>None\<close> for an address without port or with misplaced brackets or colons.\<close>

definition split_host :: "string \<Rightarrow> string option" where
  "split_host addr =
     (if CHR '':'' \<notin> set addr then None
      else
        (let port = length (takeWhile (\<lambda>c. c \<noteq> CHR '':'') (rev addr)); i = length addr - port - 1
         in if hd addr = CHR ''[''
            then (if CHR '']'' \<notin> set addr then None
                  else let e = length (takeWhile (\<lambda>c. c \<noteq> CHR '']'') addr)
                       in if e + 1 \<noteq> i then None
                          else if CHR ''['' \<in> set (drop 1 addr) \<or> CHR '']'' \<in> set (drop (e + 1) addr) then None
                          else Some (take (e - 1) (drop 1 addr)))
            else (if CHR '':'' \<in> set (take i addr) then None
                  else if CHR ''['' \<in> set addr \<or> CHR '']'' \<in> set addr then None
                  else Some (take i addr))))"

definition routerClientKey :: "(string \<Rightarrow> string) \<Rightarrow> client_request option \<Rightarrow> string" where
  "routerClientKey digest request =
     (case request of
        None \<Rightarrow> ''addr:unknown''
      | Some r \<Rightarrow>
          (let key = trim_space (rq_APIKey r);
               credential = (if key = [] then trim_space (rq_Authorization r) else key)
           in if credential \<noteq> [] then ''key:'' @ digest credential
              else (let host = (case split_host (rq_RemoteAddr r) of None \<Rightarrow> trim_space (rq_RemoteAddr r) | Some h \<Rightarrow> h)
                    in if host \<noteq> [] then ''addr:'' @ host else ''addr:unknown'')))"

subsection \<open>Admission\<close>

definition prune_clients :: "int \<Rightarrow> (string, client_limit) gomap \<Rightarrow> (string, client_limit) gomap" where
  "prune_clients now clients = filter (\<lambda>(_, c). \<not> (cl_active c = 0 \<and> routerClientIdleTTL \<le> now - cl_lastSeen c)) clients"

text \<open>The scan for the idle client seen least recently; the first of several.\<close>

fun oldest_idle :: "(string \<times> int) option \<Rightarrow> (string, client_limit) gomap \<Rightarrow> (string \<times> int) option" where
  "oldest_idle best [] = best"
| "oldest_idle best ((key, c) # rest) =
     (if cl_active c \<noteq> 0 then oldest_idle best rest
      else case best of
             None \<Rightarrow> oldest_idle (Some (key, cl_lastSeen c)) rest
           | Some (_, oldest) \<Rightarrow> if cl_lastSeen c < oldest then oldest_idle (Some (key, cl_lastSeen c)) rest else oldest_idle best rest)"

definition evictOldestIdle :: "(string, client_limit) gomap \<Rightarrow> (string, client_limit) gomap option" where
  "evictOldestIdle clients = map_option (\<lambda>(key, _). gm_del key clients) (oldest_idle None clients)"

datatype limit_result = Unlimited | Admitted | CapacityLimit int | ConcurrencyLimit int | RateLimit int

definition fresh_window :: "int \<Rightarrow> client_limit \<Rightarrow> client_limit" where
  "fresh_window now client =
     (let c = (if now < cl_windowStart client \<or> routerClientWindow \<le> now - cl_windowStart client
               then client\<lparr>cl_windowStart := now, cl_requests := 0\<rparr> else client)
      in c\<lparr>cl_lastSeen := now\<rparr>)"

definition admit_client :: "int \<Rightarrow> string \<Rightarrow> client_limit \<Rightarrow> client_limiter \<Rightarrow> limit_result \<times> client_limiter" where
  "admit_client now key client l =
     (let c = fresh_window now client;
          keep = (\<lambda>x. l\<lparr>li_clients := gm_put key x (li_clients l)\<rparr>)
      in if 0 < li_maxConcurrent l \<and> li_maxConcurrent l \<le> cl_active c then (ConcurrencyLimit 1, keep c)
         else if 0 < li_requestsPerMinute l \<and> li_requestsPerMinute l \<le> cl_requests c
         then (RateLimit (max 1 ((cl_windowStart c + routerClientWindow - now + 1000000000 - 1) div 1000000000)), keep c)
         else (Admitted, keep (c\<lparr>cl_requests := cl_requests c + 1, cl_active := cl_active c + 1\<rparr>)))"

definition acquire_client :: "int \<Rightarrow> string \<Rightarrow> client_limiter option \<Rightarrow> limit_result \<times> client_limiter option" where
  "acquire_client now key limiter =
     (case limiter of
        None \<Rightarrow> (Unlimited, None)
      | Some l0 \<Rightarrow>
          if li_requestsPerMinute l0 = 0 \<and> li_maxConcurrent l0 = 0 then (Unlimited, Some l0)
          else
            (let l = l0\<lparr>li_clients := prune_clients now (li_clients l0)\<rparr>;
                 new = \<lparr>cl_windowStart = now, cl_requests = 0, cl_active = 0, cl_lastSeen = 0\<rparr>
             in case gm_get (li_clients l) key of
                  Some client \<Rightarrow> (case admit_client now key client l of (r, l1) \<Rightarrow> (r, Some l1))
                | None \<Rightarrow>
                    if length (li_clients l) < routerClientMaxKeys
                    then (case admit_client now key new (l\<lparr>li_clients := gm_put key new (li_clients l)\<rparr>) of (r, l1) \<Rightarrow> (r, Some l1))
                    else (case evictOldestIdle (li_clients l) of
                            None \<Rightarrow> (CapacityLimit 1, Some l)
                          | Some kept \<Rightarrow>
                              (case admit_client now key new (l\<lparr>li_clients := gm_put key new kept\<rparr>) of (r, l1) \<Rightarrow> (r, Some l1)))))"

definition release_client :: "int \<Rightarrow> string \<Rightarrow> client_limiter \<Rightarrow> client_limiter" where
  "release_client now key l =
     (case gm_get (li_clients l) key of
        None \<Rightarrow> l
      | Some c \<Rightarrow>
          if 0 < cl_active c
          then l\<lparr>li_clients := gm_put key (c\<lparr>cl_active := cl_active c - 1, cl_lastSeen := now\<rparr>) (li_clients l)\<rparr>
          else l)"

subsection \<open>Histories\<close>

text \<open>The handles are those of the admissions so far, with the client, the instant and whether the handle has been released.\<close>

record handle =
  ha_key :: string
  ha_at :: int
  ha_released :: bool

record limiter_run =
  lr_limiter :: client_limiter
  lr_handles :: "handle list"
  lr_now :: int

datatype limiter_event = AcquireClient nat string | ReleaseHandle nat nat

text \<open>The clock does not run backwards: an event happens some time after the one before it.\<close>

fun limiter_step :: "limiter_event \<Rightarrow> limiter_run \<Rightarrow> limiter_run" where
  "limiter_step (AcquireClient dt key) s =
     (let now = lr_now s + int dt
      in case acquire_client now key (Some (lr_limiter s)) of
           (Admitted, Some l) \<Rightarrow>
             s\<lparr>lr_limiter := l, lr_handles := lr_handles s @ [\<lparr>ha_key = key, ha_at = now, ha_released = False\<rparr>], lr_now := now\<rparr>
         | (_, Some l) \<Rightarrow> s\<lparr>lr_limiter := l, lr_now := now\<rparr>
         | (_, None) \<Rightarrow> s\<lparr>lr_now := now\<rparr>)"
| "limiter_step (ReleaseHandle dt n) s =
     (let now = lr_now s + int dt
      in if n < length (lr_handles s) \<and> \<not> ha_released (lr_handles s ! n)
         then s\<lparr>lr_limiter := release_client now (ha_key (lr_handles s ! n)) (lr_limiter s),
                lr_handles := (lr_handles s)[n := (lr_handles s ! n)\<lparr>ha_released := True\<rparr>], lr_now := now\<rparr>
         else s\<lparr>lr_now := now\<rparr>)"

subsection \<open>The count of one client\<close>

definition slot_ok :: "int \<Rightarrow> nat \<Rightarrow> client_limit option \<Rightarrow> bool" where
  "slot_ok maxConcurrent n x \<longleftrightarrow> (case x of None \<Rightarrow> n = 0 | Some c \<Rightarrow> cl_active c = int n) \<and> (0 < maxConcurrent \<longrightarrow> int n \<le> maxConcurrent)"

abbreviation between :: "int \<Rightarrow> int \<Rightarrow> int list \<Rightarrow> nat" where
  "between a b ts \<equiv> length (filter (\<lambda>t. a \<le> t \<and> t < b) ts)"

definition minute_ok :: "int \<Rightarrow> int list \<Rightarrow> bool" where
  "minute_ok rate ts \<longleftrightarrow> (0 < rate \<longrightarrow> (\<forall>a. int (between a (a + routerClientWindow) ts) \<le> 2 * rate))"

definition window_ok :: "int \<Rightarrow> int \<Rightarrow> int list \<Rightarrow> client_limit \<Rightarrow> bool" where
  "window_ok rate now ts c \<longleftrightarrow>
     cl_windowStart c \<le> cl_lastSeen c \<and> cl_lastSeen c \<le> now \<and> (\<forall>t \<in> set ts. t \<le> cl_lastSeen c \<and> t < cl_windowStart c + routerClientWindow) \<and>
     cl_requests c = int (length (filter (\<lambda>t. cl_windowStart c \<le> t) ts)) \<and>
     (0 < rate \<longrightarrow> cl_requests c \<le> rate \<and> int (between (cl_windowStart c - routerClientWindow + 1) (cl_windowStart c) ts) \<le> rate)"

definition rate_ok :: "int \<Rightarrow> int \<Rightarrow> int list \<Rightarrow> client_limit option \<Rightarrow> bool" where
  "rate_ok rate now ts x \<longleftrightarrow>
     minute_ok rate ts \<and> (case x of None \<Rightarrow> (\<forall>t \<in> set ts. t + routerClientWindow \<le> now) | Some c \<Rightarrow> window_ok rate now ts c)"

lemma rate_ok_later: "rate_ok rate now ts x \<Longrightarrow> now \<le> now' \<Longrightarrow> rate_ok rate now' ts x"
  by (auto simp: rate_ok_def window_ok_def split: option.splits)

lemma rate_ok_pruned: "rate_ok rate now ts (Some c) \<Longrightarrow> routerClientIdleTTL \<le> now - cl_lastSeen c \<Longrightarrow> rate_ok rate now ts None"
  by (auto simp: rate_ok_def window_ok_def routerClientIdleTTL_def routerClientWindow_def)

lemma count_mono: "(\<And>t. t \<in> set ts \<Longrightarrow> P t \<Longrightarrow> Q t) \<Longrightarrow> length (filter P ts) \<le> length (filter Q ts)"
  by (induction ts) auto

lemma count_none: "(\<And>t. t \<in> set ts \<Longrightarrow> \<not> P t) \<Longrightarrow> filter P ts = []"
  by (simp add: filter_empty_conv)

lemma window_ok_new:
  assumes "rate_ok rate now ts None"
  shows "window_ok rate now ts (fresh_window now \<lparr>cl_windowStart = now, cl_requests = 0, cl_active = 0, cl_lastSeen = 0\<rparr>)"
proof -
  have t: "t + routerClientWindow \<le> now" if "t \<in> set ts" for t using assms that by (simp add: rate_ok_def)
  then have "filter (\<lambda>t. now \<le> t) ts = []" "filter (\<lambda>t. now - routerClientWindow + 1 \<le> t \<and> t < now) ts = []"
    by (force intro!: count_none simp: routerClientWindow_def)+
  with t show ?thesis by (fastforce simp: window_ok_def fresh_window_def routerClientWindow_def)
qed

lemma window_ok_fresh:
  assumes "window_ok rate now ts c"
  shows "window_ok rate now ts (fresh_window now c)"
proof (cases "routerClientWindow \<le> now - cl_windowStart c")
  case True
  have t: "t < now" if "t \<in> set ts" for t using assms that True by (force simp: window_ok_def)
  then have "filter (\<lambda>t. now \<le> t) ts = []" by (force intro!: count_none)
  moreover have "between (now - routerClientWindow + 1) now ts \<le> length (filter (\<lambda>t. cl_windowStart c \<le> t) ts)"
    by (rule count_mono) (use True in simp)
  ultimately show ?thesis using assms True t by (fastforce simp: window_ok_def fresh_window_def routerClientWindow_def)
next
  case False
  then show ?thesis using assms by (auto simp: window_ok_def fresh_window_def)
qed

lemma fresh_window_props: "cl_lastSeen (fresh_window now c) = now" "cl_active (fresh_window now c) = cl_active c"
    "now < cl_windowStart (fresh_window now c) + routerClientWindow"
  by (auto simp: fresh_window_def routerClientWindow_def)

lemma minute_ok_snoc:
  assumes "minute_ok rate ts" "window_ok rate now ts c" "0 < rate \<longrightarrow> cl_requests c < rate"
  shows "minute_ok rate (ts @ [now])"
  unfolding minute_ok_def
proof (intro impI allI)
  fix a assume r: "0 < rate"
  let ?b = "a + routerClientWindow" and ?s = "cl_windowStart c"
  show "int (between a ?b (ts @ [now])) \<le> 2 * rate"
  proof (cases "a \<le> now \<and> now < ?b")
    case True
    have s: "?s \<le> now" using assms(2) by (simp add: window_ok_def)
    have "between a ?b ts \<le> length (filter (\<lambda>t. (?s - routerClientWindow + 1 \<le> t \<and> t < ?s) \<or> ?s \<le> t) ts)"
      by (rule count_mono) (use True s in auto)
    also have "\<dots> \<le> between (?s - routerClientWindow + 1) ?s ts + length (filter (\<lambda>t. ?s \<le> t) ts)" by (induction ts) auto
    finally have "between a ?b ts \<le> between (?s - routerClientWindow + 1) ?s ts + length (filter (\<lambda>t. ?s \<le> t) ts)" .
    then show ?thesis using assms(2,3) r True by (simp add: window_ok_def)
  next
    case False
    then show ?thesis using assms(1) r by (auto simp: minute_ok_def)
  qed
qed

lemma window_ok_snoc:
  assumes "window_ok rate now ts c" "0 < rate \<longrightarrow> cl_requests c < rate" "cl_lastSeen c = now" "now < cl_windowStart c + routerClientWindow"
  shows "window_ok rate now (ts @ [now]) (c\<lparr>cl_requests := cl_requests c + 1, cl_active := x\<rparr>)"
  using assms by (auto simp: window_ok_def)

subsection \<open>What an admission changes\<close>

lemma prune_get:
  "gm_wf m \<Longrightarrow> gm_get (prune_clients now m) k =
     (case gm_get m k of None \<Rightarrow> None | Some c \<Rightarrow> if cl_active c = 0 \<and> routerClientIdleTTL \<le> now - cl_lastSeen c then None else Some c)"
  by (auto simp: prune_clients_def gm_get_filter split: option.splits)

lemma prune_wf: "gm_wf m \<Longrightarrow> gm_wf (prune_clients now m)"
  unfolding prune_clients_def by (rule gm_wf_filter)

lemma oldest_idle_found:
  "oldest_idle best m = Some (j, t) \<Longrightarrow> best = Some (j, t) \<or> (\<exists>c. (j, c) \<in> set m \<and> cl_active c = 0)"
proof (induction m arbitrary: best)
  case (Cons x rest)
  obtain key c where x: "x = (key, c)" by fastforce
  from Cons.prems have "oldest_idle best rest = Some (j, t) \<or> cl_active c = 0 \<and> oldest_idle (Some (key, cl_lastSeen c)) rest = Some (j, t)"
    by (auto simp: x split: if_splits option.splits)
  then show ?case using Cons.IH [of best] Cons.IH [of "Some (key, cl_lastSeen c)"] by (auto simp: x)
qed simp

definition decided :: "int \<Rightarrow> client_limiter \<Rightarrow> client_limit \<Rightarrow> limit_result \<Rightarrow> client_limit \<Rightarrow> bool" where
  "decided now l c r c2 \<longleftrightarrow>
     (r = Admitted \<and> c2 = (fresh_window now c)\<lparr>cl_requests := cl_requests (fresh_window now c) + 1, cl_active := cl_active c + 1\<rparr> \<and>
        (0 < li_maxConcurrent l \<longrightarrow> cl_active c < li_maxConcurrent l) \<and> (0 < li_requestsPerMinute l \<longrightarrow> cl_requests (fresh_window now c) < li_requestsPerMinute l)) \<or>
     (r \<noteq> Admitted \<and> c2 = fresh_window now c)"

lemma admit_decides:
  assumes "admit_client now key c l = (r, l1)"
  shows "\<exists>c2. l1 = l\<lparr>li_clients := gm_put key c2 (li_clients l)\<rparr> \<and> decided now l c r c2"
  using assms by (auto simp: admit_client_def Let_def decided_def fresh_window_props split: if_splits)

lemma decided_same [simp]: "decided now (l\<lparr>li_clients := m\<rparr>) c r c2 \<longleftrightarrow> decided now l c r c2"
  by (simp add: decided_def)

text \<open>Where the entry of the client came from, and what became of the others.\<close>

definition admission :: "int \<Rightarrow> string \<Rightarrow> client_limiter \<Rightarrow> limit_result \<Rightarrow> client_limiter \<Rightarrow> bool" where
  "admission now key l0 r l \<longleftrightarrow>
     (\<exists>B c c2. l = l0\<lparr>li_clients := B\<rparr> \<and> gm_wf B \<and> gm_get B key = Some c2 \<and> decided now l0 c r c2 \<and>
        (gm_get (prune_clients now (li_clients l0)) key = Some c \<or>
         gm_get (prune_clients now (li_clients l0)) key = None \<and> c = \<lparr>cl_windowStart = now, cl_requests = 0, cl_active = 0, cl_lastSeen = 0\<rparr>) \<and>
        (\<forall>k. k \<noteq> key \<longrightarrow> gm_get B k = gm_get (prune_clients now (li_clients l0)) k \<or>
           gm_get B k = None \<and> (\<exists>cj. gm_get (prune_clients now (li_clients l0)) k = Some cj \<and> cl_active cj = 0) \<and>
           gm_get (prune_clients now (li_clients l0)) key = None \<and> routerClientMaxKeys \<le> length (prune_clients now (li_clients l0))))"

lemma acquire_cases:
  assumes "gm_wf (li_clients l0)" "acquire_client now key (Some l0) = (r, x)"
  obtains (unlimited) "r = Unlimited" "x = Some l0"
    | (full) "r = CapacityLimit 1" "x = Some (l0\<lparr>li_clients := prune_clients now (li_clients l0)\<rparr>)"
    | (decided) l where "x = Some l" "admission now key l0 r l"
proof -
  let ?M = "prune_clients now (li_clients l0)" and ?new = "\<lparr>cl_windowStart = now, cl_requests = 0, cl_active = 0, cl_lastSeen = 0\<rparr>"
  have wf: "gm_wf ?M" by (rule prune_wf [OF assms(1)])
  consider "li_requestsPerMinute l0 = 0 \<and> li_maxConcurrent l0 = 0" | c where "\<not> (li_requestsPerMinute l0 = 0 \<and> li_maxConcurrent l0 = 0)" "gm_get ?M key = Some c"
    | "\<not> (li_requestsPerMinute l0 = 0 \<and> li_maxConcurrent l0 = 0)" "gm_get ?M key = None" "length ?M < routerClientMaxKeys"
    | "\<not> (li_requestsPerMinute l0 = 0 \<and> li_maxConcurrent l0 = 0)" "gm_get ?M key = None" "\<not> length ?M < routerClientMaxKeys"
    by (cases "gm_get ?M key") auto
  then show thesis
  proof cases
    case 1
    then show ?thesis using assms(2) unlimited by (simp add: acquire_client_def)
  next
    case (2 c)
    obtain r' l1 where a: "admit_client now key c (l0\<lparr>li_clients := ?M\<rparr>) = (r', l1)" by fastforce
    with 2 assms(2) have "r' = r" "x = Some l1" by (auto simp: acquire_client_def Let_def)
    moreover from admit_decides [OF a] 2(2) wf \<open>r' = r\<close> have "admission now key l0 r l1" by (auto simp: admission_def)
    ultimately show ?thesis using decided by blast
  next
    case 3
    obtain r' l1 where a: "admit_client now key ?new (l0\<lparr>li_clients := gm_put key ?new ?M\<rparr>) = (r', l1)" by fastforce
    with 3 assms(2) have "r' = r" "x = Some l1" by (auto simp: acquire_client_def Let_def)
    moreover from admit_decides [OF a] 3(2) wf \<open>r' = r\<close> have "admission now key l0 r l1" by (auto simp: admission_def)
    ultimately show ?thesis using decided by blast
  next
    case 4
    show ?thesis
    proof (cases "oldest_idle None ?M")
      case None
      then show ?thesis using 4 assms(2) full by (auto simp: acquire_client_def Let_def evictOldestIdle_def)
    next
      case (Some y)
      obtain j t where y: "y = (j, t)" by fastforce
      from oldest_idle_found [OF Some [unfolded y]] wf obtain cj where j: "gm_get ?M j = Some cj" "cl_active cj = 0" by (auto simp: gm_get_in)
      obtain r' l1 where a: "admit_client now key ?new (l0\<lparr>li_clients := gm_put key ?new (gm_del j ?M)\<rparr>) = (r', l1)" by fastforce
      with 4 assms(2) Some y have "r' = r" "x = Some l1" by (auto simp: acquire_client_def Let_def evictOldestIdle_def)
      moreover from admit_decides [OF a] 4(2,3) wf j \<open>r' = r\<close> have "admission now key l0 r l1" by (auto simp: admission_def)
      ultimately show ?thesis using decided by blast
    qed
  qed
qed

subsection \<open>Concurrency\<close>

abbreviation opened_by :: "string \<Rightarrow> handle list \<Rightarrow> nat" where
  "opened_by k hs \<equiv> length (filter (\<lambda>h. ha_key h = k \<and> \<not> ha_released h) hs)"

definition slots_ok :: "limiter_run \<Rightarrow> bool" where
  "slots_ok s \<longleftrightarrow> gm_wf (li_clients (lr_limiter s)) \<and>
     (\<forall>k. slot_ok (li_maxConcurrent (lr_limiter s)) (opened_by k (lr_handles s)) (gm_get (li_clients (lr_limiter s)) k))"

lemma slot_ok_pruned: "gm_wf m \<Longrightarrow> slot_ok n x (gm_get m k) \<Longrightarrow> slot_ok n x (gm_get (prune_clients now m) k)"
  by (auto simp: prune_get slot_ok_def split: option.splits)

lemma slots_admission:
  assumes "gm_wf (li_clients l0)" "\<forall>k. slot_ok (li_maxConcurrent l0) (opened_by k hs) (gm_get (li_clients l0) k)" "admission now key l0 r l"
  shows "gm_wf (li_clients l) \<and> li_maxConcurrent l = li_maxConcurrent l0 \<and>
    (\<forall>k. slot_ok (li_maxConcurrent l0) (opened_by k (hs @ (if r = Admitted then [\<lparr>ha_key = key, ha_at = now, ha_released = False\<rparr>] else []))) (gm_get (li_clients l) k))"
proof -
  let ?M = "prune_clients now (li_clients l0)"
  from assms(3) obtain B c c2 where B: "l = l0\<lparr>li_clients := B\<rparr>" "gm_wf B" "gm_get B key = Some c2" "decided now l0 c r c2"
    "gm_get ?M key = Some c \<or> gm_get ?M key = None \<and> c = \<lparr>cl_windowStart = now, cl_requests = 0, cl_active = 0, cl_lastSeen = 0\<rparr>"
    "\<forall>k. k \<noteq> key \<longrightarrow> gm_get B k = gm_get ?M k \<or> gm_get B k = None \<and> (\<exists>cj. gm_get ?M k = Some cj \<and> cl_active cj = 0) \<and>
       gm_get ?M key = None \<and> routerClientMaxKeys \<le> length ?M"
    unfolding admission_def by blast
  have p: "slot_ok (li_maxConcurrent l0) (opened_by k hs) (gm_get ?M k)" for k using assms(2) by (intro slot_ok_pruned [OF assms(1)]) simp
  have "slot_ok (li_maxConcurrent l0) (opened_by k hs) (gm_get B k)" if "k \<noteq> key" for k
    using B(6) that p [of k] by (auto simp: slot_ok_def)
  moreover have "cl_active c = int (opened_by key hs)" using B(5) p [of key] by (auto simp: slot_ok_def)
  moreover from this have "slot_ok (li_maxConcurrent l0) (opened_by key (hs @ (if r = Admitted then [\<lparr>ha_key = key, ha_at = now, ha_released = False\<rparr>] else []))) (Some c2)"
    using B(4) p [of key] by (auto simp: slot_ok_def decided_def fresh_window_props)
  ultimately have "slot_ok (li_maxConcurrent l0) (opened_by k (hs @ (if r = Admitted then [\<lparr>ha_key = key, ha_at = now, ha_released = False\<rparr>] else []))) (gm_get B k)" for k
    using B(3) by (cases "k = key") auto
  then show ?thesis using B(1,2) by simp
qed

lemma release_get:
  "gm_get (li_clients (release_client now key l)) k =
     (case gm_get (li_clients l) k of
        None \<Rightarrow> None
      | Some c \<Rightarrow> Some (if k = key \<and> 0 < cl_active c then c\<lparr>cl_active := cl_active c - 1, cl_lastSeen := now\<rparr> else c))"
  by (auto simp: release_client_def split: option.splits)

lemma release_rest:
  "gm_wf (li_clients l) \<Longrightarrow> gm_wf (li_clients (release_client now key l))" "li_maxConcurrent (release_client now key l) = li_maxConcurrent l"
  "li_requestsPerMinute (release_client now key l) = li_requestsPerMinute l" "gm_keys (li_clients (release_client now key l)) = gm_keys (li_clients l)"
  by (auto simp: release_client_def dest: map_of_SomeD split: option.splits) (force dest: map_of_SomeD)+

lemma opened_by_release:
  assumes "n < length hs" "\<not> ha_released (hs ! n)"
  shows "opened_by k (hs[n := (hs ! n)\<lparr>ha_released := True\<rparr>]) + (if ha_key (hs ! n) = k then 1 else 0) = opened_by k hs"
proof -
  have hs: "hs = take n hs @ hs ! n # drop (Suc n) hs" using assms(1) by (simp add: id_take_nth_drop)
  have "opened_by k (hs[n := x]) = opened_by k (take n hs) + opened_by k [x] + opened_by k (drop (Suc n) hs)" for x
    using assms(1) by (subst hs) (simp add: upd_conv_take_nth_drop)
  from this [of "hs ! n"] this [of "(hs ! n)\<lparr>ha_released := True\<rparr>"] assms(2) show ?thesis by simp
qed

lemma slots_step: "slots_ok s \<Longrightarrow> slots_ok (limiter_step ev s)"
proof (cases ev)
  case (AcquireClient dt key)
  assume ok: "slots_ok s"
  let ?now = "lr_now s + int dt"
  obtain r x where a: "acquire_client ?now key (Some (lr_limiter s)) = (r, x)" by fastforce
  from ok have wf: "gm_wf (li_clients (lr_limiter s))" by (simp add: slots_ok_def)
  show ?thesis
  proof (rule acquire_cases [OF wf a])
    assume "r = Unlimited" "x = Some (lr_limiter s)"
    then show ?thesis using ok a AcquireClient by (simp add: slots_ok_def)
  next
    assume "r = CapacityLimit 1" "x = Some ((lr_limiter s)\<lparr>li_clients := prune_clients ?now (li_clients (lr_limiter s))\<rparr>)"
    then show ?thesis using ok a AcquireClient wf by (simp add: slots_ok_def Let_def prune_wf slot_ok_pruned)
  next
    fix l assume "x = Some l" "admission ?now key (lr_limiter s) r l"
    then show ?thesis using ok a AcquireClient wf slots_admission [of "lr_limiter s" "lr_handles s" ?now key r l]
      by (cases r) (simp_all add: slots_ok_def Let_def)
  qed
next
  case (ReleaseHandle dt n)
  assume ok: "slots_ok s"
  show ?thesis
  proof (cases "n < length (lr_handles s) \<and> \<not> ha_released (lr_handles s ! n)")
    case True
    let ?h = "lr_handles s ! n"
    have "slot_ok (li_maxConcurrent (lr_limiter s)) (opened_by k ((lr_handles s)[n := ?h\<lparr>ha_released := True\<rparr>]))
        (gm_get (li_clients (release_client now (ha_key ?h) (lr_limiter s))) k)" for k now
      using ok opened_by_release [of n "lr_handles s" k] True unfolding slots_ok_def slot_ok_def release_get
      by (auto split: option.splits if_splits dest!: spec [of _ k])
    then show ?thesis using ok True ReleaseHandle by (simp add: slots_ok_def Let_def release_rest)
  next
    case False
    then show ?thesis using ok ReleaseHandle by (auto simp: slots_ok_def Let_def)
  qed
qed

interpretation lim: step_system limiter_step slots_ok
  by unfold_locales (rule slots_step)

subsection \<open>Rates\<close>

abbreviation admitted_at :: "string \<Rightarrow> handle list \<Rightarrow> int list" where
  "admitted_at k hs \<equiv> map ha_at (filter (\<lambda>h. ha_key h = k) hs)"

definition rates_ok :: "string set \<Rightarrow> limiter_run \<Rightarrow> bool" where
  "rates_ok K s \<longleftrightarrow> gm_wf (li_clients (lr_limiter s)) \<and> gm_keys (li_clients (lr_limiter s)) \<subseteq> K \<and>
     (\<forall>k. rate_ok (li_requestsPerMinute (lr_limiter s)) (lr_now s) (admitted_at k (lr_handles s)) (gm_get (li_clients (lr_limiter s)) k))"

lemma rate_pruned: "gm_wf m \<Longrightarrow> rate_ok n now ts (gm_get m k) \<Longrightarrow> rate_ok n now ts (gm_get (prune_clients now m) k)"
  by (auto simp: prune_get rate_ok_pruned split: option.splits)

lemma prune_keys: "gm_keys (prune_clients now m) \<subseteq> gm_keys m"
  by (auto simp: prune_clients_def)

lemma no_eviction:
  assumes "gm_wf m" "gm_keys m \<subseteq> K" "finite K" "card K \<le> routerClientMaxKeys" "key \<in> K" "gm_get m key = None"
  shows "length m < routerClientMaxKeys"
proof -
  have "gm_keys m \<subset> K" using assms(2,5,6) gm_get_None [of m key] by auto
  then have "card (gm_keys m) < card K" by (rule psubset_card_mono [OF assms(3)])
  then show ?thesis using assms(4) gm_length [OF assms(1)] by simp
qed

lemma rate_ok_decided:
  assumes "window_ok (li_requestsPerMinute l) now ts (fresh_window now c)" "minute_ok (li_requestsPerMinute l) ts" "decided now l c r c2"
  shows "rate_ok (li_requestsPerMinute l) now (ts @ (if r = Admitted then [now] else [])) (Some c2)"
  using assms minute_ok_snoc [OF assms(2,1)] window_ok_snoc [OF assms(1)] by (auto simp: decided_def rate_ok_def fresh_window_props)

lemma rates_admission:
  assumes wf: "gm_wf (li_clients l0)" and K: "gm_keys (li_clients l0) \<subseteq> K" "finite K" "card K \<le> routerClientMaxKeys" "key \<in> K"
    and ok: "\<forall>k. rate_ok (li_requestsPerMinute l0) now (admitted_at k hs) (gm_get (li_clients l0) k)" and adm: "admission now key l0 r l"
  shows "gm_wf (li_clients l) \<and> gm_keys (li_clients l) \<subseteq> K \<and> li_requestsPerMinute l = li_requestsPerMinute l0 \<and>
    (\<forall>k. rate_ok (li_requestsPerMinute l0) now
       (admitted_at k (hs @ (if r = Admitted then [\<lparr>ha_key = key, ha_at = now, ha_released = False\<rparr>] else []))) (gm_get (li_clients l) k))"
proof -
  let ?M = "prune_clients now (li_clients l0)" and ?n = "li_requestsPerMinute l0"
  from adm obtain B c c2 where B: "l = l0\<lparr>li_clients := B\<rparr>" "gm_wf B" "gm_get B key = Some c2" "decided now l0 c r c2"
    "gm_get ?M key = Some c \<or> gm_get ?M key = None \<and> c = \<lparr>cl_windowStart = now, cl_requests = 0, cl_active = 0, cl_lastSeen = 0\<rparr>"
    "\<forall>k. k \<noteq> key \<longrightarrow> gm_get B k = gm_get ?M k \<or> gm_get B k = None \<and> (\<exists>cj. gm_get ?M k = Some cj \<and> cl_active cj = 0) \<and>
       gm_get ?M key = None \<and> routerClientMaxKeys \<le> length ?M"
    unfolding admission_def by blast
  have MK: "gm_keys ?M \<subseteq> K" using prune_keys K(1) by blast
  have others: "gm_get B k = gm_get ?M k" if "k \<noteq> key" for k
    using B(6) that no_eviction [OF prune_wf [OF wf] MK K(2,3,4)] by (metis leD)
  have p: "rate_ok ?n now (admitted_at k hs) (gm_get ?M k)" for k using ok by (intro rate_pruned [OF wf]) simp
  have "window_ok ?n now (admitted_at key hs) (fresh_window now c)"
    using B(5) p [of key] by (auto simp: rate_ok_def intro: window_ok_fresh window_ok_new)
  moreover have "minute_ok ?n (admitted_at key hs)" using p [of key] by (simp add: rate_ok_def)
  ultimately have "rate_ok ?n now (admitted_at key hs @ (if r = Admitted then [now] else [])) (Some c2)" using B(4) by (rule rate_ok_decided)
  then have "rate_ok ?n now (admitted_at k (hs @ (if r = Admitted then [\<lparr>ha_key = key, ha_at = now, ha_released = False\<rparr>] else []))) (gm_get B k)" for k
    using B(3) others [of k] p [of k] by (cases "k = key") (auto split: if_splits)
  moreover have "gm_keys B \<subseteq> K" using others MK K(4) by (metis gm_get_None subset_iff)
  ultimately show ?thesis using B(1,2) by simp
qed

lemma admitted_at_release: "n < length hs \<Longrightarrow> admitted_at k (hs[n := (hs ! n)\<lparr>ha_released := True\<rparr>]) = admitted_at k hs"
proof -
  assume n: "n < length hs"
  have hs: "hs = take n hs @ hs ! n # drop (Suc n) hs" using n by (simp add: id_take_nth_drop)
  have "admitted_at k (hs[n := x]) = admitted_at k (take n hs) @ admitted_at k [x] @ admitted_at k (drop (Suc n) hs)" for x
    using n by (simp add: upd_conv_take_nth_drop)
  from this [of "hs ! n"] this [of "(hs ! n)\<lparr>ha_released := True\<rparr>"] show ?thesis by simp
qed

fun event_keys :: "limiter_event \<Rightarrow> string list" where
  "event_keys (AcquireClient _ key) = [key]"
| "event_keys (ReleaseHandle _ _) = []"

lemma rate_ok_release:
  assumes "rate_ok n now ts (gm_get (li_clients l) k)"
  shows "rate_ok n now ts (gm_get (li_clients (release_client now key l)) k)"
proof (cases "gm_get (li_clients l) k")
  case (Some c)
  from Some assms have "window_ok n now ts c" "minute_ok n ts" by (simp_all add: rate_ok_def)
  moreover from this have "window_ok n now ts (c\<lparr>cl_active := x, cl_lastSeen := now\<rparr>)" for x by (fastforce simp: window_ok_def)
  ultimately show ?thesis using Some by (simp add: release_get rate_ok_def)
qed (use assms in \<open>simp add: release_get\<close>)

lemma rates_step:
  assumes ok: "rates_ok K s" and K: "finite K" "card K \<le> routerClientMaxKeys" "set (event_keys ev) \<subseteq> K"
  shows "rates_ok K (limiter_step ev s)"
proof (cases ev)
  case (AcquireClient dt key)
  let ?now = "lr_now s + int dt" and ?l = "lr_limiter s"
  obtain r x where a: "acquire_client ?now key (Some ?l) = (r, x)" by fastforce
  from ok have wf: "gm_wf (li_clients ?l)" and sub: "gm_keys (li_clients ?l) \<subseteq> K" by (simp_all add: rates_ok_def)
  have later: "\<forall>k. rate_ok (li_requestsPerMinute ?l) ?now (admitted_at k (lr_handles s)) (gm_get (li_clients ?l) k)"
    using ok by (auto simp: rates_ok_def intro: rate_ok_later)
  show ?thesis
  proof (rule acquire_cases [OF wf a])
    assume "r = Unlimited" "x = Some ?l"
    then show ?thesis using wf sub later a AcquireClient by (simp add: rates_ok_def Let_def)
  next
    assume "r = CapacityLimit 1" "x = Some (?l\<lparr>li_clients := prune_clients ?now (li_clients ?l)\<rparr>)"
    moreover have "gm_keys (prune_clients ?now (li_clients ?l)) \<subseteq> K" using prune_keys sub by blast
    ultimately show ?thesis using later a AcquireClient wf by (simp add: rates_ok_def Let_def prune_wf rate_pruned)
  next
    fix l assume l: "x = Some l" "admission ?now key ?l r l"
    have "key \<in> K" using K(3) AcquireClient by simp
    note adm = rates_admission [OF wf sub K(1,2) this later l(2)]
    show ?thesis using a l(1) AcquireClient adm by (cases r) (simp_all add: rates_ok_def Let_def)
  qed
next
  case (ReleaseHandle dt n)
  let ?now = "lr_now s + int dt" and ?l = "lr_limiter s"
  have later: "rate_ok (li_requestsPerMinute ?l) ?now (admitted_at k (lr_handles s)) (gm_get (li_clients ?l) k)" for k
    using ok by (auto simp: rates_ok_def intro: rate_ok_later)
  then have "rate_ok (li_requestsPerMinute ?l) ?now (admitted_at k (lr_handles s)) (gm_get (li_clients (release_client ?now key ?l)) k)" for k key
    by (rule rate_ok_release)
  then show ?thesis using ok later ReleaseHandle by (auto simp: rates_ok_def Let_def release_rest admitted_at_release)
qed

lemma limits_fixed:
  "li_maxConcurrent (lr_limiter (fold limiter_step evs s)) = li_maxConcurrent (lr_limiter s) \<and>
   li_requestsPerMinute (lr_limiter (fold limiter_step evs s)) = li_requestsPerMinute (lr_limiter s)"
proof -
  have step: "li_maxConcurrent (lr_limiter (limiter_step ev s)) = li_maxConcurrent (lr_limiter s) \<and>
      li_requestsPerMinute (lr_limiter (limiter_step ev s)) = li_requestsPerMinute (lr_limiter s)" for ev s
    by (cases ev) (auto simp: Let_def release_rest acquire_client_def admit_client_def split: prod.splits option.splits limit_result.splits if_splits)
  show ?thesis by (induction evs arbitrary: s) (simp_all add: step)
qed


definition sample_requests :: "limiter_event list" where
  "sample_requests = [AcquireClient 1 ''c'', AcquireClient 1 ''c'', AcquireClient 1 ''c'', ReleaseHandle 1 0, ReleaseHandle 0 0, AcquireClient 1 ''c'']"


end
