(* ===== verification/Dispatch_Gate.thy ===== *)
theory Dispatch_Gate
  imports Prelude Step_System
begin

text \<open>
  The reservation of dispatch capacity (\<^verbatim>\<open>internal/orchestrator/node_dispatch_gate.go\<close> and
  \<^verbatim>\<open>capacity_gate.go\<close>): a gate per node that counts local and external work against the advertised limit,
  and a global number of slots. The capacity of a node is what the callback of \<^verbatim>\<open>tryAcquire\<close> returns, an
  argument as in the code; the callback that probes a node over the network (\<^verbatim>\<open>dispatchCapacity\<close>) is not
  modelled. A channel that is closed to wake waiters is the number of times it was replaced; the
  channel of slots is the number of its elements.
\<close>

subsection \<open>Gates of nodes\<close>

record node_gate =
  ng_refreshing :: bool
  ng_limit :: int
  ng_active :: int
  ng_external :: int
  ng_changed :: nat

definition newNodeDispatchGate :: "int \<Rightarrow> node_gate" where
  "newNodeDispatchGate limit = \<lparr>ng_refreshing = False, ng_limit = limit, ng_active = 0, ng_external = 0, ng_changed = 0\<rparr>"

text \<open>Whether the caller owns the refresh, which it does unless one is in flight.\<close>

definition beginRefresh :: "node_gate \<Rightarrow> bool \<times> node_gate" where
  "beginRefresh g = (\<not> ng_refreshing g, g\<lparr>ng_refreshing := True\<rparr>)"

definition endRefresh :: "node_gate \<Rightarrow> node_gate" where
  "endRefresh g = g\<lparr>ng_refreshing := False\<rparr>"

definition setCapacity :: "int \<Rightarrow> int \<Rightarrow> int \<Rightarrow> node_gate \<Rightarrow> node_gate" where
  "setCapacity limit available reportedActive g =
     (let occupied = max (limit - available) reportedActive;
          ext = max 0 (occupied - ng_active g)
      in if limit \<noteq> ng_limit g \<or> ext \<noteq> ng_external g
         then g\<lparr>ng_limit := limit, ng_external := ext, ng_changed := Suc (ng_changed g)\<rparr> else g)"

text \<open>\<^verbatim>\<open>tryAcquire\<close> takes its lock twice: for the capacity and then for the place. The answer is whether a place was acquired and whether the node is healthy.\<close>

definition take_place :: "node_gate \<Rightarrow> bool \<times> node_gate" where
  "take_place g = (if ng_active g + ng_external g < ng_limit g then (True, g\<lparr>ng_active := ng_active g + 1\<rparr>) else (False, g))"

definition tryAcquire :: "(int \<times> int \<times> int) option \<Rightarrow> node_gate \<Rightarrow> (bool \<times> bool) \<times> node_gate" where
  "tryAcquire capacity g =
     (case capacity of
        None \<Rightarrow> ((False, False), g)
      | Some (limit, available, reportedActive) \<Rightarrow>
          (let (acquired, g1) = take_place (setCapacity limit available reportedActive g) in ((acquired, True), g1)))"

definition release_gate :: "node_gate \<Rightarrow> node_gate" where
  "release_gate g = g\<lparr>ng_active := ng_active g - 1, ng_changed := Suc (ng_changed g)\<rparr>"

definition occupancy :: "node_gate \<Rightarrow> int \<times> int" where
  "occupancy g = (ng_active g + ng_external g, ng_limit g)"

subsection \<open>Reservations\<close>

record node_status =
  ns_ID :: string
  ns_Healthy :: bool
  ns_Address :: string
  ns_MaxConcurrentTasks :: int
  ns_AvailableCapacity :: int
  ns_ActiveTasks :: int

record capacity_target =
  ct_NodeID :: string
  ct_Address :: string

record capacity_gate =
  cg_fallbackLimit :: int
  cg_slots :: nat
  cg_globalLimit :: nat
  cg_nodeGates :: "(string, node_gate) gomap"

definition newDispatchCapacityGate :: "nat \<Rightarrow> capacity_gate" where
  "newDispatchCapacityGate globalLimit =
     \<lparr>cg_fallbackLimit = int globalLimit, cg_slots = 0, cg_globalLimit = globalLimit, cg_nodeGates = []\<rparr>"

definition nodeDispatchGate :: "string \<Rightarrow> int \<Rightarrow> capacity_gate \<Rightarrow> node_gate \<times> capacity_gate" where
  "nodeDispatchGate nodeID limit g =
     (case gm_get (cg_nodeGates g) nodeID of
        Some gate \<Rightarrow> (gate, g)
      | None \<Rightarrow> (newNodeDispatchGate limit, g\<lparr>cg_nodeGates := gm_put nodeID (newNodeDispatchGate limit) (cg_nodeGates g)\<rparr>))"

datatype reserve_error = NoCandidates | InvalidCandidate

definition check_candidates :: "capacity_target list \<Rightarrow> reserve_error option" where
  "check_candidates candidates =
     (if candidates = [] then Some NoCandidates
      else if list_ex (\<lambda>c. ct_NodeID c = [] \<or> ct_Address c = []) candidates then Some InvalidCandidate else None)"

datatype round_result = Acquired string | NoNode | Wait

text \<open>One pass over the candidates: \<open>registry\<close> gives the status of a node and \<open>capacity\<close> what the callback answers for it. \<open>healthy\<close> is the number of
  healthy candidates so far.\<close>

fun reserve_round ::
  "(string \<Rightarrow> node_status option) \<Rightarrow> (string \<Rightarrow> (int \<times> int \<times> int) option) \<Rightarrow> nat \<Rightarrow> capacity_target list \<Rightarrow> capacity_gate \<Rightarrow> round_result \<times> capacity_gate" where
  "reserve_round registry capacity healthy [] g = (if healthy = 0 then NoNode else Wait, g)"
| "reserve_round registry capacity healthy (c # cs) g =
     (case registry (ct_NodeID c) of
        None \<Rightarrow> reserve_round registry capacity healthy cs g
      | Some status \<Rightarrow>
          if \<not> ns_Healthy status \<or> ns_Address status \<noteq> ct_Address c then reserve_round registry capacity healthy cs g
          else
            (let limit = (if ns_MaxConcurrentTasks status \<le> 0 then cg_fallbackLimit g else ns_MaxConcurrentTasks status);
                 (gate, g1) = nodeDispatchGate (ct_NodeID c) limit g;
                 ((acquired, isHealthy), gate1) = tryAcquire (capacity (ct_NodeID c)) gate;
                 g2 = g1\<lparr>cg_nodeGates := gm_put (ct_NodeID c) gate1 (cg_nodeGates g1)\<rparr>
             in if \<not> isHealthy then reserve_round registry capacity healthy cs g2
                else if acquired then (Acquired (ct_NodeID c), g2)
                else reserve_round registry capacity (Suc healthy) cs g2))"

definition update_gate :: "string \<Rightarrow> (node_gate \<Rightarrow> node_gate) \<Rightarrow> capacity_gate \<Rightarrow> capacity_gate" where
  "update_gate nodeID f g =
     (case gm_get (cg_nodeGates g) nodeID of None \<Rightarrow> g | Some gate \<Rightarrow> g\<lparr>cg_nodeGates := gm_put nodeID (f gate) (cg_nodeGates g)\<rparr>)"

text \<open>Releasing a reservation gives back its place at the node and a slot; without a slot to take the code panics, here \<open>None\<close>.\<close>

definition release_reservation :: "string \<Rightarrow> capacity_gate \<Rightarrow> capacity_gate option" where
  "release_reservation nodeID g =
     (let g1 = update_gate nodeID release_gate g
      in if cg_slots g1 = 0 then None else Some (g1\<lparr>cg_slots := cg_slots g1 - 1\<rparr>))"

definition snapshotNodeCapacity :: "node_status \<Rightarrow> int \<Rightarrow> capacity_gate \<Rightarrow> (int \<times> int) option \<times> capacity_gate" where
  "snapshotNodeCapacity status fallbackLimit g =
     (case gm_get (cg_nodeGates g) (ns_ID status) of
        None \<Rightarrow> (None, g)
      | Some gate \<Rightarrow>
          (let unknown = ns_MaxConcurrentTasks status \<le> 0;
               limit = (if unknown then fallbackLimit else ns_MaxConcurrentTasks status);
               available = (if unknown then limit else ns_AvailableCapacity status);
               gate1 = setCapacity limit available (ns_ActiveTasks status) gate
           in (Some (occupancy gate1), g\<lparr>cg_nodeGates := gm_put (ns_ID status) gate1 (cg_nodeGates g)\<rparr>)))"

subsection \<open>Histories\<close>

text \<open>A request that has acquired a place at a node waits for a slot, holds one, or is done. The events are the points at which the code takes a lock or uses the
  channel of slots: a pass over the candidates, the second half of \<^verbatim>\<open>tryAcquire\<close> on its own, the grant of a slot, giving up while waiting, the
  release, which takes effect once, a capacity report and the start or end of a refresh. A pass that others interrupt is a sequence of passes over one
  candidate, of reports and of second halves; a cancellation that is noticed just after the grant releases both, as a release does.\<close>

datatype stage = Waiting | Holding | Done

record hold =
  ho_node :: string
  ho_stage :: stage

datatype gate_event =
    Reserve "string \<Rightarrow> node_status option" "string \<Rightarrow> (int \<times> int \<times> int) option" "capacity_target list"
  | Take string
  | Grant nat
  | GiveUp nat
  | Release nat
  | Report node_status int
  | Refresh string bool

record gate_run =
  gr_gate :: capacity_gate
  gr_holds :: "hold list"
  gr_panicked :: bool

definition stage_at :: "nat \<Rightarrow> gate_run \<Rightarrow> stage option" where
  "stage_at n s = (if n < length (gr_holds s) then Some (ho_stage (gr_holds s ! n)) else None)"

definition set_stage :: "nat \<Rightarrow> stage \<Rightarrow> gate_run \<Rightarrow> gate_run" where
  "set_stage n x s = s\<lparr>gr_holds := (gr_holds s)[n := (gr_holds s ! n)\<lparr>ho_stage := x\<rparr>]\<rparr>"

fun gate_step :: "gate_event \<Rightarrow> gate_run \<Rightarrow> gate_run" where
  "gate_step (Reserve registry capacity candidates) s =
     (if check_candidates candidates \<noteq> None then s
      else case reserve_round registry capacity 0 candidates (gr_gate s) of
             (Acquired i, g) \<Rightarrow> s\<lparr>gr_gate := g, gr_holds := gr_holds s @ [\<lparr>ho_node = i, ho_stage = Waiting\<rparr>]\<rparr>
           | (_, g) \<Rightarrow> s\<lparr>gr_gate := g\<rparr>)"
| "gate_step (Take i) s =
     (case gm_get (cg_nodeGates (gr_gate s)) i of
        None \<Rightarrow> s
      | Some gate \<Rightarrow>
          (case take_place gate of
             (False, _) \<Rightarrow> s
           | (True, gate1) \<Rightarrow>
               s\<lparr>gr_gate := (gr_gate s)\<lparr>cg_nodeGates := gm_put i gate1 (cg_nodeGates (gr_gate s))\<rparr>,
                 gr_holds := gr_holds s @ [\<lparr>ho_node = i, ho_stage = Waiting\<rparr>]\<rparr>))"
| "gate_step (Grant n) s =
     (if stage_at n s = Some Waiting \<and> cg_slots (gr_gate s) < cg_globalLimit (gr_gate s)
      then set_stage n Holding (s\<lparr>gr_gate := (gr_gate s)\<lparr>cg_slots := cg_slots (gr_gate s) + 1\<rparr>\<rparr>) else s)"
| "gate_step (GiveUp n) s =
     (if stage_at n s = Some Waiting
      then set_stage n Done (s\<lparr>gr_gate := update_gate (ho_node (gr_holds s ! n)) release_gate (gr_gate s)\<rparr>) else s)"
| "gate_step (Release n) s =
     (if stage_at n s = Some Holding
      then (case release_reservation (ho_node (gr_holds s ! n)) (gr_gate s) of
              None \<Rightarrow> s\<lparr>gr_panicked := True\<rparr>
            | Some g \<Rightarrow> set_stage n Done (s\<lparr>gr_gate := g\<rparr>))
      else s)"
| "gate_step (Report status fallbackLimit) s = s\<lparr>gr_gate := snd (snapshotNodeCapacity status fallbackLimit (gr_gate s))\<rparr>"
| "gate_step (Refresh i begin) s =
     s\<lparr>gr_gate := update_gate i (if begin then \<lambda>g. snd (beginRefresh g) else endRefresh) (gr_gate s)\<rparr>"

subsection \<open>Counting places\<close>

definition active_at :: "string \<Rightarrow> capacity_gate \<Rightarrow> int" where
  "active_at k g = (case gm_get (cg_nodeGates g) k of None \<Rightarrow> 0 | Some gate \<Rightarrow> ng_active gate)"

definition within_limit :: "string \<Rightarrow> capacity_gate \<Rightarrow> bool" where
  "within_limit k g \<longleftrightarrow> (\<exists>gate. gm_get (cg_nodeGates g) k = Some gate \<and> ng_active gate + ng_external gate \<le> ng_limit gate)"

lemma setCapacity_active [simp]: "ng_active (setCapacity limit available reported g) = ng_active g"
  by (simp add: setCapacity_def Let_def)

lemma tryAcquire_active:
  assumes "tryAcquire capacity gate = ((acquired, healthy), gate1)"
  shows "ng_active gate1 = ng_active gate + (if acquired then 1 else 0) \<and> (acquired \<longrightarrow> healthy \<and> ng_active gate1 + ng_external gate1 \<le> ng_limit gate1)"
  using assms by (auto simp: tryAcquire_def take_place_def Let_def split: option.splits if_splits)

lemma nodeDispatchGate_active:
  assumes "nodeDispatchGate i limit g = (gate, g1)" "gm_wf (cg_nodeGates g)"
  shows "gm_wf (cg_nodeGates g1) \<and> ng_active gate = active_at i g \<and> (\<forall>k. active_at k g1 = active_at k g) \<and>
    cg_slots g1 = cg_slots g \<and> cg_globalLimit g1 = cg_globalLimit g"
  using assms by (auto simp: nodeDispatchGate_def active_at_def newNodeDispatchGate_def split: option.splits if_splits)

lemma reserve_round_places:
  assumes "reserve_round registry capacity healthy cs g = (r, g')" "gm_wf (cg_nodeGates g)"
  shows "gm_wf (cg_nodeGates g') \<and> cg_slots g' = cg_slots g \<and> cg_globalLimit g' = cg_globalLimit g \<and>
    (\<forall>k. active_at k g' = active_at k g + (if r = Acquired k then 1 else 0)) \<and> (\<forall>i. r = Acquired i \<longrightarrow> within_limit i g')"
  using assms
proof (induction cs arbitrary: healthy g)
  case Nil
  then show ?case by (auto split: if_splits)
next
  case (Cons c cs)
  let ?i = "ct_NodeID c"
  show ?case
  proof (cases "\<exists>st. registry ?i = Some st \<and> ns_Healthy st \<and> ns_Address st = ct_Address c")
    case False
    then show ?thesis using Cons.prems Cons.IH by (auto split: option.splits)
  next
    case True
    then obtain st where st: "registry ?i = Some st" "ns_Healthy st" "ns_Address st = ct_Address c" by blast
    let ?limit = "if ns_MaxConcurrentTasks st \<le> 0 then cg_fallbackLimit g else ns_MaxConcurrentTasks st"
    obtain gate g1 where n: "nodeDispatchGate ?i ?limit g = (gate, g1)" by fastforce
    obtain acquired isHealthy gate1 where t: "tryAcquire (capacity ?i) gate = ((acquired, isHealthy), gate1)" by (metis prod.collapse)
    define g2 where "g2 = g1\<lparr>cg_nodeGates := gm_put ?i gate1 (cg_nodeGates g1)\<rparr>"
    note na = nodeDispatchGate_active [OF n Cons.prems(2)] and ta = tryAcquire_active [OF t]
    have g2: "gm_wf (cg_nodeGates g2)" "cg_slots g2 = cg_slots g" "cg_globalLimit g2 = cg_globalLimit g" using na by (auto simp: g2_def)
    have act: "active_at k g2 = active_at k g + (if acquired \<and> k = ?i then 1 else 0)" for k
      using na ta by (auto simp: g2_def active_at_def)
    have step: "reserve_round registry capacity healthy (c # cs) g =
        (if \<not> isHealthy then reserve_round registry capacity healthy cs g2
         else if acquired then (Acquired ?i, g2) else reserve_round registry capacity (Suc healthy) cs g2)"
      using st n t by (simp add: g2_def)
    show ?thesis
    proof (cases acquired)
      case True
      with ta step Cons.prems(1) have "r = Acquired ?i" "g' = g2" by auto
      then show ?thesis using g2 act True ta by (auto simp: within_limit_def g2_def)
    next
      case False
      with step Cons.prems(1) obtain h where "reserve_round registry capacity h cs g2 = (r, g')" by (auto split: if_splits)
      from Cons.IH [OF this g2(1)] g2 act False show ?thesis by simp
    qed
  qed
qed

abbreviation places :: "string \<Rightarrow> hold list \<Rightarrow> nat" where
  "places k hs \<equiv> length (filter (\<lambda>h. ho_node h = k \<and> ho_stage h \<noteq> Done) hs)"

abbreviation holding :: "hold list \<Rightarrow> nat" where
  "holding hs \<equiv> length (filter (\<lambda>h. ho_stage h = Holding) hs)"

definition gates_ok :: "gate_run \<Rightarrow> bool" where
  "gates_ok s \<longleftrightarrow> gm_wf (cg_nodeGates (gr_gate s)) \<and> \<not> gr_panicked s \<and> cg_slots (gr_gate s) = holding (gr_holds s) \<and>
     cg_slots (gr_gate s) \<le> cg_globalLimit (gr_gate s) \<and> (\<forall>k. active_at k (gr_gate s) = int (places k (gr_holds s)))"

lemma filter_update:
  assumes "n < length hs"
  shows "length (filter P (hs[n := x])) + (if P (hs ! n) then 1 else 0) = length (filter P hs) + (if P x then 1 else 0)"
proof -
  have "length (filter P (hs[n := y])) = length (filter P (take n hs)) + length (filter P [y]) + length (filter P (drop (Suc n) hs))" for y
    using assms by (simp add: upd_conv_take_nth_drop)
  from this [of "hs ! n"] this [of x] show ?thesis by simp
qed

lemma update_gate_active:
  assumes "gm_wf (cg_nodeGates g)"
  shows "gm_wf (cg_nodeGates (update_gate i f g))" "cg_slots (update_gate i f g) = cg_slots g" "cg_globalLimit (update_gate i f g) = cg_globalLimit g"
    "(\<And>x. ng_active (f x) = ng_active x + d) \<Longrightarrow> gm_get (cg_nodeGates g) i \<noteq> None \<Longrightarrow>
       active_at k (update_gate i f g) = active_at k g + (if k = i then d else 0)"
    "(\<And>x. ng_active (f x) = ng_active x) \<Longrightarrow> active_at k (update_gate i f g) = active_at k g"
  using assms by (auto simp: update_gate_def active_at_def split: option.splits)

lemma stage_Some: "stage_at n s = Some x \<longleftrightarrow> n < length (gr_holds s) \<and> ho_stage (gr_holds s ! n) = x"
  by (simp add: stage_at_def)

lemma place_has_gate:
  assumes "gates_ok s" "n < length (gr_holds s)" "ho_stage (gr_holds s ! n) \<noteq> Done"
  shows "gm_get (cg_nodeGates (gr_gate s)) (ho_node (gr_holds s ! n)) \<noteq> None"
proof
  assume "gm_get (cg_nodeGates (gr_gate s)) (ho_node (gr_holds s ! n)) = None"
  then have "places (ho_node (gr_holds s ! n)) (gr_holds s) = 0" using assms(1) by (auto simp: gates_ok_def active_at_def dest!: spec [of _ "ho_node (gr_holds s ! n)"])
  then show False using assms(2,3) by (auto simp: filter_empty_conv)
qed

lemma leave_place:
  assumes "gates_ok s" "n < length (gr_holds s)" "ho_stage (gr_holds s ! n) \<noteq> Done"
  shows "active_at k (update_gate (ho_node (gr_holds s ! n)) release_gate (gr_gate s)) =
    int (places k ((gr_holds s)[n := (gr_holds s ! n)\<lparr>ho_stage := Done\<rparr>]))"
proof -
  let ?h = "gr_holds s ! n"
  have "gm_wf (cg_nodeGates (gr_gate s))" "active_at k (gr_gate s) = int (places k (gr_holds s))" using assms(1) by (simp_all add: gates_ok_def)
  moreover from update_gate_active(4) [OF this(1), of release_gate "- 1" "ho_node ?h" k] place_has_gate [OF assms]
  have "active_at k (update_gate (ho_node ?h) release_gate (gr_gate s)) = active_at k (gr_gate s) + (if k = ho_node ?h then - 1 else 0)"
    by (simp add: release_gate_def)
  moreover have "places k ((gr_holds s)[n := ?h\<lparr>ho_stage := Done\<rparr>]) + (if k = ho_node ?h then 1 else 0) = places k (gr_holds s)"
    using filter_update [OF assms(2), of "\<lambda>h. ho_node h = k \<and> ho_stage h \<noteq> Done" "?h\<lparr>ho_stage := Done\<rparr>"] assms(3) by auto
  ultimately show ?thesis by auto
qed

lemma gates_step:
  assumes "gates_ok s"
  shows "gates_ok (gate_step ev s)"
proof (cases ev)
  case (Reserve registry capacity cs)
  obtain r g where r: "reserve_round registry capacity 0 cs (gr_gate s) = (r, g)" by fastforce
  from reserve_round_places [OF r] assms Reserve r show ?thesis by (cases r) (auto simp: gates_ok_def)
next
  case (Take i)
  from assms have wf: "gm_wf (cg_nodeGates (gr_gate s))" by (simp add: gates_ok_def)
  show ?thesis
  proof (cases "gm_get (cg_nodeGates (gr_gate s)) i")
    case (Some gate)
    have "active_at k ((gr_gate s)\<lparr>cg_nodeGates := gm_put i (gate\<lparr>ng_active := ng_active gate + 1\<rparr>) (cg_nodeGates (gr_gate s))\<rparr>) =
        active_at k (gr_gate s) + (if k = i then 1 else 0)" for k using Some by (auto simp: active_at_def)
    then show ?thesis using assms Take Some wf by (auto simp: gates_ok_def take_place_def)
  qed (use assms Take in simp)
next
  case (Grant n)
  show ?thesis
  proof (cases "stage_at n s = Some Waiting \<and> cg_slots (gr_gate s) < cg_globalLimit (gr_gate s)")
    case True
    let ?h = "gr_holds s ! n" and ?hs = "(gr_holds s)[n := (gr_holds s ! n)\<lparr>ho_stage := Holding\<rparr>]"
    from True have n: "n < length (gr_holds s)" "ho_stage ?h = Waiting" by (simp_all add: stage_Some)
    have "holding ?hs = Suc (holding (gr_holds s))" "places k ?hs = places k (gr_holds s)" for k
      using filter_update [OF n(1), of "\<lambda>h. ho_stage h = Holding" "?h\<lparr>ho_stage := Holding\<rparr>"]
        filter_update [OF n(1), of "\<lambda>h. ho_node h = k \<and> ho_stage h \<noteq> Done" "?h\<lparr>ho_stage := Holding\<rparr>"] n(2) by auto
    then show ?thesis using assms True Grant by (simp add: gates_ok_def set_stage_def active_at_def)
  qed (use assms Grant in auto)
next
  case (GiveUp n)
  show ?thesis
  proof (cases "stage_at n s = Some Waiting")
    case True
    let ?h = "gr_holds s ! n" and ?hs = "(gr_holds s)[n := (gr_holds s ! n)\<lparr>ho_stage := Done\<rparr>]"
    from True have n: "n < length (gr_holds s)" "ho_stage ?h = Waiting" by (simp_all add: stage_Some)
    have "holding ?hs = holding (gr_holds s)" using filter_update [OF n(1), of "\<lambda>h. ho_stage h = Holding" "?h\<lparr>ho_stage := Done\<rparr>"] n(2) by simp
    then show ?thesis using assms True GiveUp leave_place [OF assms n(1)] n(2) by (simp add: gates_ok_def set_stage_def update_gate_active)
  qed (use assms GiveUp in auto)
next
  case (Release n)
  show ?thesis
  proof (cases "stage_at n s = Some Holding")
    case True
    let ?h = "gr_holds s ! n" and ?hs = "(gr_holds s)[n := (gr_holds s ! n)\<lparr>ho_stage := Done\<rparr>]"
    from True have n: "n < length (gr_holds s)" "ho_stage ?h = Holding" by (simp_all add: stage_Some)
    have h: "Suc (holding ?hs) = holding (gr_holds s)" using filter_update [OF n(1), of "\<lambda>h. ho_stage h = Holding" "?h\<lparr>ho_stage := Done\<rparr>"] n(2) by simp
    from assms have wf: "gm_wf (cg_nodeGates (gr_gate s))" and sl: "cg_slots (gr_gate s) = holding (gr_holds s)" by (simp_all add: gates_ok_def)
    let ?g = "update_gate (ho_node ?h) release_gate (gr_gate s)"
    have "release_reservation (ho_node ?h) (gr_gate s) = Some (?g\<lparr>cg_slots := holding ?hs\<rparr>)"
      using h sl by (auto simp: release_reservation_def Let_def update_gate_active(2) [OF wf])
    moreover have "active_at k (?g\<lparr>cg_slots := x\<rparr>) = active_at k ?g" for k x by (simp add: active_at_def)
    ultimately show ?thesis using assms True Release leave_place [OF assms n(1)] n(2) h sl
      by (simp add: gates_ok_def set_stage_def update_gate_active [OF wf])
  qed (use assms Release in auto)
next
  case (Report st fb)
  have "active_at k (snd (snapshotNodeCapacity st fb g)) = active_at k g" for k g
    by (auto simp: snapshotNodeCapacity_def active_at_def Let_def split: option.splits if_splits)
  then show ?thesis using assms Report by (auto simp: gates_ok_def snapshotNodeCapacity_def Let_def split: option.splits)
next
  case (Refresh i b)
  then show ?thesis using assms by (auto simp: gates_ok_def update_gate_active beginRefresh_def endRefresh_def)
qed

interpretation dg: step_system gate_step gates_ok
  by unfold_locales (rule gates_step)

lemma global_limit_step:
  assumes "gates_ok s"
  shows "cg_globalLimit (gr_gate (gate_step ev s)) = cg_globalLimit (gr_gate s)"
proof -
  have wf: "gm_wf (cg_nodeGates (gr_gate s))" using assms by (simp add: gates_ok_def)
  show ?thesis
  proof (cases ev)
    case (Reserve registry capacity cs)
    obtain r g where r: "reserve_round registry capacity 0 cs (gr_gate s) = (r, g)" by fastforce
    from reserve_round_places [OF r wf] Reserve r show ?thesis by (cases r) simp_all
  qed (auto simp: set_stage_def release_reservation_def snapshotNodeCapacity_def Let_def update_gate_active [OF wf] split: option.splits prod.splits bool.splits)
qed

lemma new_place_within_limit:
  assumes "gates_ok s" "length (gr_holds s) < length (gr_holds (gate_step ev s))"
  shows "within_limit (ho_node (last (gr_holds (gate_step ev s)))) (gr_gate (gate_step ev s))"
proof (cases ev)
  case (Reserve registry capacity cs)
  have wf: "gm_wf (cg_nodeGates (gr_gate s))" using assms(1) by (simp add: gates_ok_def)
  obtain r g where r: "reserve_round registry capacity 0 cs (gr_gate s) = (r, g)" by fastforce
  from reserve_round_places [OF r wf] assms(2) Reserve r show ?thesis by (cases "check_candidates cs"; cases r) simp_all
next
  case (Take i)
  with assms(2) show ?thesis by (auto simp: take_place_def within_limit_def split: option.splits if_splits)
qed (use assms(2) in \<open>auto simp: set_stage_def split: option.splits if_splits\<close>)


definition sample_gate_events :: "gate_event list" where
  "sample_gate_events =
     (let registry = (\<lambda>i. if i = ''n'' then Some \<lparr>ns_ID = ''n'', ns_Healthy = True, ns_Address = ''a'', ns_MaxConcurrentTasks = 2, ns_AvailableCapacity = 2, ns_ActiveTasks = 0\<rparr> else None);
          capacity = (\<lambda>_. Some (2, 2, 0)); reserve = Reserve registry capacity [\<lparr>ct_NodeID = ''n'', ct_Address = ''a''\<rparr>]
      in [reserve, reserve, reserve, Grant 0, Grant 1, Release 0, Release 0, Grant 1])"

definition sample_gate_run :: gate_run where
  "sample_gate_run = fold gate_step sample_gate_events \<lparr>gr_gate = newDispatchCapacityGate 1, gr_holds = [], gr_panicked = False\<rparr>"


end
