(* ===== verification/Consensus_Log.thy ===== *)
theory Consensus_Log
  imports Go_Text Step_System
begin

text \<open>
  The replicated state of the consensus layer (\<^verbatim>\<open>internal/consensus/fsm.go\<close>, the restart in \<^verbatim>\<open>node.go\<close>, the Raft log in
  \<^verbatim>\<open>bolt_store.go\<close> and \<^verbatim>\<open>validateIdentifier\<close> of \<^verbatim>\<open>identity.go\<close>): mutations are applied once per operation identifier, snapshots
  are written and restored, and a restarted node rebuilds its state from a snapshot and its log. The
  encodings (JSON, gob), SHA-256 and the failures of the database are parameters, collected in the
  record \<open>codec\<close>; Raft and bbolt are third-party code. A byte slice is a string, so a nil value and an
  empty one are the same.
\<close>

subsection \<open>Mutations\<close>

definition MutationPut :: string where
  "MutationPut = ''put''"

definition MutationDelete :: string where
  "MutationDelete = ''delete''"

definition maxSnapshot :: nat where
  "maxSnapshot = 256 * 2 ^ 20"

record mutation =
  mu_OperationID :: string
  mu_Kind :: string
  mu_Key :: string
  mu_Value :: string

record mutation_result =
  mr_OperationID :: string
  mr_Index :: uint64
  mr_Duplicate :: bool

record 'h applied_operation =
  ao_Fingerprint :: 'h
  ao_Index :: uint64

datatype fsm_error =
    DecodeMutation | BadIdentifier string | DeleteWithValue | UnsupportedKind string | EncodeMutation
  | PersistAppliedIndex uint64 | OperationIDReuse

record 'h state_machine =
  fs_values :: "(string, string) gomap"
  fs_operations :: "(string, 'h applied_operation) gomap"
  fs_storageErr :: "fsm_error option"

text \<open>The part of a snapshot that is encoded; a missing map is \<open>None\<close>.\<close>

record 'h state_snapshot =
  sn_Values :: "(string, string) gomap option"
  sn_Operations :: "(string, 'h applied_operation) gomap option"

datatype log_type = LogCommand | OtherLog

record 'd raft_log =
  rl_Index :: uint64
  rl_Type :: log_type
  rl_Data :: 'd

datatype trailing = EndOfFile | TrailingValue | TrailingError

record ('d, 'h, 'g) codec =
  cd_decode :: "'d \<Rightarrow> mutation option"
  cd_encode :: "mutation \<Rightarrow> string option"
  cd_hash :: "string \<Rightarrow> 'h"
  cd_gob :: "'g \<Rightarrow> 'd raft_log option"
  cd_snapshot_encode :: "'h state_snapshot \<Rightarrow> string option"
  cd_snapshot_decode :: "string \<Rightarrow> ('h state_snapshot \<times> string) option"
  cd_trailing :: "string \<Rightarrow> trailing"

definition newStateMachine :: "'h state_machine" where
  "newStateMachine = \<lparr>fs_values = [], fs_operations = [], fs_storageErr = None\<rparr>"

definition validateIdentifier :: "string \<Rightarrow> string \<Rightarrow> fsm_error option" where
  "validateIdentifier label val = (if val = [] \<or> trim_space val \<noteq> val \<or> 256 < length val then Some (BadIdentifier label) else None)"

definition validateMutation :: "mutation \<Rightarrow> fsm_error option" where
  "validateMutation mu =
     (case validateIdentifier ''operation ID'' (mu_OperationID mu) of
        Some e \<Rightarrow> Some e
      | None \<Rightarrow>
          (case validateIdentifier ''mutation key'' (mu_Key mu) of
             Some e \<Rightarrow> Some e
           | None \<Rightarrow>
               if mu_Kind mu = MutationPut then None
               else if mu_Kind mu = MutationDelete then (if mu_Value mu \<noteq> [] then Some DeleteWithValue else None)
               else Some (UnsupportedKind (mu_Kind mu))))"

subsection \<open>The Raft log on disk\<close>

text \<open>The bytes under the key of the applied index: none, eight, or anything else.\<close>

datatype applied_raw = NoIndex | BadIndex | Index uint64

record 'g bolt_store =
  bo_logs :: "(uint64, 'g) gomap"
  bo_applied :: applied_raw
  bo_writable :: bool

datatype store_error = LogNotFound | UndecodableLog uint64 | InvalidAppliedIndex | DatabaseError

text \<open>Keys are big-endian, so the last key is the greatest index.\<close>

definition LastIndex :: "'g bolt_store \<Rightarrow> uint64" where
  "LastIndex s = fold max (map fst (bo_logs s)) 0"

definition GetLog :: "('d, 'h, 'g) codec \<Rightarrow> 'g bolt_store \<Rightarrow> uint64 \<Rightarrow> store_error + 'd raft_log" where
  "GetLog cd s index =
     (case gm_get (bo_logs s) index of
        None \<Rightarrow> Inl LogNotFound
      | Some raw \<Rightarrow> (case cd_gob cd raw of None \<Rightarrow> Inl (UndecodableLog index) | Some entry \<Rightarrow> Inr entry))"

definition RecordAppliedIndex :: "uint64 \<Rightarrow> 'g bolt_store \<Rightarrow> store_error option \<times> 'g bolt_store" where
  "RecordAppliedIndex index s =
     (if \<not> bo_writable s then (Some DatabaseError, s)
      else case bo_applied s of
             BadIndex \<Rightarrow> (Some InvalidAppliedIndex, s)
           | Index old \<Rightarrow> if index \<le> old then (None, s) else (None, s\<lparr>bo_applied := Index index\<rparr>)
           | NoIndex \<Rightarrow> (None, s\<lparr>bo_applied := Index index\<rparr>))"

definition GetAppliedIndex :: "'g bolt_store \<Rightarrow> store_error + uint64" where
  "GetAppliedIndex s =
     (case bo_applied s of
        BadIndex \<Rightarrow> Inl InvalidAppliedIndex
      | NoIndex \<Rightarrow> Inr 0
      | Index i \<Rightarrow> Inr (if LastIndex s < i then LastIndex s else i))"

subsection \<open>Applying a committed entry\<close>

type_synonym fsm_response = "fsm_error + mutation_result"

text \<open>The index is recorded in the store before the entry takes effect.\<close>

definition Apply ::
  "('d, 'h, 'g) codec \<Rightarrow> 'd raft_log \<Rightarrow> 'h state_machine \<times> 'g bolt_store \<Rightarrow> fsm_response option \<times> 'h state_machine \<times> 'g bolt_store" where
  "Apply cd entry = (\<lambda>(f, s).
     if rl_Type entry \<noteq> LogCommand then (None, f, s)
     else case cd_decode cd (rl_Data entry) of
       None \<Rightarrow> (Some (Inl DecodeMutation), f, s)
     | Some mu \<Rightarrow>
         (case validateMutation mu of
            Some e \<Rightarrow> (Some (Inl e), f, s)
          | None \<Rightarrow>
              (case cd_encode cd mu of
                 None \<Rightarrow> (Some (Inl EncodeMutation), f, s)
               | Some raw \<Rightarrow>
                   (case fs_storageErr f of
                      Some e \<Rightarrow> (Some (Inl e), f, s)
                    | None \<Rightarrow>
                        (case RecordAppliedIndex (rl_Index entry) s of
                           (Some _, s1) \<Rightarrow>
                             (Some (Inl (PersistAppliedIndex (rl_Index entry))), f\<lparr>fs_storageErr := Some (PersistAppliedIndex (rl_Index entry))\<rparr>, s1)
                         | (None, s1) \<Rightarrow>
                             (case gm_get (fs_operations f) (mu_OperationID mu) of
                                Some previous \<Rightarrow>
                                  if ao_Fingerprint previous \<noteq> cd_hash cd raw then (Some (Inl OperationIDReuse), f, s1)
                                  else (Some (Inr \<lparr>mr_OperationID = mu_OperationID mu, mr_Index = ao_Index previous, mr_Duplicate = True\<rparr>), f, s1)
                              | None \<Rightarrow>
                                  (Some (Inr \<lparr>mr_OperationID = mu_OperationID mu, mr_Index = rl_Index entry, mr_Duplicate = False\<rparr>),
                                   f\<lparr>fs_values := (if mu_Kind mu = MutationPut then gm_put (mu_Key mu) (mu_Value mu) (fs_values f)
                                                  else gm_del (mu_Key mu) (fs_values f)),
                                     fs_operations := gm_put (mu_OperationID mu)
                                       \<lparr>ao_Fingerprint = cd_hash cd raw, ao_Index = rl_Index entry\<rparr> (fs_operations f)\<rparr>, s1)))))))"

definition Read :: "'h state_machine \<Rightarrow> string \<Rightarrow> string option" where
  "Read f key = gm_get (fs_values f) key"

subsection \<open>Snapshots\<close>

definition take_snapshot :: "'h state_machine \<Rightarrow> 'h state_snapshot" where
  "take_snapshot f = \<lparr>sn_Values = Some (fs_values f), sn_Operations = Some (fs_operations f)\<rparr>"

datatype snapshot_error = ReadSnapshot | SnapshotTooLarge | DecodeSnapshot | TrailingData | DecodeTrailing | EncodeSnapshot | WriteSnapshot | CloseSnapshot

text \<open>What the sink holds afterwards; a cancelled sink holds nothing.\<close>

definition Persist :: "('d, 'h, 'g) codec \<Rightarrow> bool \<Rightarrow> bool \<Rightarrow> 'h state_snapshot \<Rightarrow> snapshot_error + string" where
  "Persist cd writes closes sn =
     (case cd_snapshot_encode cd sn of
        None \<Rightarrow> Inl EncodeSnapshot
      | Some raw \<Rightarrow> if \<not> writes then Inl WriteSnapshot else if \<not> closes then Inl CloseSnapshot else Inr raw)"

text \<open>The content is \<open>None\<close> when reading fails. At most \<open>maxSnapshot + 1\<close> bytes are read.\<close>

definition Restore :: "('d, 'h, 'g) codec \<Rightarrow> string option \<Rightarrow> 'h state_machine \<Rightarrow> snapshot_error + 'h state_machine" where
  "Restore cd content f =
     (case content of
        None \<Rightarrow> Inl ReadSnapshot
      | Some c \<Rightarrow>
          (let raw = take (maxSnapshot + 1) c
           in if maxSnapshot < length raw then Inl SnapshotTooLarge
              else case cd_snapshot_decode cd raw of
                     None \<Rightarrow> Inl DecodeSnapshot
                   | Some (sn, rest) \<Rightarrow>
                       (case cd_trailing cd rest of
                          TrailingValue \<Rightarrow> Inl TrailingData
                        | TrailingError \<Rightarrow> Inl DecodeTrailing
                        | EndOfFile \<Rightarrow>
                            Inr (f\<lparr>fs_values := (case sn_Values sn of None \<Rightarrow> [] | Some v \<Rightarrow> v),
                                   fs_operations := (case sn_Operations sn of None \<Rightarrow> [] | Some v \<Rightarrow> v)\<rparr>))))"

subsection \<open>Restart\<close>

record snapshot_meta =
  sm_ID :: string
  sm_Index :: uint64

datatype restart_error = ListSnapshots | NoUsableSnapshot | ReadAppliedIndex store_error | ReadCommittedLog uint64 store_error

text \<open>The newest snapshot that opens and restores; \<open>opener\<close> stands for \<^verbatim>\<open>snapshots.Open\<close> and gives the index of the opened snapshot and its content.\<close>

fun restore_newest ::
  "('d, 'h, 'g) codec \<Rightarrow> (string \<Rightarrow> (uint64 \<times> string option) option) \<Rightarrow> snapshot_meta list \<Rightarrow> 'h state_machine \<Rightarrow> (uint64 \<times> 'h state_machine) option" where
  "restore_newest cd opener [] f = None"
| "restore_newest cd opener (meta # metas) f =
     (case opener (sm_ID meta) of
        None \<Rightarrow> restore_newest cd opener metas f
      | Some (index, content) \<Rightarrow>
          (case Restore cd content f of Inl _ \<Rightarrow> restore_newest cd opener metas f | Inr f1 \<Rightarrow> Some (index, f1)))"

text \<open>The replay loop counts in 64 bits and ends when the counter passes the applied index; it would not end at the greatest index.\<close>

partial_function (option) replay ::
  "('d, 'h, 'g) codec \<Rightarrow> uint64 \<Rightarrow> uint64 \<Rightarrow> 'h state_machine \<times> 'g bolt_store \<Rightarrow> (restart_error + 'h state_machine \<times> 'g bolt_store) option" where
  "replay cd index appliedIndex fs =
     (if \<not> index \<le> appliedIndex then Some (Inr fs)
      else case GetLog cd (snd fs) index of
             Inl e \<Rightarrow> Some (Inl (ReadCommittedLog index e))
           | Inr entry \<Rightarrow> replay cd (index + 1) appliedIndex (snd (Apply cd entry fs)))"

definition restoreApplicationState ::
  "('d, 'h, 'g) codec \<Rightarrow> snapshot_meta list option \<Rightarrow> (string \<Rightarrow> (uint64 \<times> string option) option) \<Rightarrow> 'h state_machine \<times> 'g bolt_store \<Rightarrow>
     (restart_error + 'h state_machine \<times> 'g bolt_store) option" where
  "restoreApplicationState cd metadata opener = (\<lambda>(f, s).
     case metadata of
       None \<Rightarrow> Some (Inl ListSnapshots)
     | Some metas \<Rightarrow>
         (case (if metas = [] then Some (0, f) else restore_newest cd opener (rev (sort_key sm_Index metas)) f) of
            None \<Rightarrow> Some (Inl NoUsableSnapshot)
          | Some (snapshotIndex, f1) \<Rightarrow>
              (case GetAppliedIndex s of
                 Inl e \<Rightarrow> Some (Inl (ReadAppliedIndex e))
               | Inr appliedIndex \<Rightarrow>
                   replay cd (snapshotIndex + 1) (if LastIndex s < appliedIndex then LastIndex s else appliedIndex) (f1, s))))"

subsection \<open>What an entry does\<close>

text \<open>The mutation of an entry and its encoding, when the entry is a valid command.\<close>

definition command :: "('d, 'h, 'g) codec \<Rightarrow> 'd raft_log \<Rightarrow> (mutation \<times> string) option" where
  "command cd e =
     (if rl_Type e \<noteq> LogCommand then None
      else case cd_decode cd (rl_Data e) of
             None \<Rightarrow> None
           | Some mu \<Rightarrow> if validateMutation mu = None then map_option (Pair mu) (cd_encode cd mu) else None)"

definition execute :: "('d, 'h, 'g) codec \<Rightarrow> 'd raft_log \<Rightarrow> mutation \<Rightarrow> string \<Rightarrow> 'h state_machine \<Rightarrow> 'h state_machine" where
  "execute cd e mu raw f = f\<lparr>fs_values := (if mu_Kind mu = MutationPut then gm_put (mu_Key mu) (mu_Value mu) (fs_values f) else gm_del (mu_Key mu) (fs_values f)),
     fs_operations := gm_put (mu_OperationID mu) \<lparr>ao_Fingerprint = cd_hash cd raw, ao_Index = rl_Index e\<rparr> (fs_operations f)\<rparr>"

definition effect :: "('d, 'h, 'g) codec \<Rightarrow> 'd raft_log \<Rightarrow> 'h state_machine \<Rightarrow> 'h state_machine" where
  "effect cd e f =
     (case command cd e of
        None \<Rightarrow> f
      | Some (mu, raw) \<Rightarrow> if gm_get (fs_operations f) (mu_OperationID mu) \<noteq> None then f else execute cd e mu raw f)"

definition record_index :: "('d, 'h, 'g) codec \<Rightarrow> 'd raft_log \<Rightarrow> 'g bolt_store \<Rightarrow> 'g bolt_store" where
  "record_index cd e s = (if command cd e = None then s else snd (RecordAppliedIndex (rl_Index e) s))"

definition store_ready :: "'g bolt_store \<Rightarrow> bool" where
  "store_ready s \<longleftrightarrow> bo_writable s \<and> bo_applied s \<noteq> BadIndex"

lemma record_ready:
  assumes "store_ready s"
  shows "fst (RecordAppliedIndex i s) = None" "store_ready (snd (RecordAppliedIndex i s))" "bo_logs (snd (RecordAppliedIndex i s)) = bo_logs s"
  using assms by (auto simp: store_ready_def RecordAppliedIndex_def split: applied_raw.splits)

lemma Apply_idle: "command cd e = None \<Longrightarrow> snd (Apply cd e (f, s)) = (f, s)"
  by (auto simp: command_def Apply_def split: option.splits if_splits)

lemma Apply_command:
  assumes "command cd e = Some (mu, raw)" "fs_storageErr f = None" "store_ready s"
  shows "Apply cd e (f, s) =
    (case gm_get (fs_operations f) (mu_OperationID mu) of
       Some previous \<Rightarrow>
         (Some (if ao_Fingerprint previous \<noteq> cd_hash cd raw then Inl OperationIDReuse
                else Inr \<lparr>mr_OperationID = mu_OperationID mu, mr_Index = ao_Index previous, mr_Duplicate = True\<rparr>), f, snd (RecordAppliedIndex (rl_Index e) s))
     | None \<Rightarrow>
         (Some (Inr \<lparr>mr_OperationID = mu_OperationID mu, mr_Index = rl_Index e, mr_Duplicate = False\<rparr>), execute cd e mu raw f,
          snd (RecordAppliedIndex (rl_Index e) s)))"
proof -
  obtain s1 where r: "RecordAppliedIndex (rl_Index e) s = (None, s1)" using record_ready(1) [OF assms(3), of "rl_Index e"] by (metis prod.collapse)
  from assms(1) have c: "rl_Type e = LogCommand" "cd_decode cd (rl_Data e) = Some mu" "validateMutation mu = None" "cd_encode cd mu = Some raw"
    by (auto simp: command_def split: if_splits option.splits)
  show ?thesis unfolding Apply_def execute_def by (auto simp: c r assms(2) split: option.splits)
qed

lemma effect_storageErr [simp]: "fs_storageErr (effect cd e f) = fs_storageErr f"
  by (simp add: effect_def execute_def split: option.splits)

lemma record_index_ready: "store_ready s \<Longrightarrow> store_ready (record_index cd e s)" "store_ready s \<Longrightarrow> bo_logs (record_index cd e s) = bo_logs s"
  by (simp_all add: record_index_def record_ready)

lemma Apply_effect:
  assumes "fs_storageErr f = None" "store_ready s"
  shows "snd (Apply cd e (f, s)) = (effect cd e f, record_index cd e s)"
proof (cases "command cd e")
  case None
  then show ?thesis by (simp add: Apply_idle effect_def record_index_def)
next
  case (Some x)
  obtain mu raw where x: "x = (mu, raw)" by fastforce
  with Apply_command [OF _ assms, of cd e mu raw] Some show ?thesis
    by (auto simp: effect_def record_index_def split: option.splits)
qed

abbreviation run :: "('d, 'h, 'g) codec \<Rightarrow> 'd raft_log list \<Rightarrow> 'h state_machine \<times> 'g bolt_store \<Rightarrow> 'h state_machine \<times> 'g bolt_store" where
  "run cd es \<equiv> fold (\<lambda>e x. snd (Apply cd e x)) es"

lemma run_effect:
  "fs_storageErr f = None \<Longrightarrow> store_ready s \<Longrightarrow> run cd es (f, s) = (fold (effect cd) es f, fold (record_index cd) es s)"
  by (induction es arbitrary: f s) (simp_all add: Apply_effect record_index_ready)

subsection \<open>Once per operation\<close>

lemma operations_kept:
  "gm_get (fs_operations f) i = Some a \<Longrightarrow> gm_get (fs_operations (fst (snd (Apply cd e (f, s))))) i = Some a"
  by (auto simp: Apply_def split: option.splits prod.splits)

text \<open>The histories of a state machine and its store.\<close>

interpretation hist: step_system "\<lambda>e x. snd (Apply cd e x)" "\<lambda>_. True" for cd
  by unfold_locales simp

lemma operations_kept_run:
  assumes "gm_get (fs_operations f) i = Some a"
  shows "gm_get (fs_operations (fst (run cd es (f, s)))) i = Some a"
proof (rule hist.kept_run [where P = "\<lambda>x. gm_get (fs_operations (fst x)) i = Some a" and Q = "\<lambda>_. True"])
  show "gm_get (fs_operations (fst (snd (Apply cd e x)))) i = Some a" if "gm_get (fs_operations (fst x)) i = Some a" for x e
    using that operations_kept [of "fst x" i a cd e "snd x"] by simp
qed (use assms in simp_all)

lemma Apply_accepted:
  assumes "Apply cd e (f, s) = (Some (Inr r), f1, s1)" "command cd e = Some (mu, raw)"
  shows "gm_get (fs_operations f1) (mu_OperationID mu) = Some \<lparr>ao_Fingerprint = cd_hash cd raw, ao_Index = mr_Index r\<rparr>"
proof -
  from assms(2) have c: "rl_Type e = LogCommand" "cd_decode cd (rl_Data e) = Some mu" "validateMutation mu = None" "cd_encode cd mu = Some raw"
    by (auto simp: command_def split: if_splits option.splits)
  from assms(1) show ?thesis unfolding Apply_def by (auto simp: c split: option.splits prod.splits if_splits)
qed

text \<open>C29: an operation takes effect once. After an entry was accepted, any later entry with the same operation identifier, whatever was applied
  in between, leaves the state as it is: with the same mutation it is answered with the index of the first one and marked as a duplicate, with another
  mutation (one whose fingerprint differs) it is refused.\<close>

theorem operation_applied_once:
  assumes "Apply cd e (f, s) = (Some (Inr r), f1, s1)" "command cd e = Some (mu, raw)" "run cd es (f1, s1) = (f2, s2)"
    "command cd e' = Some (mu', raw')" "mu_OperationID mu' = mu_OperationID mu" "fs_storageErr f2 = None" "store_ready s2"
  shows "Apply cd e' (f2, s2) =
    (Some (if cd_hash cd raw = cd_hash cd raw' then Inr \<lparr>mr_OperationID = mu_OperationID mu, mr_Index = mr_Index r, mr_Duplicate = True\<rparr>
           else Inl OperationIDReuse), f2, snd (RecordAppliedIndex (rl_Index e') s2))"
proof -
  have "gm_get (fs_operations f2) (mu_OperationID mu) = Some \<lparr>ao_Fingerprint = cd_hash cd raw, ao_Index = mr_Index r\<rparr>"
    using operations_kept_run [OF Apply_accepted [OF assms(1,2)], of cd es s1] assms(3) by simp
  with Apply_command [OF assms(4,6,7)] assms(5) show ?thesis by simp
qed

subsection \<open>Replaying a log\<close>

definition settled :: "('d, 'h, 'g) codec \<Rightarrow> 'h state_machine \<Rightarrow> 'd raft_log \<Rightarrow> bool" where
  "settled cd f e \<longleftrightarrow> (case command cd e of None \<Rightarrow> True | Some (mu, _) \<Rightarrow> gm_get (fs_operations f) (mu_OperationID mu) \<noteq> None)"

lemma settled_effect: "settled cd f e \<Longrightarrow> effect cd e f = f"
  by (auto simp: settled_def effect_def split: option.splits)

lemma effect_settles: "settled cd (effect cd e f) e" "settled cd f e' \<Longrightarrow> settled cd (effect cd e f) e'"
  by (auto simp: settled_def effect_def execute_def split: option.splits prod.splits)

lemma run_settles: "settled cd f e' \<Longrightarrow> settled cd (fold (effect cd) es f) e'" "e \<in> set es \<Longrightarrow> settled cd (fold (effect cd) es f) e"
proof -
  have kept: "settled cd f e' \<Longrightarrow> settled cd (fold (effect cd) es f) e'" for f es e'
    by (induction es arbitrary: f) (simp_all add: effect_settles(2))
  then show "settled cd f e' \<Longrightarrow> settled cd (fold (effect cd) es f) e'" .
  show "e \<in> set es \<Longrightarrow> settled cd (fold (effect cd) es f) e" by (induction es arbitrary: f) (auto intro: kept effect_settles(1))
qed

lemma settled_run: "\<forall>e \<in> set es. settled cd f e \<Longrightarrow> fold (effect cd) es f = f"
  by (induction es) (simp_all add: settled_effect)

lemma idle_run: "\<forall>e \<in> set es. command cd e = None \<Longrightarrow> fold (effect cd) es f = f"
  by (rule settled_run) (simp add: settled_def)

text \<open>The applied index that a run leaves is below the last entry and not below any command.\<close>

definition applied_index :: "'g bolt_store \<Rightarrow> uint64" where
  "applied_index s = (case bo_applied s of Index i \<Rightarrow> i | _ \<Rightarrow> 0)"

lemma record_applied: "store_ready s \<Longrightarrow> applied_index (snd (RecordAppliedIndex i s)) = max i (applied_index s)"
  by (auto simp: store_ready_def RecordAppliedIndex_def applied_index_def max_def not_le split: applied_raw.splits)

lemma run_applied:
  "store_ready s \<Longrightarrow> applied_index s \<le> m \<Longrightarrow> \<forall>e \<in> set es. rl_Index e \<le> m \<Longrightarrow>
     store_ready (fold (record_index cd) es s) \<and> bo_logs (fold (record_index cd) es s) = bo_logs s \<and>
     applied_index s \<le> applied_index (fold (record_index cd) es s) \<and> applied_index (fold (record_index cd) es s) \<le> m \<and>
     (\<forall>e \<in> set es. command cd e \<noteq> None \<longrightarrow> rl_Index e \<le> applied_index (fold (record_index cd) es s))"
proof (induction es arbitrary: s)
  case (Cons e es)
  let ?s = "record_index cd e s"
  have s: "store_ready ?s" "bo_logs ?s = bo_logs s" using Cons.prems(1) by (simp_all add: record_index_ready)
  have a: "applied_index ?s = (if command cd e = None then applied_index s else max (rl_Index e) (applied_index s))"
    using Cons.prems(1) by (simp add: record_index_def record_applied)
  then have "applied_index ?s \<le> m" using Cons.prems by auto
  with Cons.IH [OF s(1)] Cons.prems(3) s(2) a show ?case by (auto split: if_splits intro: order_trans)
qed simp

lemma fold_max_ge: "x \<in> set xs \<or> x \<le> y \<Longrightarrow> x \<le> fold max xs (y :: 'a :: linorder)"
proof (induction xs arbitrary: y)
  case (Cons a xs)
  then have "x \<in> set xs \<or> x \<le> max a y" by (auto simp: le_max_iff_disj)
  then show ?case using Cons.IH by simp
qed simp

lemma LastIndex_ge: "i \<in> gm_keys (bo_logs s) \<Longrightarrow> i \<le> LastIndex s"
  unfolding LastIndex_def by (rule fold_max_ge) simp

lemma unat_of_nat_lt: "n < 2 ^ 64 \<Longrightarrow> unat (word_of_nat n :: uint64) = n"
  by (simp add: unat_of_nat take_bit_nat_eq_self)

text \<open>The replay loop runs over the entries after the snapshot, up to the applied index.\<close>

lemma replay_run:
  assumes "fs_storageErr f = None" "store_ready s" "j + length es < 2 ^ 64 - 1"
    "\<forall>x < length es. GetLog cd s (word_of_nat (Suc (j + x))) = Inr (es ! x)"
  shows "replay cd (word_of_nat (Suc j)) (word_of_nat (j + length es)) (f, s) = Some (Inr (fold (effect cd) es f, fold (record_index cd) es s))"
  using assms
proof (induction es arbitrary: f s j)
  case Nil
  have "\<not> (word_of_nat (Suc j) :: uint64) \<le> word_of_nat j" using Nil.prems(3) by (simp add: word_le_nat_alt unat_of_nat_lt del: of_nat_Suc)
  then show ?case by (subst replay.simps) simp
next
  case (Cons e es)
  let ?s = "record_index cd e s" and ?f = "effect cd e f"
  have le: "(word_of_nat (Suc j) :: uint64) \<le> word_of_nat (j + length (e # es))"
    using Cons.prems(3) by (simp add: word_le_nat_alt unat_of_nat_lt del: of_nat_Suc of_nat_add)
  have "GetLog cd s (word_of_nat (Suc j)) = Inr e" using Cons.prems(4) by (metis add.right_neutral length_greater_0_conv list.distinct(1) nth_Cons_0)
  moreover have "snd (Apply cd e (f, s)) = (?f, ?s)" by (rule Apply_effect [OF Cons.prems(1,2)])
  moreover have "GetLog cd ?s i = GetLog cd s i" for i using record_index_ready(2) [OF Cons.prems(2), of cd e] by (simp add: GetLog_def)
  then have "\<forall>x < length es. GetLog cd ?s (word_of_nat (Suc (Suc j + x))) = Inr (es ! x)" using Cons.prems(4) by force
  with Cons.IH [of ?f ?s "Suc j"] Cons.prems record_index_ready(1) [OF Cons.prems(2), of cd e]
  have "replay cd (word_of_nat (Suc (Suc j))) (word_of_nat (Suc j + length es)) (?f, ?s) = Some (Inr (fold (effect cd) es ?f, fold (record_index cd) es ?s))" by simp
  ultimately show ?case using le by (subst replay.simps) (simp add: algebra_simps)
qed

subsection \<open>A restarted node\<close>

definition faithful_snapshots :: "('d, 'h, 'g) codec \<Rightarrow> bool" where
  "faithful_snapshots cd \<longleftrightarrow>
     (\<forall>sn c. cd_snapshot_encode cd sn = Some c \<longrightarrow> (\<exists>rest. cd_snapshot_decode cd c = Some (sn, rest) \<and> cd_trailing cd rest = EndOfFile))"

text \<open>The snapshot store holds nothing, or its newest snapshot that can be opened was written from the given state at the given index.\<close>

definition newest_snapshot ::
  "('d, 'h, 'g) codec \<Rightarrow> (string \<Rightarrow> (uint64 \<times> string option) option) \<Rightarrow> snapshot_meta list \<Rightarrow> nat \<Rightarrow> 'h state_machine \<Rightarrow> bool" where
  "newest_snapshot cd opener metas k f \<longleftrightarrow>
     metas = [] \<and> k = 0 \<or>
     (\<exists>bad m older c. rev (sort_key sm_Index metas) = bad @ m # older \<and> (\<forall>b \<in> set bad. opener (sm_ID b) = None) \<and>
        opener (sm_ID m) = Some (word_of_nat k, Some c) \<and> Persist cd True True (take_snapshot f) = Inr c \<and> length c \<le> maxSnapshot)"

lemma Restore_Persist:
  assumes "faithful_snapshots cd" "Persist cd True True (take_snapshot f) = Inr c" "length c \<le> maxSnapshot"
  shows "Restore cd (Some c) g = Inr (g\<lparr>fs_values := fs_values f, fs_operations := fs_operations f\<rparr>)"
proof -
  have "cd_snapshot_encode cd (take_snapshot f) = Some c" using assms(2) by (simp add: Persist_def split: option.splits)
  with assms(1) obtain rest where "cd_snapshot_decode cd c = Some (take_snapshot f, rest)" "cd_trailing cd rest = EndOfFile"
    unfolding faithful_snapshots_def by blast
  with assms(3) show ?thesis by (simp add: Restore_def Let_def take_snapshot_def)
qed

lemma restore_newest_found:
  "\<forall>b \<in> set bad. opener (sm_ID b) = None \<Longrightarrow> opener (sm_ID m) = Some (i, c) \<Longrightarrow> Restore cd c f = Inr f1 \<Longrightarrow>
     restore_newest cd opener (bad @ m # older) f = Some (i, f1)"
  by (induction bad) simp_all

lemma restored_snapshot:
  assumes "faithful_snapshots cd" "newest_snapshot cd opener metas k f" "fs_storageErr f = None" "k = 0 \<Longrightarrow> f = newStateMachine"
  shows "(if metas = [] then Some (0, newStateMachine) else restore_newest cd opener (rev (sort_key sm_Index metas)) newStateMachine) = Some (word_of_nat k, f)"
proof -
  have "newStateMachine\<lparr>fs_values := fs_values f, fs_operations := fs_operations f\<rparr> = f" using assms(3) by (cases f) (simp add: newStateMachine_def)
  with assms(2,4) Restore_Persist [OF assms(1), of f _ newStateMachine] show ?thesis
    unfolding newest_snapshot_def by (auto simp: restore_newest_found)
qed

lemma GetAppliedIndex_ready:
  "store_ready s \<Longrightarrow> GetAppliedIndex s = Inr (if LastIndex s < applied_index s then LastIndex s else applied_index s)"
  by (auto simp: store_ready_def GetAppliedIndex_def applied_index_def split: applied_raw.splits)

text \<open>A log: the entry at every position carries its position as its index.\<close>

abbreviation log_part :: "(nat \<Rightarrow> 'd raft_log) \<Rightarrow> nat \<Rightarrow> nat \<Rightarrow> 'd raft_log list" where
  "log_part log j n \<equiv> map log [Suc j..<Suc n]"

lemma log_part_append: "j \<le> k \<Longrightarrow> k \<le> n \<Longrightarrow> log_part log j n = log_part log j k @ log_part log k n"
  using upt_add_eq_append [of "Suc j" "Suc k" "n - k"] by (simp del: upt_Suc flip: map_append)

lemma log_part_set: "set (log_part log j n) = log ` {j<..n}"
  by (auto simp del: upt_Suc)

lemma replay_restores:
  assumes "n < 2 ^ 64 - 1" "k \<le> n" "\<forall>i. rl_Index (log i) = word_of_nat i" "fs_storageErr f = None" "store_ready s"
    "\<forall>i. k < i \<longrightarrow> i \<le> n \<longrightarrow> GetLog cd s (word_of_nat i) = Inr (log i)"
    "applied_index s \<le> word_of_nat n" "\<forall>e \<in> set (log_part log k n). command cd e \<noteq> None \<longrightarrow> rl_Index e \<le> applied_index s"
    "a = (if LastIndex s < applied_index s then LastIndex s else applied_index s)"
  shows "\<exists>s'. replay cd (word_of_nat k + 1) a (f, s) = Some (Inr (fold (effect cd) (log_part log k n) f, s')) \<and> store_ready s'"
proof -
  have u: "unat (word_of_nat i :: uint64) = i" if "i \<le> n" for i using that assms(1) by (intro unat_of_nat_lt) simp
  have k1: "(word_of_nat k + 1 :: uint64) = word_of_nat (Suc k)" by simp
  have uk: "unat (word_of_nat (Suc k) :: uint64) = Suc k" using assms(1,2) by (intro unat_of_nat_lt) simp
  have an: "unat (applied_index s) \<le> n" using assms(7) u [of n] by (simp add: word_le_nat_alt)
  have a: "a = applied_index s" if "k < n"
  proof -
    have "GetLog cd s (word_of_nat n) = Inr (log n)" using assms(6) that by blast
    then have "word_of_nat n \<in> gm_keys (bo_logs s)" by (auto simp: GetLog_def intro: domI split: option.splits) (metis gm_get_None option.distinct(1))
    then have "word_of_nat n \<le> LastIndex s" by (rule LastIndex_ge)
    then show ?thesis using assms(7,9) by (meson leD order_trans)
  qed
  define b where "b = unat a"
  have bn: "b \<le> n" using an assms(9) unfolding b_def by (auto simp: word_less_nat_alt)
  have ab: "a = word_of_nat b" by (simp add: b_def)
  have idle: "fold (effect cd) (log_part log (max k b) n) g = g" for g
  proof (rule idle_run, rule ballI, rule ccontr)
    fix e assume e: "e \<in> set (log_part log (max k b) n)" "command cd e \<noteq> None"
    then obtain i where i: "e = log i" "max k b < i" "i \<le> n" unfolding log_part_set by auto
    then have "rl_Index e \<le> applied_index s" using assms(8) e(2) unfolding log_part_set by auto
    then show False using a i u [of i] assms(3) by (simp add: word_le_nat_alt b_def)
  qed
  show ?thesis
  proof (cases "k < b")
    case True
    have "replay cd (word_of_nat (Suc k)) (word_of_nat (k + length (log_part log k b))) (f, s) =
        Some (Inr (fold (effect cd) (log_part log k b) f, fold (record_index cd) (log_part log k b) s))"
      by (rule replay_run [OF assms(4,5)]) (use assms(1,6) True bn in \<open>auto simp del: upt_Suc of_nat_Suc of_nat_add\<close>)
    moreover have "fold (effect cd) (log_part log k n) f = fold (effect cd) (log_part log k b) f"
      using log_part_append [of k b n log] idle True bn by (simp add: max_def del: upt_Suc)
    moreover have "store_ready (fold (record_index cd) (log_part log k b) s)"
      using run_applied [OF assms(5), of "- 1" "log_part log k b" cd] by (simp del: upt_Suc)
    ultimately show ?thesis using ab k1 True by (simp del: upt_Suc of_nat_Suc)
  next
    case False
    then have "\<not> word_of_nat (Suc k) \<le> a" using uk by (simp add: word_le_nat_alt b_def del: of_nat_Suc)
    then show ?thesis using idle [of f] False assms(5) unfolding k1 by (subst replay.simps) (simp add: max_def del: upt_Suc of_nat_Suc)
  qed
qed

text \<open>C30: a restarted node has the state it had before. Take a node that has applied the first n entries of a log, with every index recorded, and whose newest
  readable snapshot was taken after the first k of them (or that has none, and k is 0), and whose log still holds the entries after k. Restoring the
  snapshot and replaying the log up to the recorded index ends and yields exactly the state machine before the restart, and when Raft applies
  the entries after the snapshot again, nothing changes.\<close>

theorem restart_restores_state:
  assumes "faithful_snapshots cd" "n < 2 ^ 64 - 1" "k \<le> n" "\<forall>i. rl_Index (log i) = word_of_nat i"
    "bo_writable s" "bo_applied s = NoIndex" "\<forall>i. k < i \<longrightarrow> i \<le> n \<longrightarrow> GetLog cd s (word_of_nat i) = Inr (log i)"
    "newest_snapshot cd opener metas k (fst (run cd (log_part log 0 k) (newStateMachine, s)))"
  shows "\<exists>s'. restoreApplicationState cd (Some metas) opener (newStateMachine, snd (run cd (log_part log 0 n) (newStateMachine, s))) =
      Some (Inr (fst (run cd (log_part log 0 n) (newStateMachine, s)), s')) \<and>
    fst (run cd (log_part log k n) (fst (run cd (log_part log 0 n) (newStateMachine, s)), s')) = fst (run cd (log_part log 0 n) (newStateMachine, s))"
proof -
  have s: "store_ready s" "applied_index s = 0" using assms(5,6) by (simp_all add: store_ready_def applied_index_def)
  define fk where "fk = fold (effect cd) (log_part log 0 k) newStateMachine"
  define fn where "fn = fold (effect cd) (log_part log 0 n) newStateMachine"
  define sn where "sn = fold (record_index cd) (log_part log 0 n) s"
  have err: "fs_storageErr (fold (effect cd) es g) = fs_storageErr g" for es g by (induction es arbitrary: g) simp_all
  have new: "fs_storageErr newStateMachine = None" by (simp add: newStateMachine_def)
  have r: "run cd es (newStateMachine, s) = (fold (effect cd) es newStateMachine, fold (record_index cd) es s)" for es by (rule run_effect [OF new s(1)])
  have fn: "fn = fold (effect cd) (log_part log k n) fk" using log_part_append [of 0 k n log] assms(3) by (simp add: fn_def fk_def del: upt_Suc)
  have small: "\<forall>e \<in> set (log_part log 0 n). rl_Index e \<le> word_of_nat n"
    using assms(2,4) by (auto simp: word_le_nat_alt unat_of_nat_lt simp del: upt_Suc)
  have "applied_index s \<le> word_of_nat n" using s(2) by simp
  note ra = run_applied [OF s(1) this small, of cd, folded sn_def]
  have logs: "\<forall>i. k < i \<longrightarrow> i \<le> n \<longrightarrow> GetLog cd sn (word_of_nat i) = Inr (log i)" using assms(7) ra by (simp add: GetLog_def)
  have cmd: "\<forall>e \<in> set (log_part log k n). command cd e \<noteq> None \<longrightarrow> rl_Index e \<le> applied_index sn" using ra unfolding log_part_set by auto
  have fkn: "fs_storageErr fk = None" by (simp add: fk_def err new)
  have snap: "(if metas = [] then Some (0, newStateMachine) else restore_newest cd opener (rev (sort_key sm_Index metas)) newStateMachine) = Some (word_of_nat k, fk)"
    by (rule restored_snapshot [OF assms(1) _ fkn]) (use assms(8) in \<open>simp_all add: r fk_def\<close>)
  obtain s' where s': "replay cd (word_of_nat k + 1) (if LastIndex sn < applied_index sn then LastIndex sn else applied_index sn) (fk, sn) = Some (Inr (fn, s'))"
    "store_ready s'" using replay_restores [OF assms(2,3,4) fkn _ logs _ cmd refl] ra unfolding fn by blast
  have "fs_storageErr fn = None" by (simp add: fn_def err new)
  then have "run cd (log_part log k n) (fn, s') = (fold (effect cd) (log_part log k n) fn, fold (record_index cd) (log_part log k n) s')"
    by (rule run_effect [OF _ s'(2)])
  moreover have "fold (effect cd) (log_part log k n) fn = fn" by (rule settled_run) (auto simp: fn intro: run_settles(2) simp del: upt_Suc)
  moreover have "restoreApplicationState cd (Some metas) opener (newStateMachine, sn) = Some (Inr (fn, s'))"
    using s'(1) ra unfolding restoreApplicationState_def by (auto simp: snap GetAppliedIndex_ready)
  ultimately show ?thesis unfolding r fn_def [symmetric] sn_def [symmetric] by auto
qed

subsection \<open>Sample histories\<close>

definition sample_entry :: "nat \<Rightarrow> mutation raft_log" where
  "sample_entry i = \<lparr>rl_Index = word_of_nat i, rl_Type = LogCommand,
     rl_Data = \<lparr>mu_OperationID = (if i = 1 then ''a'' else ''b''), mu_Kind = ''put'', mu_Key = ''k'', mu_Value = (if i = 1 then ''x'' else ''y'')\<rparr>\<rparr>"

definition sample_state :: "string state_machine" where
  "sample_state = \<lparr>fs_values = [(''k'', ''x'')], fs_operations = [(''a'', \<lparr>ao_Fingerprint = ''aputkx'', ao_Index = 1\<rparr>)], fs_storageErr = None\<rparr>"

definition sample_codec :: "(mutation, string, mutation raft_log) codec" where
  "sample_codec = \<lparr>cd_decode = Some, cd_encode = (\<lambda>mu. Some (mu_OperationID mu @ mu_Kind mu @ mu_Key mu @ mu_Value mu)), cd_hash = (\<lambda>raw. raw),
     cd_gob = Some, cd_snapshot_encode = (\<lambda>sn. if sn = take_snapshot sample_state then Some ''s'' else None),
     cd_snapshot_decode = (\<lambda>c. if c = ''s'' then Some (take_snapshot sample_state, []) else None), cd_trailing = (\<lambda>_. EndOfFile)\<rparr>"

definition sample_raft_store :: "mutation raft_log bolt_store" where
  "sample_raft_store = \<lparr>bo_logs = [(1, sample_entry 1), (2, sample_entry 2)], bo_applied = NoIndex, bo_writable = True\<rparr>"

theorem operation_applied_once_witness:
  "\<exists>f s. run sample_codec [sample_entry 1, sample_entry 2] (newStateMachine, sample_raft_store) = (f, s) \<and> Read f ''k'' = Some ''y'' \<and>
     Apply sample_codec ((sample_entry 1)\<lparr>rl_Index := 3\<rparr>) (f, s) =
       (Some (Inr \<lparr>mr_OperationID = ''a'', mr_Index = 1, mr_Duplicate = True\<rparr>), f, snd (RecordAppliedIndex 3 s))"
proof -
  let ?s1 = "sample_raft_store\<lparr>bo_applied := Index 1\<rparr>" and ?s2 = "sample_raft_store\<lparr>bo_applied := Index 2\<rparr>"
  let ?f2 = "\<lparr>fs_values = [(''k'', ''y'')], fs_operations = [(''a'', \<lparr>ao_Fingerprint = ''aputkx'', ao_Index = 1\<rparr>), (''b'', \<lparr>ao_Fingerprint = ''bputky'', ao_Index = 2\<rparr>)],
     fs_storageErr = None\<rparr> :: string state_machine"
  have one: "Apply sample_codec (sample_entry 1) (newStateMachine, sample_raft_store) =
      (Some (Inr \<lparr>mr_OperationID = ''a'', mr_Index = 1, mr_Duplicate = False\<rparr>), sample_state, ?s1)" by code_simp
  have two: "run sample_codec [sample_entry 2] (sample_state, ?s1) = (?f2, ?s2)" by code_simp
  have c: "command sample_codec (sample_entry 1) = Some (rl_Data (sample_entry 1), ''aputkx'')"
    "command sample_codec ((sample_entry 1)\<lparr>rl_Index := 3\<rparr>) = Some (rl_Data (sample_entry 1), ''aputkx'')" by code_simp+
  have "store_ready ?s2" by code_simp
  from operation_applied_once [OF one c(1) two c(2) refl _ this]
  have "Apply sample_codec ((sample_entry 1)\<lparr>rl_Index := 3\<rparr>) (?f2, ?s2) =
      (Some (Inr \<lparr>mr_OperationID = ''a'', mr_Index = 1, mr_Duplicate = True\<rparr>), ?f2, snd (RecordAppliedIndex 3 ?s2))"
    by (simp add: sample_entry_def)
  moreover have "run sample_codec [sample_entry 1, sample_entry 2] (newStateMachine, sample_raft_store) = (?f2, ?s2)" using one two by simp
  ultimately show ?thesis by (intro exI [of _ ?f2] exI [of _ ?s2]) (simp add: Read_def)
qed

theorem restart_restores_state_witness:
  "\<exists>s'. restoreApplicationState sample_codec (Some [\<lparr>sm_ID = ''n'', sm_Index = 1\<rparr>]) (\<lambda>i. if i = ''n'' then Some (1, Some ''s'') else None)
     (newStateMachine, snd (run sample_codec (log_part sample_entry 0 2) (newStateMachine, sample_raft_store))) =
     Some (Inr (fst (run sample_codec (log_part sample_entry 0 2) (newStateMachine, sample_raft_store)), s'))"
proof -
  let ?o = "\<lambda>i. if i = ''n'' then Some (1 :: uint64, Some ''s'') else None" and ?m = "[\<lparr>sm_ID = ''n'', sm_Index = 1\<rparr>]"
  have "faithful_snapshots sample_codec" by (auto simp: faithful_snapshots_def sample_codec_def split: if_splits)
  moreover have "\<forall>i. 1 < i \<longrightarrow> i \<le> 2 \<longrightarrow> GetLog sample_codec sample_raft_store (word_of_nat i) = Inr (sample_entry i)"
  proof (intro allI impI)
    fix i :: nat assume "1 < i" "i \<le> 2"
    then have "i = 2" by simp
    then show "GetLog sample_codec sample_raft_store (word_of_nat i) = Inr (sample_entry i)" by (simp add: GetLog_def sample_raft_store_def sample_codec_def)
  qed
  moreover have one: "fst (run sample_codec (log_part sample_entry 0 1) (newStateMachine, sample_raft_store)) = sample_state" by code_simp
  have "newest_snapshot sample_codec ?o ?m 1 (fst (run sample_codec (log_part sample_entry 0 1) (newStateMachine, sample_raft_store)))"
    unfolding newest_snapshot_def one
    by (intro disjI2 exI [of _ "[]"] exI [of _ "hd ?m"] exI [of _ "''s''"]) (simp add: Persist_def sample_codec_def maxSnapshot_def)
  ultimately show ?thesis
    using restart_restores_state [of sample_codec 2 1 sample_entry sample_raft_store ?o ?m] by (auto simp: sample_entry_def sample_raft_store_def)
qed

end
