(* ===== verification/Memory_Records.thy ===== *)
theory Memory_Records
  imports Go_Text
begin

text \<open>
  The records of the memory of a node (\<^verbatim>\<open>internal/memory/memory.go\<close>) and the functions on them that every
  store shares: stamps and watermarks, the selection of what a peer has not seen, fingerprints of
  experiences and the order that decides between two versions of a fact. A stamp is an origin with a
  sequence; a watermark is the greatest sequence seen of an origin. The zero time of Go is the
  instant \<open>0\<close>. Encodings, the hash and the arithmetic of \<^verbatim>\<open>float64\<close> are arguments, collected in a record.
\<close>

subsection \<open>Records\<close>

record experience =
  ex_ID :: uint64
  ex_Origin :: string
  ex_Sequence :: uint64
  ex_Kind :: string
  ex_TaskType :: string
  ex_Description :: string
  ex_Prompt :: string
  ex_Output :: string
  ex_NodeID :: string
  ex_Model :: string
  ex_Tool :: string
  ex_SessionID :: string
  ex_Success :: bool
  ex_Error :: string
  ex_DurationMs :: int
  ex_Rating :: float64
  ex_Tags :: "string list"
  ex_CreatedAt :: time

record fact =
  fa_Key :: string
  fa_Origin :: string
  fa_Sequence :: uint64
  fa_Value :: string
  fa_Scope :: string
  fa_Source :: string
  fa_Hits :: int
  fa_CreatedAt :: time
  fa_UpdatedAt :: time

record performance =
  pe_NodeID :: string
  pe_Origin :: string
  pe_Sequence :: uint64
  pe_Model :: string
  pe_TaskType :: string
  pe_Attempts :: int
  pe_Successes :: int
  pe_Failures :: int
  pe_TotalDuration :: int
  pe_AvgDurationMs :: int
  pe_SuccessRate :: float64
  pe_RatingSum :: float64
  pe_LastUsed :: time

record turn =
  tu_Speaker :: string
  tu_NodeID :: string
  tu_Model :: string
  tu_Content :: string
  tu_DurationMs :: int
  tu_At :: time

record dialogue =
  di_ID :: string
  di_Origin :: string
  di_Sequence :: uint64
  di_Participants :: "string list"
  di_Topic :: string
  di_Turns :: "turn list"
  di_CreatedAt :: time
  di_UpdatedAt :: time

type_synonym watermarks = "(string, uint64) gomap"

record mem_snapshot =
  sn_Experiences :: "experience list"
  sn_Facts :: "fact list"
  sn_Performances :: "performance list"
  sn_Dialogues :: "dialogue list"
  sn_SyncVersion :: int
  sn_Watermarks :: watermarks

text \<open>What the code takes from the standard library: JSON, SHA-256 in hexadecimal, times and quoted strings as text, and \<^verbatim>\<open>float64\<close>.\<close>

record mem_codec =
  mc_experience :: "experience \<Rightarrow> string option"
  mc_fact :: "fact \<Rightarrow> string option"
  mc_performance :: "performance \<Rightarrow> string option"
  mc_dialogue :: "dialogue \<Rightarrow> string option"
  mc_snapshot :: "mem_snapshot \<Rightarrow> string option"
  mc_sha256 :: "string \<Rightarrow> string"
  mc_time :: "time \<Rightarrow> string"
  mc_quote :: "string \<Rightarrow> string"
  mc_ratio :: "int \<Rightarrow> int \<Rightarrow> float64"
  mc_add :: "float64 \<Rightarrow> float64 \<Rightarrow> float64"
  mc_less :: "float64 \<Rightarrow> float64 \<Rightarrow> bool"

subsection \<open>Versions of the protocol\<close>

definition SyncProtocolVersion :: int where
  "SyncProtocolVersion = 3"

definition FirstSyncProtocolVersion :: int where
  "FirstSyncProtocolVersion = 1"

definition SyncPageProtocolVersion :: int where
  "SyncPageProtocolVersion = 2"

definition SupportsIncrementalSync :: "int \<Rightarrow> bool" where
  "SupportsIncrementalSync version \<longleftrightarrow> FirstSyncProtocolVersion \<le> version \<and> version \<le> SyncProtocolVersion"

definition SupportsSyncPages :: "int \<Rightarrow> bool" where
  "SupportsSyncPages version \<longleftrightarrow> SyncPageProtocolVersion \<le> version \<and> version \<le> SyncProtocolVersion"

definition legacyOrigin :: string where
  "legacyOrigin = ''legacy''"

subsection \<open>Watermarks\<close>

definition recordIsNewer :: "string \<Rightarrow> uint64 \<Rightarrow> watermarks \<Rightarrow> bool" where
  "recordIsNewer origin sequence w \<longleftrightarrow> origin = [] \<or> sequence = 0 \<or> gm_get0 w origin < sequence"

definition mergeWatermarks :: "watermarks \<Rightarrow> watermarks \<Rightarrow> watermarks" where
  "mergeWatermarks current incoming =
     foldl (\<lambda>m (origin, sequence). if gm_get0 m origin < sequence then gm_put origin sequence m else m) current incoming"

definition FilterMemoryWatermarks :: "watermarks \<Rightarrow> watermarks" where
  "FilterMemoryWatermarks w = filter (\<lambda>(origin, _). \<not> has_prefix origin ''task:'') w"

definition snapshotSince :: "mem_snapshot \<Rightarrow> watermarks \<Rightarrow> mem_snapshot" where
  "snapshotSince sn w =
     \<lparr>sn_Experiences = filter (\<lambda>e. recordIsNewer (ex_Origin e) (ex_Sequence e) w) (sn_Experiences sn),
      sn_Facts = filter (\<lambda>f. recordIsNewer (fa_Origin f) (fa_Sequence f) w) (sn_Facts sn),
      sn_Performances = filter (\<lambda>p. recordIsNewer (pe_Origin p) (pe_Sequence p) w) (sn_Performances sn),
      sn_Dialogues = filter (\<lambda>d. recordIsNewer (di_Origin d) (di_Sequence d) w) (sn_Dialogues sn),
      sn_SyncVersion = SyncProtocolVersion, sn_Watermarks = sn_Watermarks sn\<rparr>"

subsection \<open>Keys, fingerprints and texts\<close>

definition perfKey :: "string \<Rightarrow> string \<Rightarrow> string \<Rightarrow> string" where
  "perfKey nodeID model taskType =
     nodeID @ ''|'' @ model @ ''|'' @ to_lower (if taskType = [] then ''general'' else taskType)"

definition fact_key :: "string \<Rightarrow> string \<Rightarrow> string" where
  "fact_key scope key = scope @ ''|'' @ key"

definition experienceFingerprint :: "mem_codec \<Rightarrow> experience \<Rightarrow> string" where
  "experienceFingerprint cd e =
     (case mc_experience cd (e\<lparr>ex_ID := 0, ex_Origin := [], ex_Sequence := 0\<rparr>) of
        Some body \<Rightarrow> body
      | None \<Rightarrow> ''experience|'' @ mc_time cd (ex_CreatedAt e) @ ''|'' @ ex_NodeID e @ ''|'' @ ex_Model e)"

definition experienceFingerprintKey :: "mem_codec \<Rightarrow> experience \<Rightarrow> string" where
  "experienceFingerprintKey cd e = ''imported:'' @ mc_sha256 cd (experienceFingerprint cd e)"

definition truncate_text :: "string \<Rightarrow> nat \<Rightarrow> string" where
  "truncate_text s limit =
     (if length s \<le> limit then s else take limit s @ [CHR 0xE2, CHR 0x80, CHR 0xA6] @ ''[truncated]'')"

subsection \<open>Which version of a fact wins\<close>

definition factWinsTie :: "fact \<Rightarrow> fact \<Rightarrow> bool" where
  "factWinsTie incoming current =
     (if fa_Source incoming \<noteq> fa_Source current then fa_Source incoming < fa_Source current
      else fa_Value current < fa_Value incoming)"

text \<open>The condition under which a merge keeps what it has, so that \<open>fact_le\<close> orders the versions of a fact.\<close>

definition fact_le :: "fact \<Rightarrow> fact \<Rightarrow> bool" where
  "fact_le incoming current \<longleftrightarrow>
     fa_UpdatedAt incoming < fa_UpdatedAt current \<or>
     fa_UpdatedAt incoming = fa_UpdatedAt current \<and> \<not> factWinsTie incoming current"

text \<open>It is the lexicographic order of the instant, of the source downwards and of the value.\<close>

definition lex3 :: "'a::linorder \<Rightarrow> 'b::linorder \<Rightarrow> 'c::linorder \<Rightarrow> 'a \<Rightarrow> 'b \<Rightarrow> 'c \<Rightarrow> bool" where
  "lex3 a b c a' b' c' \<longleftrightarrow> a < a' \<or> a = a' \<and> (b' < b \<or> b' = b \<and> c \<le> c')"

lemma lex3_trans: "lex3 a b c a' b' c' \<Longrightarrow> lex3 a' b' c' a'' b'' c'' \<Longrightarrow> lex3 a b c a'' b'' c''"
  unfolding lex3_def by (elim disjE conjE) (simp_all add: less_trans order_trans)

lemma lex3_total: "\<not> lex3 a b c a' b' c' \<Longrightarrow> lex3 a' b' c' a b c"
  unfolding lex3_def by (metis less_linear nle_le)

lemma lex3_antisym: "lex3 a b c a' b' c' \<Longrightarrow> lex3 a' b' c' a b c \<Longrightarrow> a = a' \<and> b = b' \<and> c = c'"
  unfolding lex3_def by (metis order.asym order.antisym)

lemma fact_le_lex:
  "fact_le f g = lex3 (fa_UpdatedAt f) (fa_Source f) (fa_Value f) (fa_UpdatedAt g) (fa_Source g) (fa_Value g)"
proof -
  have "(\<not> (if a \<noteq> b then a < b else d < c)) = (b < a \<or> b = a \<and> c \<le> d)" for a b c d :: "'x::linorder"
    by (cases a b rule: linorder_cases) auto
  from this [of "fa_Source f" "fa_Source g" "fa_Value g" "fa_Value f"] show ?thesis
    unfolding fact_le_def factWinsTie_def lex3_def by (simp add: not_less)
qed

lemma fact_le_refl [simp]: "fact_le f f"
  by (simp add: fact_le_lex lex3_def)

lemma fact_le_trans: "fact_le f g \<Longrightarrow> fact_le g h \<Longrightarrow> fact_le f h"
  unfolding fact_le_lex by (rule lex3_trans)

lemma fact_le_total: "\<not> fact_le f g \<Longrightarrow> fact_le g f"
  unfolding fact_le_lex by (rule lex3_total)

text \<open>Versions that are not older than each other have the same content.\<close>

lemma fact_le_antisym:
  "fact_le f g \<Longrightarrow> fact_le g f \<Longrightarrow> fa_UpdatedAt f = fa_UpdatedAt g \<and> fa_Source f = fa_Source g \<and> fa_Value f = fa_Value g"
  unfolding fact_le_lex by (rule lex3_antisym)

lemma fact_le_cong:
  assumes "fa_UpdatedAt f = fa_UpdatedAt f'" "fa_Source f = fa_Source f'" "fa_Value f = fa_Value f'"
  shows "fact_le f g = fact_le f' g" "fact_le g f = fact_le g f'"
  using assms by (simp_all add: fact_le_lex)

subsection \<open>Laws of watermarks\<close>

lemma mergeWatermarks_get:
  "gm_wf w' \<Longrightarrow> gm_get0 (mergeWatermarks w w') k = max (gm_get0 w k) (gm_get0 w' k)"
proof (induction w' arbitrary: w)
  case (Cons x w')
  obtain og sq where x: "x = (og, sq)" by fastforce
  from Cons.prems x have d: "gm_wf w'" "og \<notin> fst ` set w'" by (auto simp: gm_wf_def)
  let ?w = "if gm_get0 w og < sq then gm_put og sq w else w"
  have "mergeWatermarks w (x # w') = mergeWatermarks ?w w'" by (simp add: mergeWatermarks_def x)
  then have "gm_get0 (mergeWatermarks w (x # w')) k = max (gm_get0 ?w k) (gm_get0 w' k)" using Cons.IH [OF d(1)] by simp
  moreover have "gm_get0 w' og = 0" using d(2) by (simp add: gm_get0_def gm_get_None [symmetric])
  moreover have "gm_get0 (x # w') k = (if k = og then sq else gm_get0 w' k)" by (auto simp: x gm_get0_def)
  ultimately show ?case by (auto simp: max_def not_less)
qed (simp add: mergeWatermarks_def)

lemma mergeWatermarks_wf: "gm_wf w \<Longrightarrow> gm_wf (mergeWatermarks w w')"
  unfolding mergeWatermarks_def by (induction w' arbitrary: w) (simp_all add: split_beta)

lemma FilterMemoryWatermarks_get:
  "gm_wf w \<Longrightarrow> gm_get0 (FilterMemoryWatermarks w) k = (if has_prefix k ''task:'' then 0 else gm_get0 w k)"
  by (auto simp: FilterMemoryWatermarks_def gm_get0_def gm_get_filter split: option.splits)

end
