(* ===== verification/Memory_Store.thy ===== *)
theory Memory_Store
  imports Memory_Records "HOL-Library.Signed_Division"
begin

text \<open>
  The in-memory store of a node's memory (\<^verbatim>\<open>internal/memory/inmemory.go\<close>, \<^verbatim>\<open>inmemory_records.go\<close>,
  \<^verbatim>\<open>inmemory_performance.go\<close>): experiences, facts, performances and dialogues, each stamped with an origin and a
  sequence, and the merge of a snapshot that another node has sent. An operation under the lock is one
  step; a channel that is closed to wake waiters is the number of times it was replaced. An operation that reads
  the clock takes the reading, or a function from the number of the reading to the instant. Searching, learned
  biases, recommendations and insights, which compute scores in floating point, are not modelled.
\<close>

subsection \<open>State\<close>

record memory_store =
  mm_origin :: string
  mm_nextID :: uint64
  mm_sequences :: watermarks
  mm_watermarks :: watermarks
  mm_peerWatermarks :: "(string, watermarks) gomap"
  mm_experiences :: "experience list"
  mm_fingerprints :: "(string, bool) gomap"
  mm_facts :: "(string, fact) gomap"
  mm_performances :: "(string, performance) gomap"
  mm_learnedBiases :: "(string, performance) gomap option"
  mm_dialogues :: "(string, dialogue) gomap"
  mm_agentSessions :: "(string, string) gomap"
  mm_shardGroups :: "(string, string) gomap"
  mm_changes :: nat

datatype mem_error =
    FactKeyRequired
  | PeerRequired
  | SessionKeyRequired
  | SessionPayloadRequired
  | ShardGroupRequired
  | ShardGroupIDRequired
  | DialogueIDRequired
  | MemNotFound

text \<open>A new store is named after the number of stores that were created before it.\<close>

definition NewInMemoryStore :: "nat \<Rightarrow> memory_store" where
  "NewInMemoryStore storeID =
     (let origin = ''memory-store-'' @ format_base 10 storeID
      in \<lparr>mm_origin = origin, mm_nextID = 0, mm_sequences = [(origin, 0)], mm_watermarks = [], mm_peerWatermarks = [],
          mm_experiences = [], mm_fingerprints = [], mm_facts = [], mm_performances = [], mm_learnedBiases = None,
          mm_dialogues = [], mm_agentSessions = [], mm_shardGroups = [], mm_changes = 0\<rparr>)"

definition Notify :: "memory_store \<Rightarrow> memory_store" where
  "Notify s = s\<lparr>mm_changes := Suc (mm_changes s)\<rparr>"

subsection \<open>Stamps\<close>

definition nextSequenceLocked :: "string \<Rightarrow> memory_store \<Rightarrow> uint64 \<times> memory_store" where
  "nextSequenceLocked origin s =
     (let seen = gm_get0 (mm_sequences s) origin;
          mark = gm_get0 (mm_watermarks s) origin;
          sequence = (if seen < mark then mark else seen) + 1
      in (sequence, Notify (s\<lparr>mm_sequences := gm_put origin sequence (mm_sequences s),
                             mm_watermarks := gm_put origin sequence (mm_watermarks s)\<rparr>)))"

definition observeRecordLocked :: "string \<Rightarrow> uint64 \<Rightarrow> memory_store \<Rightarrow> memory_store" where
  "observeRecordLocked origin sequence s =
     (if origin = [] \<or> sequence = 0 then s
      else let s1 = (if gm_get0 (mm_watermarks s) origin < sequence
                     then Notify (s\<lparr>mm_watermarks := gm_put origin sequence (mm_watermarks s)\<rparr>) else s)
           in if gm_get0 (mm_sequences s1) origin < sequence
              then s1\<lparr>mm_sequences := gm_put origin sequence (mm_sequences s1)\<rparr> else s1)"

subsection \<open>Reading\<close>

fun insert_by :: "('a \<Rightarrow> 'a \<Rightarrow> bool) \<Rightarrow> 'a \<Rightarrow> 'a list \<Rightarrow> 'a list" where
  "insert_by before x [] = [x]"
| "insert_by before x (y # ys) = (if before x y then x # y # ys else y # insert_by before x ys)"

definition sort_by :: "('a \<Rightarrow> 'a \<Rightarrow> bool) \<Rightarrow> 'a list \<Rightarrow> 'a list" where
  "sort_by before xs = fold (insert_by before) xs []"

definition performance_before :: "mem_codec \<Rightarrow> performance \<Rightarrow> performance \<Rightarrow> bool" where
  "performance_before cd p q =
     (if mc_less cd (pe_SuccessRate p) (pe_SuccessRate q) \<or> mc_less cd (pe_SuccessRate q) (pe_SuccessRate p)
      then mc_less cd (pe_SuccessRate q) (pe_SuccessRate p) else pe_AvgDurationMs p < pe_AvgDurationMs q)"

definition Performances :: "mem_codec \<Rightarrow> memory_store \<Rightarrow> performance list" where
  "Performances cd s = sort_by (performance_before cd) (map snd (mm_performances s))"

definition TakeSnapshot :: "mem_codec \<Rightarrow> memory_store \<Rightarrow> mem_snapshot" where
  "TakeSnapshot cd s =
     \<lparr>sn_Experiences = rev (mm_experiences s),
      sn_Facts = sort_key (\<lambda>f. - fa_UpdatedAt f) (map snd (mm_facts s)),
      sn_Performances = sort_by (performance_before cd) (map snd (mm_performances s)),
      sn_Dialogues = sort_key (\<lambda>d. - di_UpdatedAt d) (map snd (mm_dialogues s)),
      sn_SyncVersion = SyncProtocolVersion, sn_Watermarks = mm_watermarks s\<rparr>"

definition PeerWatermarks :: "string \<Rightarrow> memory_store \<Rightarrow> watermarks" where
  "PeerWatermarks peer s = (case gm_get (mm_peerWatermarks s) peer of None \<Rightarrow> [] | Some w \<Rightarrow> w)"

definition SetPeerWatermarks :: "string \<Rightarrow> watermarks \<Rightarrow> memory_store \<Rightarrow> mem_error option \<times> memory_store" where
  "SetPeerWatermarks peer w s =
     (if trim_space peer = [] then (Some PeerRequired, s)
      else (None, s\<lparr>mm_peerWatermarks := gm_put peer (mergeWatermarks (PeerWatermarks peer s) w) (mm_peerWatermarks s)\<rparr>))"

text \<open>What a peer that reports its watermarks is sent: everything, if it speaks an older protocol or has seen what this store has not.\<close>

definition SnapshotForMemoryPeer :: "mem_codec \<Rightarrow> int \<Rightarrow> watermarks \<Rightarrow> memory_store \<Rightarrow> mem_snapshot" where
  "SnapshotForMemoryPeer cd peerVersion w s =
     (if \<not> SupportsIncrementalSync peerVersion then TakeSnapshot cd s
      else if list_ex (\<lambda>(origin, sequence). gm_get0 (mm_watermarks s) origin < sequence) w then TakeSnapshot cd s
      else snapshotSince (TakeSnapshot cd s) w)"

definition Experiences :: "int \<Rightarrow> memory_store \<Rightarrow> experience list" where
  "Experiences limit s = take (nat (if limit \<le> 0 then 50 else limit)) (rev (mm_experiences s))"

definition Facts :: "string \<Rightarrow> memory_store \<Rightarrow> fact list" where
  "Facts scope s = sort_key (\<lambda>f. - fa_UpdatedAt f) (filter (\<lambda>f. scope = [] \<or> fa_Scope f = scope) (map snd (mm_facts s)))"

definition Dialogue :: "string \<Rightarrow> memory_store \<Rightarrow> mem_error + dialogue" where
  "Dialogue i s = (case gm_get (mm_dialogues s) i of None \<Rightarrow> Inl MemNotFound | Some d \<Rightarrow> Inr d)"

definition Dialogues :: "int \<Rightarrow> memory_store \<Rightarrow> dialogue list" where
  "Dialogues limit s =
     take (nat (if limit \<le> 0 then 50 else limit)) (sort_key (\<lambda>d. - di_UpdatedAt d) (map snd (mm_dialogues s)))"

subsection \<open>Experiences and performances\<close>

definition publishPerformanceSnapshotLocked :: "memory_store \<Rightarrow> memory_store" where
  "publishPerformanceSnapshotLocked s = s\<lparr>mm_learnedBiases := Some (mm_performances s)\<rparr>"

definition zero_performance :: performance where
  "zero_performance =
     \<lparr>pe_NodeID = [], pe_Origin = [], pe_Sequence = 0, pe_Model = [], pe_TaskType = [], pe_Attempts = 0, pe_Successes = 0,
      pe_Failures = 0, pe_TotalDuration = 0, pe_AvgDurationMs = 0, pe_SuccessRate = 0, pe_RatingSum = 0, pe_LastUsed = 0\<rparr>"

definition count_attempt :: "mem_codec \<Rightarrow> experience \<Rightarrow> performance \<Rightarrow> performance" where
  "count_attempt cd e p =
     (let attempts = pe_Attempts p + 1;
          successes = (if ex_Success e then pe_Successes p + 1 else pe_Successes p);
          total = pe_TotalDuration p + ex_DurationMs e
      in p\<lparr>pe_Attempts := attempts, pe_Successes := successes,
           pe_Failures := (if ex_Success e then pe_Failures p else pe_Failures p + 1),
           pe_TotalDuration := total, pe_AvgDurationMs := total sdiv max attempts 1,
           pe_SuccessRate := mc_ratio cd successes (max attempts 1),
           pe_RatingSum := mc_add cd (pe_RatingSum p) (ex_Rating e), pe_LastUsed := ex_CreatedAt e\<rparr>)"

definition updatePerformanceLocked :: "mem_codec \<Rightarrow> experience \<Rightarrow> memory_store \<Rightarrow> memory_store" where
  "updatePerformanceLocked cd e s =
     (let taskType = (if ex_TaskType e = [] then ''general'' else ex_TaskType e);
          key = perfKey (ex_NodeID e) (ex_Model e) taskType;
          current = (case gm_get (mm_performances s) key of
                       Some p \<Rightarrow> p
                     | None \<Rightarrow> zero_performance\<lparr>pe_NodeID := ex_NodeID e, pe_Model := ex_Model e, pe_TaskType := to_lower taskType\<rparr>);
          (sequence, s1) = nextSequenceLocked (mm_origin s) s;
          p = (count_attempt cd e current)\<lparr>pe_Origin := mm_origin s, pe_Sequence := sequence\<rparr>
      in publishPerformanceSnapshotLocked (s1\<lparr>mm_performances := gm_put key p (mm_performances s1)\<rparr>))"

definition Record :: "mem_codec \<Rightarrow> time \<Rightarrow> experience \<Rightarrow> memory_store \<Rightarrow> experience \<times> memory_store" where
  "Record cd now e s =
     (let e1 = e\<lparr>ex_CreatedAt := (if ex_CreatedAt e = 0 then now else ex_CreatedAt e),
                 ex_Kind := (if ex_Kind e = [] then ''task'' else ex_Kind e),
                 ex_Prompt := truncate_text (ex_Prompt e) (8 * 1024), ex_Output := truncate_text (ex_Output e) (32 * 1024)\<rparr>;
          s1 = s\<lparr>mm_nextID := mm_nextID s + 1\<rparr>;
          (sequence, s2) = nextSequenceLocked (mm_origin s1) s1;
          e2 = e1\<lparr>ex_ID := mm_nextID s2, ex_Origin := mm_origin s2, ex_Sequence := sequence\<rparr>;
          s3 = s2\<lparr>mm_experiences := mm_experiences s2 @ [e2],
                  mm_fingerprints := gm_put (experienceFingerprint cd e2) True (mm_fingerprints s2)\<rparr>
      in (e2, if ex_NodeID e2 \<noteq> [] \<and> ex_Model e2 \<noteq> [] then updatePerformanceLocked cd e2 s3 else s3))"

definition Prune :: "time \<Rightarrow> duration \<Rightarrow> memory_store \<Rightarrow> nat \<times> memory_store" where
  "Prune now olderThan s =
     (let cutoff = now - olderThan;
          kept = filter (\<lambda>e. \<not> ex_CreatedAt e < cutoff) (mm_experiences s);
          removed = length (mm_experiences s) - length kept;
          s1 = s\<lparr>mm_experiences := kept\<rparr>
      in (removed, if 0 < removed then Notify s1 else s1))"

subsection \<open>Facts\<close>

definition PutFact :: "time \<Rightarrow> fact \<Rightarrow> memory_store \<Rightarrow> (mem_error + fact) \<times> memory_store" where
  "PutFact now f s =
     (if fa_Key f = [] then (Inl FactKeyRequired, s)
      else let f1 = (if fa_Scope f = [] then f\<lparr>fa_Scope := ''cluster''\<rparr> else f);
               key = fact_key (fa_Scope f1) (fa_Key f1);
               f2 = (case gm_get (mm_facts s) key of
                       None \<Rightarrow> f1
                     | Some previous \<Rightarrow> f1\<lparr>fa_CreatedAt := fa_CreatedAt previous, fa_Hits := fa_Hits previous\<rparr>);
               (sequence, s1) = nextSequenceLocked (mm_origin s) s;
               f3 = f2\<lparr>fa_CreatedAt := (if fa_CreatedAt f2 = 0 then now else fa_CreatedAt f2), fa_UpdatedAt := now,
                       fa_Origin := mm_origin s, fa_Sequence := sequence\<rparr>
           in (Inr f3, s1\<lparr>mm_facts := gm_put key f3 (mm_facts s1)\<rparr>))"

definition GetFact :: "string \<Rightarrow> string \<Rightarrow> memory_store \<Rightarrow> (mem_error + fact) \<times> memory_store" where
  "GetFact scope key s =
     (let mapKey = fact_key (if scope = [] then ''cluster'' else scope) key
      in case gm_get (mm_facts s) mapKey of
           None \<Rightarrow> (Inl MemNotFound, s)
         | Some f \<Rightarrow>
             (let (sequence, s1) = nextSequenceLocked (mm_origin s) s;
                  f1 = f\<lparr>fa_Hits := fa_Hits f + 1, fa_Origin := mm_origin s, fa_Sequence := sequence\<rparr>
              in (Inr f1, s1\<lparr>mm_facts := gm_put mapKey f1 (mm_facts s1)\<rparr>)))"

definition DeleteFact :: "string \<Rightarrow> string \<Rightarrow> memory_store \<Rightarrow> memory_store" where
  "DeleteFact scope key s =
     (let mapKey = fact_key (if scope = [] then ''cluster'' else scope) key;
          s1 = s\<lparr>mm_facts := gm_del mapKey (mm_facts s)\<rparr>
      in if gm_get (mm_facts s) mapKey \<noteq> None then Notify s1 else s1)"

subsection \<open>Agent sessions and shard groups\<close>

definition session_key :: "string \<Rightarrow> string \<Rightarrow> string" where
  "session_key harness i = harness @ [CHR 0x00] @ i"

definition SaveAgentSession :: "string \<Rightarrow> string \<Rightarrow> string \<Rightarrow> memory_store \<Rightarrow> mem_error option \<times> memory_store" where
  "SaveAgentSession harness i payload s =
     (if harness = [] \<or> i = [] then (Some SessionKeyRequired, s)
      else if payload = [] then (Some SessionPayloadRequired, s)
      else (None, s\<lparr>mm_agentSessions := gm_put (session_key harness i) payload (mm_agentSessions s)\<rparr>))"

definition AgentSessions :: "memory_store \<Rightarrow> string list" where
  "AgentSessions s = map snd (sort_key fst (mm_agentSessions s))"

definition DeleteAgentSession :: "string \<Rightarrow> string \<Rightarrow> memory_store \<Rightarrow> mem_error option \<times> memory_store" where
  "DeleteAgentSession harness i s =
     (if harness = [] \<or> i = [] then (Some SessionKeyRequired, s)
      else (None, s\<lparr>mm_agentSessions := gm_del (session_key harness i) (mm_agentSessions s)\<rparr>))"

definition SaveShardGroup :: "string \<Rightarrow> string \<Rightarrow> memory_store \<Rightarrow> mem_error option \<times> memory_store" where
  "SaveShardGroup i payload s =
     (if i = [] \<or> payload = [] then (Some ShardGroupRequired, s)
      else (None, s\<lparr>mm_shardGroups := gm_put i payload (mm_shardGroups s)\<rparr>))"

definition ShardGroups :: "memory_store \<Rightarrow> string list" where
  "ShardGroups s = map snd (sort_key fst (mm_shardGroups s))"

definition DeleteShardGroup :: "string \<Rightarrow> memory_store \<Rightarrow> mem_error option \<times> memory_store" where
  "DeleteShardGroup i s =
     (if i = [] then (Some ShardGroupIDRequired, s) else (None, s\<lparr>mm_shardGroups := gm_del i (mm_shardGroups s)\<rparr>))"

subsection \<open>Dialogues\<close>

definition zero_dialogue :: dialogue where
  "zero_dialogue =
     \<lparr>di_ID = [], di_Origin = [], di_Sequence = 0, di_Participants = [], di_Topic = [], di_Turns = [], di_CreatedAt = 0, di_UpdatedAt = 0\<rparr>"

definition SaveDialogue :: "time \<Rightarrow> dialogue \<Rightarrow> memory_store \<Rightarrow> mem_error option \<times> memory_store" where
  "SaveDialogue now d s =
     (if di_ID d = [] then (Some DialogueIDRequired, s)
      else let (sequence, s1) = nextSequenceLocked (mm_origin s) s;
               d1 = d\<lparr>di_CreatedAt := (if di_CreatedAt d = 0 then now else di_CreatedAt d), di_UpdatedAt := now,
                      di_Origin := mm_origin s, di_Sequence := sequence\<rparr>
           in (None, s1\<lparr>mm_dialogues := gm_put (di_ID d1) d1 (mm_dialogues s1)\<rparr>))"

text \<open>The loops that append the participants and the turns that are missing.\<close>

definition add_participants :: "string list \<Rightarrow> string list \<Rightarrow> string list" where
  "add_participants = foldl (\<lambda>ps p. if p \<in> set ps then ps else ps @ [p])"

definition same_turn :: "turn \<Rightarrow> turn \<Rightarrow> bool" where
  "same_turn existing t \<longleftrightarrow> tu_At existing = tu_At t \<and> tu_Speaker existing = tu_Speaker t \<and> tu_Content existing = tu_Content t"

definition add_turns :: "turn list \<Rightarrow> turn list \<Rightarrow> turn list" where
  "add_turns = foldl (\<lambda>ts t. if list_ex (\<lambda>existing. same_turn existing t) ts then ts else ts @ [t])"

text \<open>Each appended turn takes a sequence; the last one stamps the dialogue.\<close>

fun stamp_turns :: "'a list \<Rightarrow> dialogue \<times> memory_store \<Rightarrow> dialogue \<times> memory_store" where
  "stamp_turns [] ds = ds"
| "stamp_turns (t # ts) (d, s) =
     (let (sequence, s1) = nextSequenceLocked (mm_origin s) s
      in stamp_turns ts (d\<lparr>di_Origin := mm_origin s, di_Sequence := sequence\<rparr>, s1))"

definition AppendDialogueTurns ::
  "(nat \<Rightarrow> time) \<Rightarrow> string \<Rightarrow> string list \<Rightarrow> string \<Rightarrow> turn list \<Rightarrow> memory_store \<Rightarrow> mem_error option \<times> memory_store" where
  "AppendDialogueTurns clk i participants topic turns s =
     (if i = [] then (Some DialogueIDRequired, s)
      else if turns = [] then (None, s)
      else let turns1 = map (\<lambda>(n, t). if tu_At t = 0 then t\<lparr>tu_At := clk n\<rparr> else t) (enumerate 0 turns);
               d = (case gm_get (mm_dialogues s) i of None \<Rightarrow> zero_dialogue | Some d \<Rightarrow> d);
               d1 = (if di_ID d = []
                     then d\<lparr>di_ID := i, di_CreatedAt := clk (length turns), di_Participants := participants, di_Topic := topic\<rparr> else d);
               d2 = d1\<lparr>di_Participants := add_participants (di_Participants d1) participants, di_Turns := di_Turns d1 @ turns1,
                       di_UpdatedAt := clk (Suc (length turns))\<rparr>;
               (d3, s1) = stamp_turns turns (d2, s)
           in (None, s1\<lparr>mm_dialogues := gm_put i d3 (mm_dialogues s1)\<rparr>))"

definition AppendDialogueTurn ::
  "(nat \<Rightarrow> time) \<Rightarrow> string \<Rightarrow> string list \<Rightarrow> string \<Rightarrow> turn \<Rightarrow> memory_store \<Rightarrow> mem_error option \<times> memory_store" where
  "AppendDialogueTurn clk i participants topic t s = AppendDialogueTurns clk i participants topic [t] s"

subsection \<open>Merging what a peer has sent\<close>

definition mergeExperienceFrom :: "mem_codec \<Rightarrow> time \<Rightarrow> string \<Rightarrow> experience \<Rightarrow> memory_store \<Rightarrow> memory_store" where
  "mergeExperienceFrom cd now sourceOrigin e s =
     (let key = experienceFingerprint cd e;
          s1 = observeRecordLocked (ex_Origin e) (ex_Sequence e) s
      in if gm_get (mm_fingerprints s1) key = Some True then s1
         else let e1 = e\<lparr>ex_CreatedAt := (if ex_CreatedAt e = 0 then now else ex_CreatedAt e)\<rparr>;
                  (e2, s2) = (if ex_Origin e1 = [] \<or> ex_Sequence e1 = 0
                              then let (sequence, s2) = nextSequenceLocked sourceOrigin s1
                                   in (e1\<lparr>ex_Origin := sourceOrigin, ex_Sequence := sequence\<rparr>, s2)
                              else (e1, s1));
                  s3 = s2\<lparr>mm_nextID := mm_nextID s2 + 1\<rparr>
              in s3\<lparr>mm_experiences := mm_experiences s3 @ [e2\<lparr>ex_ID := mm_nextID s3\<rparr>],
                    mm_fingerprints := gm_put key True (mm_fingerprints s3)\<rparr>)"

definition normalize_fact :: "time \<Rightarrow> fact \<Rightarrow> fact" where
  "normalize_fact now f =
     (let updated = (if fa_UpdatedAt f \<noteq> 0 then fa_UpdatedAt f else if fa_CreatedAt f \<noteq> 0 then fa_CreatedAt f else now)
      in f\<lparr>fa_Scope := (if fa_Scope f = [] then ''cluster'' else fa_Scope f), fa_UpdatedAt := updated,
           fa_CreatedAt := (if fa_CreatedAt f = 0 \<or> updated < fa_CreatedAt f then updated else fa_CreatedAt f)\<rparr>)"

definition mergeFactFrom :: "time \<Rightarrow> string \<Rightarrow> fact \<Rightarrow> memory_store \<Rightarrow> mem_error option \<times> memory_store" where
  "mergeFactFrom now sourceOrigin f s =
     (if fa_Key f = [] then (Some FactKeyRequired, s)
      else let incoming = normalize_fact now f;
               key = fact_key (fa_Scope incoming) (fa_Key incoming);
               s1 = observeRecordLocked (fa_Origin incoming) (fa_Sequence incoming) s;
               adopt = (\<lambda>f. if fa_Origin f = [] \<or> fa_Sequence f = 0
                            then let (sequence, s2) = nextSequenceLocked sourceOrigin s1;
                                     f1 = f\<lparr>fa_Origin := sourceOrigin, fa_Sequence := sequence\<rparr>
                                 in (None, s2\<lparr>mm_facts := gm_put key f1 (mm_facts s2)\<rparr>)
                            else let s2 = observeRecordLocked (fa_Origin f) (fa_Sequence f) s1
                                 in (None, s2\<lparr>mm_facts := gm_put key f (mm_facts s2)\<rparr>))
           in case gm_get (mm_facts s1) key of
                None \<Rightarrow> adopt incoming
              | Some current \<Rightarrow>
                  if fact_le incoming current then (None, s1)
                  else adopt (incoming\<lparr>fa_CreatedAt := min (fa_CreatedAt current) (fa_CreatedAt incoming),
                                       fa_Hits := max (fa_Hits current) (fa_Hits incoming)\<rparr>))"

fun merge_facts :: "(nat \<Rightarrow> time) \<Rightarrow> string \<Rightarrow> nat \<Rightarrow> fact list \<Rightarrow> memory_store \<Rightarrow> mem_error option \<times> memory_store" where
  "merge_facts clk sourceOrigin n [] s = (None, s)"
| "merge_facts clk sourceOrigin n (f # fs) s =
     (case mergeFactFrom (clk n) sourceOrigin f s of
        (Some e, s1) \<Rightarrow> (Some e, s1)
      | (None, s1) \<Rightarrow> merge_facts clk sourceOrigin (Suc n) fs s1)"

text \<open>One performance of a merge, and whether any was taken: a stored one stays if it has seen as many attempts.\<close>

definition enough_evidence :: "int \<Rightarrow> string \<Rightarrow> memory_store \<Rightarrow> bool" where
  "enough_evidence attempts key s =
     (case gm_get (mm_performances s) key of None \<Rightarrow> False | Some current \<Rightarrow> attempts \<le> pe_Attempts current)"

definition mergePerformance :: "string \<Rightarrow> performance \<Rightarrow> bool \<times> memory_store \<Rightarrow> bool \<times> memory_store" where
  "mergePerformance sourceOrigin p cs =
     (let (changed, s) = cs
      in if pe_NodeID p = [] \<or> pe_Model p = [] then (changed, s)
         else let p1 = (if pe_TaskType p = [] then p\<lparr>pe_TaskType := ''general''\<rparr> else p);
                  key = perfKey (pe_NodeID p1) (pe_Model p1) (pe_TaskType p1)
              in if enough_evidence (pe_Attempts p1) key s then (changed, observeRecordLocked (pe_Origin p1) (pe_Sequence p1) s)
                 else let (p2, s1) = (if pe_Origin p1 = [] \<or> pe_Sequence p1 = 0
                                      then let (sequence, s1) = nextSequenceLocked sourceOrigin s
                                           in (p1\<lparr>pe_Origin := sourceOrigin, pe_Sequence := sequence\<rparr>, s1)
                                      else (p1, observeRecordLocked (pe_Origin p1) (pe_Sequence p1) s))
                      in (True, s1\<lparr>mm_performances := gm_put key p2 (mm_performances s1)\<rparr>))"

definition mergePerformancesFrom :: "string \<Rightarrow> performance list \<Rightarrow> memory_store \<Rightarrow> memory_store" where
  "mergePerformancesFrom sourceOrigin incoming s =
     (let (changed, s1) = fold (mergePerformance sourceOrigin) incoming (False, s)
      in if changed then publishPerformanceSnapshotLocked s1 else s1)"

text \<open>What the stored dialogue becomes, without its stamp.\<close>

definition merge_dialogue :: "dialogue \<Rightarrow> dialogue \<Rightarrow> dialogue" where
  "merge_dialogue incoming current =
     current\<lparr>di_Turns := add_turns (di_Turns current) (di_Turns incoming),
             di_Participants := add_participants (di_Participants current) (di_Participants incoming),
             di_Topic := (if di_Topic current = [] then di_Topic incoming else di_Topic current),
             di_UpdatedAt := (if di_UpdatedAt current < di_UpdatedAt incoming then di_UpdatedAt incoming else di_UpdatedAt current)\<rparr>"

definition mergeDialogueFrom :: "string \<Rightarrow> dialogue \<Rightarrow> memory_store \<Rightarrow> memory_store" where
  "mergeDialogueFrom sourceOrigin d s =
     (if di_ID d = [] then s
      else let s1 = observeRecordLocked (di_Origin d) (di_Sequence d) s;
               unstamped = (di_Origin d = [] \<or> di_Sequence d = 0)
           in case gm_get (mm_dialogues s1) (di_ID d) of
                None \<Rightarrow>
                  (let (d1, s2) = (if unstamped
                                   then let (sequence, s2) = nextSequenceLocked sourceOrigin s1
                                        in (d\<lparr>di_Origin := sourceOrigin, di_Sequence := sequence\<rparr>, s2)
                                   else (d, s1))
                   in s2\<lparr>mm_dialogues := gm_put (di_ID d) d1 (mm_dialogues s2)\<rparr>)
              | Some current \<Rightarrow>
                  (let merged = merge_dialogue d current
                   in if merged = current then s1
                      else let origin = (if unstamped then sourceOrigin else mm_origin s1);
                               (sequence, s2) = nextSequenceLocked origin s1
                           in s2\<lparr>mm_dialogues := gm_put (di_ID d) (merged\<lparr>di_Origin := origin, di_Sequence := sequence\<rparr>) (mm_dialogues s2)\<rparr>))"

definition MergeSnapshotFrom ::
  "mem_codec \<Rightarrow> (nat \<Rightarrow> time) \<Rightarrow> mem_snapshot \<Rightarrow> string \<Rightarrow> memory_store \<Rightarrow> mem_error option \<times> memory_store" where
  "MergeSnapshotFrom cd clk sn source s =
     (let sourceOrigin = (if source = [] then legacyOrigin else source);
          s1 = fold (\<lambda>(n, e). mergeExperienceFrom cd (clk n) sourceOrigin e) (enumerate 0 (sn_Experiences sn)) s
      in case merge_facts clk sourceOrigin (length (sn_Experiences sn)) (sn_Facts sn) s1 of
           (Some e, s2) \<Rightarrow> (Some e, s2)
         | (None, s2) \<Rightarrow>
             (let s3 = mergePerformancesFrom sourceOrigin (sn_Performances sn) s2;
                  s4 = fold (mergeDialogueFrom sourceOrigin) (sn_Dialogues sn) s3;
                  s5 = fold (\<lambda>(origin, sequence). observeRecordLocked origin sequence) (sn_Watermarks sn) s4
              in (None, s5\<lparr>mm_peerWatermarks :=
                             gm_put sourceOrigin (mergeWatermarks (PeerWatermarks sourceOrigin s5) (sn_Watermarks sn)) (mm_peerWatermarks s5)\<rparr>)))"

definition MergeSnapshot :: "mem_codec \<Rightarrow> (nat \<Rightarrow> time) \<Rightarrow> mem_snapshot \<Rightarrow> memory_store \<Rightarrow> mem_error option \<times> memory_store" where
  "MergeSnapshot cd clk sn s = MergeSnapshotFrom cd clk sn legacyOrigin s"

definition MergePerformances :: "performance list \<Rightarrow> memory_store \<Rightarrow> memory_store" where
  "MergePerformances incoming s = mergePerformancesFrom legacyOrigin incoming s"

subsection \<open>Stamps and room for them\<close>

abbreviation mark_of :: "memory_store \<Rightarrow> string \<Rightarrow> uint64" where
  "mark_of s og \<equiv> gm_get0 (mm_watermarks s) og"

abbreviation seq_of :: "memory_store \<Rightarrow> string \<Rightarrow> uint64" where
  "seq_of s og \<equiv> gm_get0 (mm_sequences s) og"

text \<open>\<open>n\<close> more identifiers and sequences of any origin can be taken before a counter wraps around.\<close>

definition room :: "nat \<Rightarrow> memory_store \<Rightarrow> bool" where
  "room n s \<longleftrightarrow> unat (mm_nextID s) + n < 2 ^ 64 \<and> (\<forall>og. unat (mark_of s og) + n < 2 ^ 64 \<and> unat (seq_of s og) + n < 2 ^ 64)"

definition observed :: "string \<Rightarrow> uint64 \<Rightarrow> memory_store \<Rightarrow> bool" where
  "observed og sq s \<longleftrightarrow> og = [] \<or> sq = 0 \<or> sq \<le> mark_of s og \<and> sq \<le> seq_of s og"

lemma observe_fields [simp]:
  "mm_origin (observeRecordLocked og sq s) = mm_origin s" "mm_nextID (observeRecordLocked og sq s) = mm_nextID s"
  "mm_peerWatermarks (observeRecordLocked og sq s) = mm_peerWatermarks s" "mm_experiences (observeRecordLocked og sq s) = mm_experiences s"
  "mm_fingerprints (observeRecordLocked og sq s) = mm_fingerprints s" "mm_facts (observeRecordLocked og sq s) = mm_facts s"
  "mm_performances (observeRecordLocked og sq s) = mm_performances s" "mm_learnedBiases (observeRecordLocked og sq s) = mm_learnedBiases s"
  "mm_dialogues (observeRecordLocked og sq s) = mm_dialogues s"
  by (simp_all add: observeRecordLocked_def Notify_def Let_def)

lemma observe_marks:
  "mark_of (observeRecordLocked og sq s) k = (if k = og \<and> og \<noteq> [] then max (mark_of s k) sq else mark_of s k)"
  "seq_of (observeRecordLocked og sq s) k = (if k = og \<and> og \<noteq> [] then max (seq_of s k) sq else seq_of s k)"
  by (auto simp: observeRecordLocked_def Notify_def Let_def max_def)

lemma observe_id: "observed og sq s \<Longrightarrow> observeRecordLocked og sq s = s"
  by (auto simp: observed_def observeRecordLocked_def Let_def not_less)

lemma observe_observed: "observed og sq (observeRecordLocked og sq s)"
  by (simp add: observed_def observe_marks)

lemma room_mono: "room (Suc n) s \<Longrightarrow> room n s"
  unfolding room_def by (metis Suc_lessD add_Suc_right)

lemma next_fields:
  assumes "nextSequenceLocked og s = (sq, s1)"
  shows "mm_origin s1 = mm_origin s" "mm_nextID s1 = mm_nextID s" "mm_peerWatermarks s1 = mm_peerWatermarks s"
    "mm_experiences s1 = mm_experiences s" "mm_fingerprints s1 = mm_fingerprints s" "mm_facts s1 = mm_facts s"
    "mm_performances s1 = mm_performances s" "mm_learnedBiases s1 = mm_learnedBiases s" "mm_dialogues s1 = mm_dialogues s"
  using assms by (auto simp: nextSequenceLocked_def Notify_def Let_def)

lemma next_marks:
  assumes "nextSequenceLocked og s = (sq, s1)"
  shows "sq = max (seq_of s og) (mark_of s og) + 1" "mark_of s1 k = (if k = og then sq else mark_of s k)" "seq_of s1 k = (if k = og then sq else seq_of s k)"
  using assms by (auto simp: nextSequenceLocked_def Notify_def Let_def max_def)

lemma next_grows:
  assumes "nextSequenceLocked og s = (sq, s1)" "room (Suc n) s"
  shows "mark_of s og < sq" "seq_of s og < sq" "sq \<noteq> 0" "room n s1" "unat sq + n < 2 ^ 64"
proof -
  let ?m = "max (seq_of s og) (mark_of s og)"
  have m: "unat ?m + Suc n < 2 ^ 64" using assms(2) by (simp add: room_def max_def)
  have sq: "sq = ?m + 1" by (rule next_marks(1) [OF assms(1)])
  have u: "unat sq = Suc (unat ?m)" unfolding sq using m by (subst unat_plus_if_size) (simp add: word_size)
  then have lt: "?m < sq" by (simp add: word_less_nat_alt)
  then show "mark_of s og < sq" "seq_of s og < sq" by simp_all
  then show "sq \<noteq> 0" by auto
  show "unat sq + n < 2 ^ 64" using u m by simp
  then show "room n s1" using room_mono [OF assms(2)] by (simp add: room_def next_marks(2,3) [OF assms(1)] next_fields(2) [OF assms(1)])
qed

lemma room_observe: "room n s \<Longrightarrow> unat sq + n < 2 ^ 64 \<Longrightarrow> room n (observeRecordLocked og sq s)"
  by (auto simp: room_def observe_marks max_def)

subsection \<open>Merging only adds\<close>

definition dialogue_le :: "dialogue \<Rightarrow> dialogue \<Rightarrow> bool" where
  "dialogue_le d c \<longleftrightarrow>
     (\<forall>t \<in> set (di_Turns d). \<exists>x \<in> set (di_Turns c). same_turn x t) \<and> set (di_Participants d) \<subseteq> set (di_Participants c) \<and>
     (di_Topic d \<noteq> [] \<longrightarrow> di_Topic c \<noteq> []) \<and> di_UpdatedAt d \<le> di_UpdatedAt c"

text \<open>A store that has everything another one has, perhaps in newer versions.\<close>

definition grows :: "memory_store \<Rightarrow> memory_store \<Rightarrow> bool" where
  "grows s s' \<longleftrightarrow>
     (\<forall>og. mark_of s og \<le> mark_of s' og \<and> seq_of s og \<le> seq_of s' og) \<and>
     (\<forall>k. gm_get (mm_fingerprints s) k = Some True \<longrightarrow> gm_get (mm_fingerprints s') k = Some True) \<and>
     (\<forall>k c. gm_get (mm_facts s) k = Some c \<longrightarrow> (\<exists>c'. gm_get (mm_facts s') k = Some c' \<and> fact_le c c')) \<and>
     (\<forall>k c. gm_get (mm_performances s) k = Some c \<longrightarrow> (\<exists>c'. gm_get (mm_performances s') k = Some c' \<and> pe_Attempts c \<le> pe_Attempts c')) \<and>
     (\<forall>k c. gm_get (mm_dialogues s) k = Some c \<longrightarrow> (\<exists>c'. gm_get (mm_dialogues s') k = Some c' \<and> dialogue_le c c'))"

lemma same_turn_trans: "same_turn x t \<Longrightarrow> same_turn y x \<Longrightarrow> same_turn y t"
  by (simp add: same_turn_def)

lemma dialogue_le_refl [simp]: "dialogue_le d d"
  by (auto simp: dialogue_le_def same_turn_def)

lemma dialogue_le_trans: "dialogue_le d c \<Longrightarrow> dialogue_le c b \<Longrightarrow> dialogue_le d b"
  unfolding dialogue_le_def by (meson order_trans same_turn_trans)

lemma dialogue_le_stamp [simp]: "dialogue_le d (c\<lparr>di_Origin := og, di_Sequence := sq\<rparr>) = dialogue_le d c"
  by (simp add: dialogue_le_def)

lemma set_add_participants [simp]: "set (add_participants ps qs) = set ps \<union> set qs"
  unfolding add_participants_def by (induction qs arbitrary: ps) auto

lemma add_participants_id: "set qs \<subseteq> set ps \<Longrightarrow> add_participants ps qs = ps"
  unfolding add_participants_def by (induction qs) auto

lemma add_turns_keep: "set ts \<subseteq> set (add_turns ts us)"
proof (induction us arbitrary: ts)
  case (Cons u us)
  let ?ts = "if list_ex (\<lambda>x. same_turn x u) ts then ts else ts @ [u]"
  have "set ts \<subseteq> set ?ts" by auto
  also have "\<dots> \<subseteq> set (add_turns ?ts us)" by (rule Cons.IH)
  also have "add_turns ?ts us = add_turns ts (u # us)" by (simp add: add_turns_def)
  finally show ?case .
qed (simp add: add_turns_def)

lemma add_turns_has: "t \<in> set us \<Longrightarrow> \<exists>x \<in> set (add_turns ts us). same_turn x t"
proof (induction us arbitrary: ts)
  case (Cons u us)
  let ?ts = "if list_ex (\<lambda>x. same_turn x u) ts then ts else ts @ [u]"
  have step: "add_turns ts (u # us) = add_turns ?ts us" by (simp add: add_turns_def)
  show ?case
  proof (cases "t = u")
    case True
    have "\<exists>x \<in> set ?ts. same_turn x u" by (auto simp: list_ex_iff same_turn_def)
    then show ?thesis unfolding step True using add_turns_keep [of ?ts us] by blast
  next
    case False
    with Cons show ?thesis unfolding step by simp
  qed
qed simp

lemma add_turns_id: "\<forall>t \<in> set us. \<exists>x \<in> set ts. same_turn x t \<Longrightarrow> add_turns ts us = ts"
  unfolding add_turns_def by (induction us) (auto simp: list_ex_iff)

lemma merge_dialogue_le: "dialogue_le d (merge_dialogue d c)" "dialogue_le c (merge_dialogue d c)"
  using add_turns_has [of _ "di_Turns d" "di_Turns c"] add_turns_keep [of "di_Turns c" "di_Turns d"]
  by (auto simp: dialogue_le_def merge_dialogue_def same_turn_def)

lemma merge_dialogue_id: "dialogue_le d c \<Longrightarrow> merge_dialogue d c = c"
  by (auto simp: dialogue_le_def merge_dialogue_def add_turns_id add_participants_id)

lemma grows_refl [simp]: "grows s s"
  by (auto simp: grows_def)

lemma grows_trans: "grows s s' \<Longrightarrow> grows s' s'' \<Longrightarrow> grows s s''"
  unfolding grows_def by (intro conjI allI impI) (meson order_trans fact_le_trans dialogue_le_trans)+

lemma grows_observe: "grows s (observeRecordLocked og sq s)"
  by (auto simp: grows_def observe_marks)

lemma grows_next:
  assumes "nextSequenceLocked og s = (sq, s1)" "room (Suc n) s"
  shows "grows s s1"
  using next_grows(1,2) [OF assms] by (auto simp: grows_def next_fields [OF assms(1)] next_marks(2,3) [OF assms(1)] intro: less_imp_le)

subsection \<open>Absorbing one record\<close>

text \<open>A contract for merges that may be repeated: a merge absorbs its record, keeps absorbed what was absorbed, and does nothing to a store
  that has absorbed its record already. \<open>room\<close> bounds the sequences that are left and \<open>fits\<close> the sequences of a record; the first argument of a
  merge is its reading of the clock.\<close>

locale absorbing_merge =
  fixes merge :: "'t \<Rightarrow> 'r \<Rightarrow> 's \<Rightarrow> 's"
    and absorbed :: "'r \<Rightarrow> 's \<Rightarrow> bool"
    and left :: "nat \<Rightarrow> 's \<Rightarrow> bool"
    and fits :: "nat \<Rightarrow> 'r \<Rightarrow> bool"
  assumes fits_less: "fits (Suc n) r \<Longrightarrow> fits n r"
    and left_merge: "left (Suc n) s \<Longrightarrow> fits (Suc n) r \<Longrightarrow> left n (merge t r s)"
    and takes: "left (Suc n) s \<Longrightarrow> fits (Suc n) r \<Longrightarrow> absorbed r (merge t r s)"
    and keeps: "left (Suc n) s \<Longrightarrow> fits (Suc n) r' \<Longrightarrow> absorbed r s \<Longrightarrow> absorbed r (merge t r' s)"
    and ignores: "fits n r \<Longrightarrow> absorbed r s \<Longrightarrow> merge t r s = s"
begin

abbreviation merge_all :: "('t \<times> 'r) list \<Rightarrow> 's \<Rightarrow> 's" where
  "merge_all \<equiv> fold (\<lambda>(t, r). merge t r)"

lemma left_all:
  "left (length trs + n) s \<Longrightarrow> \<forall>r \<in> snd ` set trs. fits (length trs + n) r \<Longrightarrow> left n (merge_all trs s)"
proof (induction trs arbitrary: s)
  case (Cons x trs)
  obtain t r where x: "x = (t, r)" by fastforce
  have "left (length trs + n) (merge t r s)" using Cons.prems by (intro left_merge) (simp_all add: x)
  moreover have "\<forall>r \<in> snd ` set trs. fits (length trs + n) r" using Cons.prems(2) fits_less by (auto simp: x)
  ultimately show ?case using Cons.IH by (simp add: x)
qed simp

lemma keeps_all:
  "left (length trs + n) s \<Longrightarrow> \<forall>r \<in> snd ` set trs. fits (length trs + n) r \<Longrightarrow> absorbed r s \<Longrightarrow> absorbed r (merge_all trs s)"
proof (induction trs arbitrary: s)
  case (Cons x trs)
  obtain t r' where x: "x = (t, r')" by fastforce
  have "left (length trs + n) (merge t r' s)" using Cons.prems by (intro left_merge) (simp_all add: x)
  moreover have "\<forall>r \<in> snd ` set trs. fits (length trs + n) r" using Cons.prems(2) fits_less by (auto simp: x)
  moreover have "absorbed r (merge t r' s)" using Cons.prems by (intro keeps [of "length trs + n"]) (simp_all add: x)
  ultimately show ?case using Cons.IH by (simp add: x)
qed simp

lemma absorbs_all:
  "left (length trs + n) s \<Longrightarrow> \<forall>r \<in> snd ` set trs. fits (length trs + n) r \<Longrightarrow> r \<in> snd ` set trs \<Longrightarrow> absorbed r (merge_all trs s)"
proof (induction trs arbitrary: s)
  case (Cons x trs)
  obtain t r' where x: "x = (t, r')" by fastforce
  have l: "left (length trs + n) (merge t r' s)" using Cons.prems by (intro left_merge) (simp_all add: x)
  have f: "\<forall>r \<in> snd ` set trs. fits (length trs + n) r" using Cons.prems(2) fits_less by (auto simp: x)
  show ?case
  proof (cases "r \<in> snd ` set trs")
    case True
    then show ?thesis using Cons.IH [OF l f] by (simp add: x)
  next
    case False
    with Cons.prems(3) have "r = r'" by (simp add: x)
    then have "absorbed r (merge t r' s)" using Cons.prems by (auto intro: takes simp: x)
    then show ?thesis using keeps_all [OF l f] by (simp add: x)
  qed
qed simp

lemma ignores_all: "\<forall>r \<in> snd ` set trs. fits n r \<and> absorbed r s \<Longrightarrow> merge_all trs s = s"
  by (induction trs) (auto simp: ignores)

end

datatype mem_record =
    RExperience experience
  | RFact fact
  | RPerformance performance
  | RDialogue dialogue
  | RMark string uint64

fun merge_record :: "mem_codec \<Rightarrow> string \<Rightarrow> time \<Rightarrow> mem_record \<Rightarrow> memory_store \<Rightarrow> memory_store" where
  "merge_record cd src now (RExperience e) s = mergeExperienceFrom cd now src e s"
| "merge_record cd src now (RFact f) s = snd (mergeFactFrom now src f s)"
| "merge_record cd src now (RPerformance p) s = snd (mergePerformance src p (False, s))"
| "merge_record cd src now (RDialogue d) s = mergeDialogueFrom src d s"
| "merge_record cd src now (RMark og sq) s = observeRecordLocked og sq s"

fun record_sequence :: "mem_record \<Rightarrow> uint64" where
  "record_sequence (RExperience e) = ex_Sequence e"
| "record_sequence (RFact f) = fa_Sequence f"
| "record_sequence (RPerformance p) = pe_Sequence p"
| "record_sequence (RDialogue d) = di_Sequence d"
| "record_sequence (RMark og sq) = sq"

text \<open>A fact needs a key and an instant of its own: with neither, the clock of the receiver decides which version is newer.\<close>

fun complete_record :: "mem_record \<Rightarrow> bool" where
  "complete_record (RFact f) \<longleftrightarrow> fa_Key f \<noteq> [] \<and> (fa_UpdatedAt f \<noteq> 0 \<or> fa_CreatedAt f \<noteq> 0)"
| "complete_record _ \<longleftrightarrow> True"

definition fits_record :: "nat \<Rightarrow> mem_record \<Rightarrow> bool" where
  "fits_record n r \<longleftrightarrow> unat (record_sequence r) + n < 2 ^ 64 \<and> complete_record r"

definition performance_key :: "performance \<Rightarrow> string" where
  "performance_key p = perfKey (pe_NodeID p) (pe_Model p) (if pe_TaskType p = [] then ''general'' else pe_TaskType p)"

fun absorbed_record :: "mem_codec \<Rightarrow> mem_record \<Rightarrow> memory_store \<Rightarrow> bool" where
  "absorbed_record cd (RExperience e) s \<longleftrightarrow>
     observed (ex_Origin e) (ex_Sequence e) s \<and> gm_get (mm_fingerprints s) (experienceFingerprint cd e) = Some True"
| "absorbed_record cd (RFact f) s \<longleftrightarrow>
     observed (fa_Origin f) (fa_Sequence f) s \<and>
     (\<exists>c. gm_get (mm_facts s) (fact_key (fa_Scope (normalize_fact 0 f)) (fa_Key f)) = Some c \<and> fact_le (normalize_fact 0 f) c)"
| "absorbed_record cd (RPerformance p) s \<longleftrightarrow>
     pe_NodeID p = [] \<or> pe_Model p = [] \<or>
     observed (pe_Origin p) (pe_Sequence p) s \<and>
     (\<exists>c. gm_get (mm_performances s) (performance_key p) = Some c \<and> pe_Attempts p \<le> pe_Attempts c)"
| "absorbed_record cd (RDialogue d) s \<longleftrightarrow>
     di_ID d = [] \<or>
     observed (di_Origin d) (di_Sequence d) s \<and> (\<exists>c. gm_get (mm_dialogues s) (di_ID d) = Some c \<and> dialogue_le d c)"
| "absorbed_record cd (RMark og sq) s \<longleftrightarrow> observed og sq s"

lemma observed_grows: "observed og sq s \<Longrightarrow> grows s s' \<Longrightarrow> observed og sq s'"
  unfolding observed_def grows_def by (meson order_trans)

lemma absorbed_grows:
  assumes "absorbed_record cd r s" "grows s s'"
  shows "absorbed_record cd r s'"
proof -
  note o = observed_grows [OF _ assms(2)]
  show ?thesis
  proof (cases r)
    case (RExperience e)
    then show ?thesis using assms o by (simp add: grows_def)
  next
    case (RFact f)
    then show ?thesis using assms o unfolding grows_def by simp (meson fact_le_trans)
  next
    case (RPerformance p)
    then show ?thesis using assms o unfolding grows_def by simp (meson order_trans)
  next
    case (RDialogue d)
    then show ?thesis using assms o unfolding grows_def by simp (meson dialogue_le_trans)
  next
    case (RMark og sq)
    then show ?thesis using assms o by simp
  qed
qed

lemma normalize_fields [simp]:
  "fa_Key (normalize_fact now f) = fa_Key f" "fa_Origin (normalize_fact now f) = fa_Origin f" "fa_Sequence (normalize_fact now f) = fa_Sequence f"
  "fa_Source (normalize_fact now f) = fa_Source f" "fa_Value (normalize_fact now f) = fa_Value f"
  "fa_Scope (normalize_fact now f) = (if fa_Scope f = [] then ''cluster'' else fa_Scope f)"
  by (simp_all add: normalize_fact_def Let_def)

lemma normalize_timed: "fa_UpdatedAt f \<noteq> 0 \<or> fa_CreatedAt f \<noteq> 0 \<Longrightarrow> normalize_fact now f = normalize_fact 0 f"
  by (auto simp: normalize_fact_def)

text \<open>What a merge of one record does, by kind of record: the store grows, the record is absorbed, and one sequence at most is taken.\<close>

definition absorbs :: "mem_codec \<Rightarrow> nat \<Rightarrow> mem_record \<Rightarrow> memory_store \<Rightarrow> memory_store \<Rightarrow> bool" where
  "absorbs cd n r s s' \<longleftrightarrow> grows s s' \<and> absorbed_record cd r s' \<and> room n s'"

lemma grows_put:
  "(\<And>c. gm_get (mm_facts s) k = Some c \<Longrightarrow> fact_le c f) \<Longrightarrow> grows s (s\<lparr>mm_facts := gm_put k f (mm_facts s)\<rparr>)"
  "(\<And>c. gm_get (mm_performances s) k = Some c \<Longrightarrow> pe_Attempts c \<le> pe_Attempts p) \<Longrightarrow> grows s (s\<lparr>mm_performances := gm_put k p (mm_performances s)\<rparr>)"
  "(\<And>c. gm_get (mm_dialogues s) k = Some c \<Longrightarrow> dialogue_le c d) \<Longrightarrow> grows s (s\<lparr>mm_dialogues := gm_put k d (mm_dialogues s)\<rparr>)"
  "grows s (s\<lparr>mm_nextID := i, mm_experiences := es, mm_fingerprints := gm_put k True (mm_fingerprints s)\<rparr>)"
  by (auto simp: grows_def)

lemma room_put [simp]:
  "room n (s\<lparr>mm_facts := fs\<rparr>) = room n s" "room n (s\<lparr>mm_performances := ps\<rparr>) = room n s" "room n (s\<lparr>mm_dialogues := ds\<rparr>) = room n s"
  "room n (s\<lparr>mm_experiences := es\<rparr>) = room n s" "room n (s\<lparr>mm_fingerprints := fp\<rparr>) = room n s"
  "room n (s\<lparr>mm_learnedBiases := lb\<rparr>) = room n s" "room n (s\<lparr>mm_peerWatermarks := pw\<rparr>) = room n s"
  by (simp_all add: room_def)

lemma room_nextID: "room (Suc n) s \<Longrightarrow> room n s1 \<Longrightarrow> mm_nextID s1 = mm_nextID s \<Longrightarrow> room n (s1\<lparr>mm_nextID := mm_nextID s1 + 1\<rparr>)"
proof -
  assume a: "room (Suc n) s" "room n s1" "mm_nextID s1 = mm_nextID s"
  then have "unat (mm_nextID s) + Suc n < 2 ^ 64" by (simp add: room_def)
  then have "unat (mm_nextID s + 1) = Suc (unat (mm_nextID s))" by (subst unat_plus_if_size) (simp add: word_size)
  with a show ?thesis by (simp add: room_def)
qed

text \<open>The stamp that a record keeps or is given, after the store has observed it.\<close>

definition restamp :: "string \<Rightarrow> string \<Rightarrow> uint64 \<Rightarrow> memory_store \<Rightarrow> (string \<times> uint64) \<times> memory_store" where
  "restamp src og sq s =
     (if og = [] \<or> sq = 0 then (let (n, s1) = nextSequenceLocked src s in ((src, n), s1)) else ((og, sq), observeRecordLocked og sq s))"

lemma restamp_grows:
  assumes "restamp src og sq s = (st, s1)" "room (Suc n) s" "unat sq + n < 2 ^ 64" "observed og sq s"
  shows "grows s s1 \<and> room n s1"
proof (cases "og = [] \<or> sq = 0")
  case True
  with assms(1) have "nextSequenceLocked src s = (snd st, s1)" by (auto simp: restamp_def split: prod.splits)
  then show ?thesis using grows_next [OF _ assms(2)] next_grows(4) [OF _ assms(2)] by blast
next
  case False
  with assms(1) have "s1 = observeRecordLocked og sq s" by (simp add: restamp_def)
  then show ?thesis using assms(2,4) observe_id room_mono by auto
qed

lemma restamp_fields:
  assumes "restamp src og sq s = (st, s1)"
  shows "mm_facts s1 = mm_facts s" "mm_performances s1 = mm_performances s" "mm_dialogues s1 = mm_dialogues s"
    "mm_fingerprints s1 = mm_fingerprints s" "mm_experiences s1 = mm_experiences s" "mm_nextID s1 = mm_nextID s"
    "mm_origin s1 = mm_origin s" "mm_learnedBiases s1 = mm_learnedBiases s" "mm_peerWatermarks s1 = mm_peerWatermarks s"
  using assms by (auto simp: restamp_def next_fields split: if_splits prod.splits)

lemma mergeExperience_eq:
  "mergeExperienceFrom cd now src e s =
     (let s1 = observeRecordLocked (ex_Origin e) (ex_Sequence e) s
      in if gm_get (mm_fingerprints s1) (experienceFingerprint cd e) = Some True then s1
         else let ((og, sq), s2) = restamp src (ex_Origin e) (ex_Sequence e) s1
              in s2\<lparr>mm_nextID := mm_nextID s2 + 1,
                    mm_experiences := mm_experiences s2 @
                      [e\<lparr>ex_CreatedAt := (if ex_CreatedAt e = 0 then now else ex_CreatedAt e), ex_Origin := og, ex_Sequence := sq, ex_ID := mm_nextID s2 + 1\<rparr>],
                    mm_fingerprints := gm_put (experienceFingerprint cd e) True (mm_fingerprints s2)\<rparr>)"
  by (simp add: mergeExperienceFrom_def restamp_def Let_def observe_id [OF observe_observed] split: prod.split)

lemma absorbs_experience:
  assumes "room (Suc n) s" "unat (ex_Sequence e) + Suc n < 2 ^ 64"
  shows "absorbs cd n (RExperience e) s (mergeExperienceFrom cd now src e s)"
proof -
  define s1 where "s1 = observeRecordLocked (ex_Origin e) (ex_Sequence e) s"
  have s1: "grows s s1" "room (Suc n) s1" "observed (ex_Origin e) (ex_Sequence e) s1"
    using room_observe [OF assms] by (simp_all add: s1_def grows_observe observe_observed)
  show ?thesis
  proof (cases "gm_get (mm_fingerprints s1) (experienceFingerprint cd e) = Some True")
    case True
    then have "mergeExperienceFrom cd now src e s = s1" by (simp add: mergeExperience_eq s1_def)
    then show ?thesis using True s1 room_mono by (simp add: absorbs_def)
  next
    case False
    obtain og sq s2 where r: "restamp src (ex_Origin e) (ex_Sequence e) s1 = ((og, sq), s2)" by (metis prod.collapse)
    have g: "grows s1 s2 \<and> room n s2" using restamp_grows [OF r s1(2) _ s1(3)] assms(2) by simp
    obtain es where m: "mergeExperienceFrom cd now src e s =
        s2\<lparr>mm_nextID := mm_nextID s2 + 1, mm_experiences := es, mm_fingerprints := gm_put (experienceFingerprint cd e) True (mm_fingerprints s2)\<rparr>"
      using False r by (simp add: mergeExperience_eq s1_def)
    have "grows s (mergeExperienceFrom cd now src e s)" using grows_trans [OF grows_trans [OF s1(1)]] g grows_put(4) m by metis
    moreover have "observed (ex_Origin e) (ex_Sequence e) (mergeExperienceFrom cd now src e s)"
      using observed_grows [OF s1(3)] grows_trans [OF conjunct1 [OF g] grows_put(4)] m by metis
    moreover have "room n (mergeExperienceFrom cd now src e s)" using room_nextID [OF s1(2)] g restamp_fields(6) [OF r] by (simp add: m)
    ultimately show ?thesis by (simp add: absorbs_def m)
  qed
qed

lemma mergeFact_eq:
  assumes "fa_Key f \<noteq> []" "n = normalize_fact now f" "key = fact_key (fa_Scope n) (fa_Key f)" "s1 = observeRecordLocked (fa_Origin f) (fa_Sequence f) s"
  shows "mergeFactFrom now src f s =
    (case gm_get (mm_facts s) key of
       None \<Rightarrow> (let ((og, sq), s2) = restamp src (fa_Origin f) (fa_Sequence f) s1
                in (None, s2\<lparr>mm_facts := gm_put key (n\<lparr>fa_Origin := og, fa_Sequence := sq\<rparr>) (mm_facts s2)\<rparr>))
     | Some c \<Rightarrow>
         if fact_le n c then (None, s1)
         else (let ((og, sq), s2) = restamp src (fa_Origin f) (fa_Sequence f) s1
               in (None, s2\<lparr>mm_facts := gm_put key (n\<lparr>fa_CreatedAt := min (fa_CreatedAt c) (fa_CreatedAt n),
                      fa_Hits := max (fa_Hits c) (fa_Hits n), fa_Origin := og, fa_Sequence := sq\<rparr>) (mm_facts s2)\<rparr>)))"
proof -
  have keep: "g\<lparr>fa_Origin := fa_Origin f, fa_Sequence := fa_Sequence f\<rparr> = g" if "fa_Origin g = fa_Origin f" "fa_Sequence g = fa_Sequence f" for g :: fact
    using that by (cases g) simp
  note keeps = keep [of "normalize_fact now f"] keep [of "(normalize_fact now f)\<lparr>fa_CreatedAt := c, fa_Hits := h\<rparr>" for c h]
  show ?thesis
  proof (cases "fa_Origin f = [] \<or> fa_Sequence f = 0")
    case True
    then show ?thesis using assms(1) unfolding mergeFactFrom_def restamp_def assms(2-4)
      by (simp add: Let_def split: option.split prod.split)
  next
    case False
    then show ?thesis using assms(1) unfolding mergeFactFrom_def restamp_def assms(2-4)
      by (simp add: Let_def keeps split: option.split)
  qed
qed

lemma mergeFact_cases:
  assumes "fa_Key f \<noteq> []" "n = normalize_fact now f" "key = fact_key (fa_Scope n) (fa_Key f)" "s1 = observeRecordLocked (fa_Origin f) (fa_Sequence f) s"
  obtains (kept) c where "gm_get (mm_facts s) key = Some c" "fact_le n c" "mergeFactFrom now src f s = (None, s1)"
  | (taken) og sq s2 f' where "\<And>c. gm_get (mm_facts s) key = Some c \<Longrightarrow> \<not> fact_le n c"
      "restamp src (fa_Origin f) (fa_Sequence f) s1 = ((og, sq), s2)" "fa_Key f' = fa_Key f" "fa_Scope f' = fa_Scope n"
      "fa_UpdatedAt f' = fa_UpdatedAt n" "fa_Source f' = fa_Source f" "fa_Value f' = fa_Value f" "fa_Origin f' = og" "fa_Sequence f' = sq"
      "mergeFactFrom now src f s = (None, s2\<lparr>mm_facts := gm_put key f' (mm_facts s2)\<rparr>)"
proof -
  obtain og sq s2 where r: "restamp src (fa_Origin f) (fa_Sequence f) s1 = ((og, sq), s2)" by (metis prod.collapse)
  note e = mergeFact_eq [OF assms, of src, unfolded r]
  show ?thesis
  proof (cases "gm_get (mm_facts s) key")
    case None
    show ?thesis by (rule taken [OF _ r, of "n\<lparr>fa_Origin := og, fa_Sequence := sq\<rparr>"]) (simp_all add: None e assms(2))
  next
    case (Some c)
    show ?thesis
    proof (cases "fact_le n c")
      case True
      with Some e kept show ?thesis by simp
    next
      case False
      show ?thesis
        by (rule taken [OF _ r, of "n\<lparr>fa_CreatedAt := min (fa_CreatedAt c) (fa_CreatedAt n), fa_Hits := max (fa_Hits c) (fa_Hits n), fa_Origin := og, fa_Sequence := sq\<rparr>"])
          (use False Some e in \<open>simp_all add: assms(2)\<close>)
    qed
  qed
qed

lemma absorbs_fact:
  assumes "room (Suc m) s" "fits_record (Suc m) (RFact f)"
  shows "absorbs cd m (RFact f) s (snd (mergeFactFrom now src f s))" "fst (mergeFactFrom now src f s) = None"
proof -
  define s1 where "s1 = observeRecordLocked (fa_Origin f) (fa_Sequence f) s"
  define n where "n = normalize_fact now f"
  define key where "key = fact_key (fa_Scope n) (fa_Key f)"
  from assms(2) have f: "fa_Key f \<noteq> []" "unat (fa_Sequence f) + Suc m < 2 ^ 64" by (simp_all add: fits_record_def)
  have n0: "n = normalize_fact 0 f" unfolding n_def by (rule normalize_timed) (use assms(2) in \<open>simp add: fits_record_def\<close>)
  have s1: "grows s s1" "room (Suc m) s1" "observed (fa_Origin f) (fa_Sequence f) s1"
    using room_observe [OF assms(1) f(2)] by (simp_all add: s1_def grows_observe observe_observed)
  have "absorbs cd m (RFact f) s (snd (mergeFactFrom now src f s)) \<and> fst (mergeFactFrom now src f s) = None"
    using f(1) n_def key_def s1_def
  proof (cases rule: mergeFact_cases [where src = src])
    case (kept c)
    then show ?thesis using s1 room_mono n0 by (auto simp: absorbs_def key_def s1_def)
  next
    case (taken og sq s2 f')
    have g: "grows s1 s2 \<and> room m s2" using restamp_grows [OF taken(2) s1(2) _ s1(3)] f(2) by simp
    let ?t = "s2\<lparr>mm_facts := gm_put key f' (mm_facts s2)\<rparr>"
    have le: "fact_le x f' = fact_le x n" "fact_le f' x = fact_le n x" for x
      using fact_le_cong [of f' n x] taken(5-7) by (simp_all add: n_def)
    have "fact_le c f'" if "gm_get (mm_facts s2) key = Some c" for c
      using fact_le_total [OF taken(1)] that restamp_fields(1) [OF taken(2)] le by (simp add: s1_def)
    then have t: "grows s2 ?t" by (rule grows_put(1))
    have "observed (fa_Origin f) (fa_Sequence f) ?t" using observed_grows [OF s1(3)] grows_trans [OF conjunct1 [OF g] t] by blast
    moreover have "grows s ?t" using grows_trans [OF s1(1)] grows_trans [OF conjunct1 [OF g] t] by blast
    ultimately show ?thesis using g taken(10) le(2) [of f'] by (simp add: absorbs_def n0 [symmetric] key_def [symmetric])
  qed
  then show "absorbs cd m (RFact f) s (snd (mergeFactFrom now src f s))" "fst (mergeFactFrom now src f s) = None" by auto
qed

lemma mergePerformance_eq:
  assumes "pe_NodeID p \<noteq> []" "pe_Model p \<noteq> []"
  shows "mergePerformance src p (ch, s) =
    (if enough_evidence (pe_Attempts p) (performance_key p) s
     then (ch, observeRecordLocked (pe_Origin p) (pe_Sequence p) s)
     else let ((og, sq), s1) = restamp src (pe_Origin p) (pe_Sequence p) s
          in (True, s1\<lparr>mm_performances := gm_put (performance_key p)
               (p\<lparr>pe_TaskType := (if pe_TaskType p = [] then ''general'' else pe_TaskType p), pe_Origin := og, pe_Sequence := sq\<rparr>) (mm_performances s1)\<rparr>))"
proof -
  have keep: "p\<lparr>pe_Origin := pe_Origin p, pe_Sequence := pe_Sequence p\<rparr> = p" "p\<lparr>pe_TaskType := pe_TaskType p\<rparr> = p"
    "p\<lparr>pe_TaskType := tt, pe_Origin := pe_Origin p, pe_Sequence := pe_Sequence p\<rparr> = p\<lparr>pe_TaskType := tt\<rparr>" for tt by (cases p; simp)+
  define q where "q = p\<lparr>pe_TaskType := (if pe_TaskType p = [] then ''general'' else pe_TaskType p)\<rparr>"
  have q: "(if pe_TaskType p = [] then p\<lparr>pe_TaskType := ''general''\<rparr> else p) = q" "perfKey (pe_NodeID q) (pe_Model q) (pe_TaskType q) = performance_key p"
    "pe_Attempts q = pe_Attempts p" "pe_Origin q = pe_Origin p" "pe_Sequence q = pe_Sequence p"
    "q\<lparr>pe_Origin := pe_Origin p, pe_Sequence := pe_Sequence p\<rparr> = q"
    using keep by (simp_all add: q_def performance_key_def)
  show ?thesis
    using assms keep(3) unfolding mergePerformance_def restamp_def q_def [symmetric]
    by (simp add: q Let_def split: prod.split)
qed

lemma absorbs_performance:
  assumes "room (Suc m) s" "unat (pe_Sequence p) + Suc m < 2 ^ 64"
  shows "absorbs cd m (RPerformance p) s (snd (mergePerformance src p (ch, s)))"
proof (cases "pe_NodeID p = [] \<or> pe_Model p = []")
  case True
  then have "mergePerformance src p (ch, s) = (ch, s)" by (auto simp: mergePerformance_def)
  with True show ?thesis using room_mono [OF assms(1)] by (auto simp: absorbs_def)
next
  case False
  then have p: "pe_NodeID p \<noteq> []" "pe_Model p \<noteq> []" by auto
  note e = mergePerformance_eq [OF p, of src ch s]
  show ?thesis
  proof (cases "enough_evidence (pe_Attempts p) (performance_key p) s")
    case True
    then have "mergePerformance src p (ch, s) = (ch, observeRecordLocked (pe_Origin p) (pe_Sequence p) s)" unfolding e by simp
    then show ?thesis using True room_mono [OF room_observe [OF assms]] by (auto simp: absorbs_def grows_observe observe_observed enough_evidence_def split: option.splits)
  next
    case False
    obtain og sq s1 where r: "restamp src (pe_Origin p) (pe_Sequence p) s = ((og, sq), s1)" by (metis prod.collapse)
    define q where "q = p\<lparr>pe_TaskType := (if pe_TaskType p = [] then ''general'' else pe_TaskType p), pe_Origin := og, pe_Sequence := sq\<rparr>"
    let ?t = "s1\<lparr>mm_performances := gm_put (performance_key p) q (mm_performances s1)\<rparr>"
    have m: "mergePerformance src p (ch, s) = (True, ?t)" unfolding e q_def using False r by simp
    have g: "grows s s1 \<and> room m s1 \<and> observed (pe_Origin p) (pe_Sequence p) s1"
    proof (cases "pe_Origin p = [] \<or> pe_Sequence p = 0")
      case True
      with r have "nextSequenceLocked src s = (sq, s1)" by (auto simp: restamp_def split: prod.splits)
      then show ?thesis using grows_next [OF _ assms(1)] next_grows(4) [OF _ assms(1)] True by (auto simp: observed_def)
    next
      case False
      with r have "s1 = observeRecordLocked (pe_Origin p) (pe_Sequence p) s" by (auto simp: restamp_def)
      then show ?thesis using room_mono [OF room_observe [OF assms]] by (simp add: grows_observe observe_observed)
    qed
    have "pe_Attempts c \<le> pe_Attempts q" if "gm_get (mm_performances s1) (performance_key p) = Some c" for c
      using False that restamp_fields(2) [OF r] by (auto simp: q_def enough_evidence_def)
    then have t: "grows s1 ?t" by (rule grows_put(2))
    have "grows s ?t" "observed (pe_Origin p) (pe_Sequence p) ?t" using g t grows_trans observed_grows by blast+
    then show ?thesis using g m by (simp add: absorbs_def q_def)
  qed
qed

lemma absorbs_dialogue:
  assumes "room (Suc m) s" "unat (di_Sequence d) + Suc m < 2 ^ 64"
  shows "absorbs cd m (RDialogue d) s (mergeDialogueFrom src d s)"
proof (cases "di_ID d = []")
  case True
  then show ?thesis using room_mono [OF assms(1)] by (simp add: absorbs_def mergeDialogueFrom_def)
next
  case False
  define s1 where "s1 = observeRecordLocked (di_Origin d) (di_Sequence d) s"
  have s1: "grows s s1" "room (Suc m) s1" "observed (di_Origin d) (di_Sequence d) s1"
    using room_observe [OF assms] by (simp_all add: s1_def grows_observe observe_observed)
  let ?un = "di_Origin d = [] \<or> di_Sequence d = 0"
  have put: "absorbs cd m (RDialogue d) s (s2\<lparr>mm_dialogues := gm_put (di_ID d) d' (mm_dialogues s2)\<rparr>)"
    if "grows s1 s2" "room m s2" "mm_dialogues s2 = mm_dialogues s" "dialogue_le d d'" "\<And>c. gm_get (mm_dialogues s) (di_ID d) = Some c \<Longrightarrow> dialogue_le c d'" for s2 d'
  proof -
    have t: "grows s2 (s2\<lparr>mm_dialogues := gm_put (di_ID d) d' (mm_dialogues s2)\<rparr>)" by (rule grows_put(3)) (use that in simp)
    from grows_trans [OF that(1) t] have "grows s1 (s2\<lparr>mm_dialogues := gm_put (di_ID d) d' (mm_dialogues s2)\<rparr>)" .
    then show ?thesis using grows_trans [OF s1(1)] observed_grows [OF s1(3)] that(2,4) by (simp add: absorbs_def)
  qed
  show ?thesis
  proof (cases "gm_get (mm_dialogues s) (di_ID d)")
    case None
    show ?thesis
    proof (cases ?un)
      case True
      obtain n s2 where n: "nextSequenceLocked src s1 = (n, s2)" by fastforce
      have "mergeDialogueFrom src d s = s2\<lparr>mm_dialogues := gm_put (di_ID d) (d\<lparr>di_Origin := src, di_Sequence := n\<rparr>) (mm_dialogues s2)\<rparr>"
        using False None True n by (auto simp: mergeDialogueFrom_def s1_def Let_def)
      then show ?thesis using put grows_next [OF n s1(2)] next_grows(4) [OF n s1(2)] next_fields(9) [OF n] None by (simp add: s1_def)
    next
      case stamped: False
      then have "mergeDialogueFrom src d s = s1\<lparr>mm_dialogues := gm_put (di_ID d) d (mm_dialogues s1)\<rparr>"
        using False None by (simp add: mergeDialogueFrom_def s1_def Let_def)
      then show ?thesis using put [of s1 d] room_mono [OF s1(2)] None by (simp add: s1_def)
    qed
  next
    case (Some c)
    show ?thesis
    proof (cases "merge_dialogue d c = c")
      case True
      then have "mergeDialogueFrom src d s = s1" using False Some by (simp add: mergeDialogueFrom_def s1_def Let_def)
      moreover have "dialogue_le d c" using merge_dialogue_le(1) [of d c] True by simp
      ultimately show ?thesis using s1 Some room_mono by (auto simp: absorbs_def s1_def)
    next
      case changed: False
      define og where "og = (if ?un then src else mm_origin s)"
      obtain n s2 where n: "nextSequenceLocked og s1 = (n, s2)" by fastforce
      have "mergeDialogueFrom src d s = s2\<lparr>mm_dialogues := gm_put (di_ID d) ((merge_dialogue d c)\<lparr>di_Origin := og, di_Sequence := n\<rparr>) (mm_dialogues s2)\<rparr>"
        by (cases ?un) (use False Some changed n in \<open>auto simp: mergeDialogueFrom_def og_def s1_def Let_def\<close>)
      then show ?thesis using put grows_next [OF n s1(2)] next_grows(4) [OF n s1(2)] next_fields(9) [OF n] Some merge_dialogue_le(1) [of d c]
          merge_dialogue_le(2) [of c d] by (simp add: s1_def)
    qed
  qed
qed

lemma absorbs_record:
  assumes "room (Suc n) s" "fits_record (Suc n) r"
  shows "absorbs cd n r s (merge_record cd src now r s)"
proof (cases r)
  case (RMark og sq)
  then show ?thesis using room_mono [OF room_observe [OF assms(1), of sq og]] assms(2) by (simp add: absorbs_def grows_observe observe_observed fits_record_def)
qed (use assms absorbs_experience absorbs_fact(1) absorbs_performance absorbs_dialogue in \<open>auto simp: fits_record_def\<close>)

lemma absorbed_performance:
  assumes "absorbed_record cd (RPerformance p) s"
  shows "mergePerformance src p (ch, s) = (ch, s)"
proof (cases "pe_NodeID p = [] \<or> pe_Model p = []")
  case True
  then show ?thesis by (auto simp: mergePerformance_def)
next
  case False
  with assms have "observed (pe_Origin p) (pe_Sequence p) s" "enough_evidence (pe_Attempts p) (performance_key p) s"
    by (auto simp: enough_evidence_def)
  then show ?thesis using mergePerformance_eq [of p src ch s] False observe_id by simp
qed

lemma absorbed_ignored:
  assumes "fits_record n r" "absorbed_record cd r s"
  shows "merge_record cd src now r s = s"
proof (cases r)
  case (RExperience e)
  with assms(2) show ?thesis by (simp add: mergeExperience_eq observe_id)
next
  case (RFact f)
  with assms have f: "fa_Key f \<noteq> []" and n: "normalize_fact now f = normalize_fact 0 f" using normalize_timed [of f now] by (auto simp: fits_record_def)
  from RFact assms(2) obtain c where "observed (fa_Origin f) (fa_Sequence f) s"
    "gm_get (mm_facts s) (fact_key (fa_Scope (normalize_fact now f)) (fa_Key f)) = Some c" "fact_le (normalize_fact now f) c" unfolding n by auto
  then show ?thesis using RFact mergeFact_eq [OF f refl refl refl, where now = now and s = s and src = src] by (simp add: observe_id del: normalize_fields)
next
  case (RPerformance p)
  with assms(2) absorbed_performance show ?thesis by simp
next
  case (RDialogue d)
  with assms(2) show ?thesis by (auto simp: mergeDialogueFrom_def observe_id merge_dialogue_id)
next
  case (RMark og sq)
  with assms(2) show ?thesis by (simp add: observe_id)
qed

interpretation am: absorbing_merge "merge_record cd src" "absorbed_record cd" room fits_record for cd src
proof unfold_locales
  show "fits_record n r" if "fits_record (Suc n) r" for n r using that by (simp add: fits_record_def)
  show "room n (merge_record cd src t r s)" "absorbed_record cd r (merge_record cd src t r s)" if "room (Suc n) s" "fits_record (Suc n) r" for n s r t
    using absorbs_record [OF that] by (simp_all add: absorbs_def)
  show "absorbed_record cd r (merge_record cd src t r' s)" if "room (Suc n) s" "fits_record (Suc n) r'" "absorbed_record cd r s" for n s r' r t
    using absorbed_grows [OF that(3)] absorbs_record [OF that(1,2)] by (simp add: absorbs_def)
  show "merge_record cd src t r s = s" if "fits_record n r" "absorbed_record cd r s" for n r s t using that by (rule absorbed_ignored)
qed

subsection \<open>Merging a snapshot twice\<close>

definition snapshot_records :: "mem_snapshot \<Rightarrow> mem_record list" where
  "snapshot_records sn =
     map RExperience (sn_Experiences sn) @ map RFact (sn_Facts sn) @ map RPerformance (sn_Performances sn) @ map RDialogue (sn_Dialogues sn) @
     map (\<lambda>(og, sq). RMark og sq) (sn_Watermarks sn)"

definition timed :: "(nat \<Rightarrow> time) \<Rightarrow> nat \<Rightarrow> mem_record list \<Rightarrow> (time \<times> mem_record) list" where
  "timed clk k rs = map (\<lambda>(n, r). (clk n, r)) (enumerate k rs)"

lemma timed_records [simp]: "snd ` set (timed clk k rs) = set rs" "length (timed clk k rs) = length rs"
proof -
  have "map snd (timed clk k rs) = rs" unfolding timed_def by (induction rs arbitrary: k) simp_all
  then show "snd ` set (timed clk k rs) = set rs" by (metis set_map)
  show "length (timed clk k rs) = length rs" by (simp add: timed_def)
qed

lemma experiences_merge:
  "fold (\<lambda>(n, e). mergeExperienceFrom cd (clk n) src e) (enumerate k es) s =
     am.merge_all cd src (timed clk k (map RExperience es)) s"
  unfolding timed_def by (induction es arbitrary: k s) simp_all

lemma mergeFact_accepts: "fa_Key f \<noteq> [] \<Longrightarrow> fst (mergeFactFrom now src f s) = None"
  by (simp add: mergeFact_eq [OF _ refl refl refl] split_beta split: option.split)

lemma facts_merge:
  "\<forall>f \<in> set fs. fa_Key f \<noteq> [] \<Longrightarrow>
     merge_facts clk src k fs s = (None, am.merge_all cd src (timed clk k (map RFact fs)) s)"
proof (induction fs arbitrary: k s)
  case (Cons f fs)
  obtain s' where "mergeFactFrom (clk k) src f s = (None, s')" using mergeFact_accepts [of f "clk k" src s] Cons.prems
    by (metis list.set_intros(1) prod.collapse)
  then show ?case using Cons by (simp add: timed_def)
qed (simp add: timed_def)

lemma performances_merge:
  "snd (fold (mergePerformance src) ps (ch, s)) = am.merge_all cd src (timed clk k (map RPerformance ps)) s"
proof (induction ps arbitrary: k ch s)
  case (Cons p ps)
  have "snd (mergePerformance src p (ch, s)) = snd (mergePerformance src p (False, s))" by (simp add: mergePerformance_def Let_def split_beta)
  then obtain ch' where "mergePerformance src p (ch, s) = (ch', snd (mergePerformance src p (False, s)))" by (metis prod.collapse)
  then show ?case using Cons [of ch'] by (simp add: timed_def)
qed (simp add: timed_def)

lemma dialogues_merge: "fold (mergeDialogueFrom src) ds s = am.merge_all cd src (timed clk k (map RDialogue ds)) s"
  by (induction ds arbitrary: k s) (simp_all add: timed_def)

lemma marks_merge:
  "fold (\<lambda>(og, sq). observeRecordLocked og sq) w s = am.merge_all cd src (timed clk k (map (\<lambda>(og, sq). RMark og sq) w)) s"
  by (induction w arbitrary: k s) (simp_all add: timed_def split_beta)

lemma performances_absorbed:
  "\<forall>p \<in> set ps. absorbed_record cd (RPerformance p) s \<Longrightarrow> fold (mergePerformance src) ps (ch, s) = (ch, s)"
  by (induction ps) (simp_all add: absorbed_performance)

lemma absorbed_insensitive [simp]:
  "absorbed_record cd r (s\<lparr>mm_learnedBiases := lb\<rparr>) = absorbed_record cd r s" "absorbed_record cd r (s\<lparr>mm_peerWatermarks := pw\<rparr>) = absorbed_record cd r s"
  by (cases r; simp add: observed_def)+

lemma fits_mono: "fits_record n r \<Longrightarrow> m \<le> n \<Longrightarrow> fits_record m r"
  by (simp add: fits_record_def)

lemma absorb_phase:
  assumes "room (length rs + n) s \<and> (\<forall>r \<in> A. absorbed_record cd r s)" "\<forall>r \<in> set rs. fits_record N r" "length rs + n \<le> N"
    "s' = am.merge_all cd src (timed clk k rs) s"
  shows "room n s' \<and> (\<forall>r \<in> set rs \<union> A. absorbed_record cd r s')"
proof -
  have f: "\<forall>r \<in> snd ` set (timed clk k rs). fits_record (length (timed clk k rs) + n) r" using assms(2,3) fits_mono by simp blast
  have l: "room (length (timed clk k rs) + n) s" using assms(1) by simp
  show ?thesis unfolding assms(4) using am.left_all [OF l f] am.absorbs_all [OF l f] am.keeps_all [OF l f] assms(1) by auto
qed

text \<open>The phases of a merge: the records of each kind are merged and stay absorbed.\<close>

lemma merge_snapshot_absorbs:
  assumes "room (length (snapshot_records sn)) s" "\<forall>r \<in> set (snapshot_records sn). fits_record (length (snapshot_records sn)) r"
  obtains s1 where "MergeSnapshotFrom cd clk sn source s = (None, s1)" "\<forall>r \<in> set (snapshot_records sn). absorbed_record cd r s1"
    "\<exists>p. PeerWatermarks (if source = [] then legacyOrigin else source) s1 = mergeWatermarks p (sn_Watermarks sn)"
    "gm_get (mm_peerWatermarks s1) (if source = [] then legacyOrigin else source) \<noteq> None"
proof -
  define src where "src = (if source = [] then legacyOrigin else source)"
  define N where "N = length (snapshot_records sn)"
  define rE where "rE = map RExperience (sn_Experiences sn)"
  define rF where "rF = map RFact (sn_Facts sn)"
  define rP where "rP = map RPerformance (sn_Performances sn)"
  define rD where "rD = map RDialogue (sn_Dialogues sn)"
  define rM where "rM = map (\<lambda>(og, sq). RMark og sq) (sn_Watermarks sn)"
  note rdefs = rE_def rF_def rP_def rD_def rM_def
  have rs: "snapshot_records sn = rE @ rF @ rP @ rD @ rM" by (simp add: snapshot_records_def rdefs)
  then have N: "N = length rE + (length rF + (length rP + (length rD + length rM)))" by (simp add: N_def)
  have fits: "\<forall>r \<in> set rE. fits_record N r" "\<forall>r \<in> set rF. fits_record N r" "\<forall>r \<in> set rP. fits_record N r"
    "\<forall>r \<in> set rD. fits_record N r" "\<forall>r \<in> set rM. fits_record N r"
    using assms(2) unfolding N_def [symmetric] by (simp_all add: rs)
  define s1 where "s1 = am.merge_all cd src (timed clk 0 rE) s"
  define s2 where "s2 = am.merge_all cd src (timed clk (length (sn_Experiences sn)) rF) s1"
  define s3 where "s3 = am.merge_all cd src (timed (\<lambda>_. 0) 0 rP) s2"
  define s3p where "s3p = mergePerformancesFrom src (sn_Performances sn) s2"
  define s4 where "s4 = am.merge_all cd src (timed (\<lambda>_. 0) 0 rD) s3p"
  define s5 where "s5 = am.merge_all cd src (timed (\<lambda>_. 0) 0 rM) s4"
  define s6 where "s6 = s5\<lparr>mm_peerWatermarks := gm_put src (mergeWatermarks (PeerWatermarks src s5) (sn_Watermarks sn)) (mm_peerWatermarks s5)\<rparr>"
  have publish: "s3p = s3 \<or> s3p = s3\<lparr>mm_learnedBiases := Some (mm_performances s3)\<rparr>"
    unfolding s3p_def mergePerformancesFrom_def s3_def rP_def performances_merge [of src _ False _ cd "\<lambda>_. 0" 0, symmetric]
    by (simp add: publishPerformanceSnapshotLocked_def split_beta)
  have keys: "\<forall>f \<in> set (sn_Facts sn). fa_Key f \<noteq> []" using fits(2) by (auto simp: rF_def fits_record_def)
  have merged: "MergeSnapshotFrom cd clk sn source s = (None, s6)"
    using facts_merge [OF keys, of clk src "length (sn_Experiences sn)" s1 cd]
    unfolding MergeSnapshotFrom_def src_def [symmetric] Let_def experiences_merge
      dialogues_merge [where k = 0 and cd = cd and clk = "\<lambda>_. 0"] marks_merge [where k = 0 and cd = cd and src = src and clk = "\<lambda>_. 0"]
    by (simp add: s6_def s5_def s4_def s3p_def s2_def s1_def rdefs)
  have p1: "room (length rF + (length rP + (length rD + length rM))) s1 \<and> (\<forall>r \<in> set rE \<union> {}. absorbed_record cd r s1)"
    by (rule absorb_phase [OF _ fits(1) _ s1_def]) (use assms(1) N in \<open>simp_all add: N_def\<close>)
  have p2: "room (length rP + (length rD + length rM)) s2 \<and> (\<forall>r \<in> set rF \<union> (set rE \<union> {}). absorbed_record cd r s2)"
    by (rule absorb_phase [OF p1 fits(2) _ s2_def]) (simp add: N)
  have "room (length rD + length rM) s3 \<and> (\<forall>r \<in> set rP \<union> (set rF \<union> (set rE \<union> {})). absorbed_record cd r s3)"
    by (rule absorb_phase [OF p2 fits(3) _ s3_def]) (simp add: N)
  then have p3: "room (length rD + length rM) s3p \<and> (\<forall>r \<in> set rP \<union> (set rF \<union> (set rE \<union> {})). absorbed_record cd r s3p)" using publish by auto
  have p4: "room (length rM + 0) s4 \<and> (\<forall>r \<in> set rD \<union> (set rP \<union> (set rF \<union> (set rE \<union> {}))). absorbed_record cd r s4)"
    by (rule absorb_phase [OF _ fits(4) _ s4_def]) (use p3 N in simp_all)
  have "room 0 s5 \<and> (\<forall>r \<in> set rM \<union> (set rD \<union> (set rP \<union> (set rF \<union> (set rE \<union> {})))). absorbed_record cd r s5)"
    by (rule absorb_phase [OF p4 fits(5) _ s5_def]) (simp add: N)
  then have "\<forall>r \<in> set (snapshot_records sn). absorbed_record cd r s6" unfolding rs s6_def by auto
  then show ?thesis using that merged unfolding src_def [symmetric] by (auto simp: s6_def PeerWatermarks_def)
qed

lemma in_snapshot_records:
  "e \<in> set (sn_Experiences sn) \<Longrightarrow> RExperience e \<in> set (snapshot_records sn)" "f \<in> set (sn_Facts sn) \<Longrightarrow> RFact f \<in> set (snapshot_records sn)"
  "p \<in> set (sn_Performances sn) \<Longrightarrow> RPerformance p \<in> set (snapshot_records sn)"
  "d \<in> set (sn_Dialogues sn) \<Longrightarrow> RDialogue d \<in> set (snapshot_records sn)"
  "(og, sq) \<in> set (sn_Watermarks sn) \<Longrightarrow> RMark og sq \<in> set (snapshot_records sn)"
  by (force simp: snapshot_records_def)+

lemma gm_put_same: "gm_get m k = Some v \<Longrightarrow> gm_put k v m = m"
  by (induction m) (auto split: if_splits)

lemma mergeWatermarks_mono: "gm_get0 p og \<le> gm_get0 (mergeWatermarks p w) og"
proof (induction w arbitrary: p)
  case (Cons x w)
  obtain o' sq where x: "x = (o', sq)" by fastforce
  let ?p = "if gm_get0 p o' < sq then gm_put o' sq p else p"
  have "gm_get0 p og \<le> gm_get0 ?p og" by auto
  then show ?case using order_trans [OF _ Cons [of ?p]] by (simp add: mergeWatermarks_def x)
qed (simp add: mergeWatermarks_def)

lemma mergeWatermarks_covers: "(og, sq) \<in> set w \<Longrightarrow> sq \<le> gm_get0 (mergeWatermarks p w) og"
proof (induction w arbitrary: p)
  case (Cons x w)
  obtain o' sq' where x: "x = (o', sq')" by fastforce
  let ?p = "if gm_get0 p o' < sq' then gm_put o' sq' p else p"
  have step: "mergeWatermarks p (x # w) = mergeWatermarks ?p w" by (simp add: mergeWatermarks_def x)
  show ?case
  proof (cases "(og, sq) = x")
    case True
    then have "sq \<le> gm_get0 ?p og" by (auto simp: x not_less)
    then show ?thesis unfolding step by (rule order_trans [OF _ mergeWatermarks_mono])
  next
    case False
    with Cons show ?thesis unfolding step by simp
  qed
qed simp

lemma mergeWatermarks_id: "\<forall>(og, sq) \<in> set w. sq \<le> gm_get0 p og \<Longrightarrow> mergeWatermarks p w = p"
  unfolding mergeWatermarks_def by (induction w) (auto simp: not_less)

text \<open>C31: a snapshot whose facts carry a key and an instant is always merged without an error; afterwards the store has absorbed every record of it, and merging the
  same snapshot again, at whatever time, changes nothing at all: no record, no stamp, no watermark and no notification. So a
  transfer that is repeated because its answer was lost is harmless. The sequences of the store and of the snapshot
  must leave room for the number of its records below \<open>2 ^ 64\<close>.\<close>

theorem merge_again_changes_nothing:
  assumes "room (length (snapshot_records sn)) s" "\<forall>r \<in> set (snapshot_records sn). fits_record (length (snapshot_records sn)) r"
  shows "\<exists>s1. MergeSnapshotFrom cd clk sn source s = (None, s1) \<and> (\<forall>r \<in> set (snapshot_records sn). absorbed_record cd r s1) \<and>
    (\<forall>clk'. MergeSnapshotFrom cd clk' sn source s1 = (None, s1))"
proof -
  define src where "src = (if source = [] then legacyOrigin else source)"
  obtain s1 p where s1: "MergeSnapshotFrom cd clk sn source s = (None, s1)" and ab: "\<forall>r \<in> set (snapshot_records sn). absorbed_record cd r s1"
    and p: "PeerWatermarks src s1 = mergeWatermarks p (sn_Watermarks sn)" and pw: "gm_get (mm_peerWatermarks s1) src \<noteq> None"
    using merge_snapshot_absorbs [OF assms, of cd clk source thesis] unfolding src_def by blast
  have again: "MergeSnapshotFrom cd clk' sn source s1 = (None, s1)" for clk'
  proof -
    have all: "am.merge_all cd src (timed c k rs) s1 = s1" if "set rs \<subseteq> set (snapshot_records sn)" for c k rs
      by (rule am.ignores_all) (use that ab assms(2) in auto)
    have sub: "set (map RExperience (sn_Experiences sn)) \<subseteq> set (snapshot_records sn)" "set (map RFact (sn_Facts sn)) \<subseteq> set (snapshot_records sn)"
      "set (map RDialogue (sn_Dialogues sn)) \<subseteq> set (snapshot_records sn)" "set (map (\<lambda>(og, sq). RMark og sq) (sn_Watermarks sn)) \<subseteq> set (snapshot_records sn)"
      by (auto simp: snapshot_records_def)
    have keys: "\<forall>f \<in> set (sn_Facts sn). fa_Key f \<noteq> []" using bspec [OF assms(2) in_snapshot_records(2)] by (simp add: fits_record_def)
    have perf: "mergePerformancesFrom src (sn_Performances sn) s1 = s1"
      using performances_absorbed [of "sn_Performances sn" cd s1 src False] bspec [OF ab in_snapshot_records(3)]
      by (simp add: mergePerformancesFrom_def del: absorbed_record.simps)
    have same: "mergeWatermarks (PeerWatermarks src s1) (sn_Watermarks sn) = PeerWatermarks src s1"
      unfolding p by (rule mergeWatermarks_id) (auto intro: mergeWatermarks_covers)
    have "gm_put src (PeerWatermarks src s1) (mm_peerWatermarks s1) = mm_peerWatermarks s1"
      using pw by (intro gm_put_same) (auto simp: PeerWatermarks_def)
    then show ?thesis
      unfolding MergeSnapshotFrom_def src_def [symmetric] Let_def experiences_merge facts_merge [OF keys, where cd = cd]
        dialogues_merge [where k = 0 and cd = cd and clk = "\<lambda>_. 0"] marks_merge [where k = 0 and cd = cd and src = src and clk = "\<lambda>_. 0"]
      by (simp add: all [OF sub(1)] all [OF sub(2)] all [OF sub(3)] all [OF sub(4)] perf same)
  qed
  show ?thesis using s1 ab again by blast
qed


definition sample_codec :: mem_codec where
  "sample_codec =
     \<lparr>mc_experience = (\<lambda>e. Some (ex_Description e)), mc_fact = (\<lambda>f. Some (fa_Key f)), mc_performance = (\<lambda>p. Some (pe_NodeID p)),
      mc_dialogue = (\<lambda>d. Some (di_ID d)), mc_snapshot = (\<lambda>_. Some []), mc_sha256 = id, mc_time = (\<lambda>_. []), mc_quote = id,
      mc_ratio = (\<lambda>a b. of_int a), mc_add = (+), mc_less = (<)\<rparr>"

definition sample_fact :: fact where
  "sample_fact =
     \<lparr>fa_Key = ''k'', fa_Origin = ''peer'', fa_Sequence = 1, fa_Value = ''v'', fa_Scope = [], fa_Source = ''s'', fa_Hits = 0,
      fa_CreatedAt = 3, fa_UpdatedAt = 4\<rparr>"

definition sample_dialogue :: dialogue where
  "sample_dialogue = zero_dialogue\<lparr>di_ID := ''d'', di_Participants := [''a''], di_UpdatedAt := 4\<rparr>"

definition sample_snapshot :: mem_snapshot where
  "sample_snapshot =
     \<lparr>sn_Experiences = [], sn_Facts = [sample_fact], sn_Performances = [zero_performance\<lparr>pe_NodeID := ''n'', pe_Model := ''m''\<rparr>],
      sn_Dialogues = [sample_dialogue], sn_SyncVersion = 3, sn_Watermarks = [(''peer'', 7)]\<rparr>"

theorem merge_again_changes_nothing_witness:
  "\<exists>s1. MergeSnapshotFrom sample_codec (\<lambda>_. 5) sample_snapshot ''peer'' (NewInMemoryStore 1) = (None, s1) \<and>
     MergeSnapshotFrom sample_codec (\<lambda>_. 9) sample_snapshot ''peer'' s1 = (None, s1)"
proof -
  have "room (length (snapshot_records sample_snapshot)) (NewInMemoryStore 1)"
    by (simp add: room_def NewInMemoryStore_def Let_def snapshot_records_def sample_snapshot_def gm_get0_def)
  moreover have "\<forall>r \<in> set (snapshot_records sample_snapshot). fits_record (length (snapshot_records sample_snapshot)) r"
    by (simp add: snapshot_records_def sample_snapshot_def fits_record_def sample_fact_def sample_dialogue_def zero_dialogue_def zero_performance_def)
  ultimately show ?thesis using merge_again_changes_nothing [of sample_snapshot "NewInMemoryStore 1" sample_codec "\<lambda>_. 5" "''peer''"] by blast
qed

end
