(* ===== verification/Memory_Invariant.thy ===== *)
theory Memory_Invariant
  imports Memory_Store
begin

text \<open>
  The invariant of the memory store: every record is stored under its own key and stamped, the watermark of an origin is at
  least the sequence of every record of it, identifiers of experiences ascend, and the learned performances that
  readers see are the stored ones. Every operation keeps it as long as no counter wraps around.
\<close>

subsection \<open>The invariant\<close>

definition stamped :: "(string \<Rightarrow> uint64) \<Rightarrow> string \<Rightarrow> uint64 \<Rightarrow> bool" where
  "stamped M og sq \<longleftrightarrow> og \<noteq> [] \<and> sq \<noteq> 0 \<and> sq \<le> M og"

definition fact_ok :: "(string \<Rightarrow> uint64) \<Rightarrow> string \<Rightarrow> fact \<Rightarrow> bool" where
  "fact_ok M k f \<longleftrightarrow> k = fact_key (fa_Scope f) (fa_Key f) \<and> fa_Key f \<noteq> [] \<and> fa_Scope f \<noteq> [] \<and> fa_UpdatedAt f \<noteq> 0 \<and>
     stamped M (fa_Origin f) (fa_Sequence f)"

definition performance_ok :: "(string \<Rightarrow> uint64) \<Rightarrow> string \<Rightarrow> performance \<Rightarrow> bool" where
  "performance_ok M k p \<longleftrightarrow> k = performance_key p \<and> pe_NodeID p \<noteq> [] \<and> pe_Model p \<noteq> [] \<and> stamped M (pe_Origin p) (pe_Sequence p)"

definition dialogue_ok :: "(string \<Rightarrow> uint64) \<Rightarrow> string \<Rightarrow> dialogue \<Rightarrow> bool" where
  "dialogue_ok M k d \<longleftrightarrow> k = di_ID d \<and> k \<noteq> [] \<and> stamped M (di_Origin d) (di_Sequence d)"

definition marks_ok :: "memory_store \<Rightarrow> bool" where
  "marks_ok s \<longleftrightarrow> mm_origin s \<noteq> [] \<and> gm_wf (mm_watermarks s) \<and> mark_of s [] = 0 \<and> (\<forall>og. seq_of s og \<le> mark_of s og) \<and>
     (\<forall>peer. gm_wf (PeerWatermarks peer s))"

definition records_ok :: "(string \<Rightarrow> uint64) \<Rightarrow> memory_store \<Rightarrow> bool" where
  "records_ok M s \<longleftrightarrow>
     gm_wf (mm_facts s) \<and> (\<forall>k f. gm_get (mm_facts s) k = Some f \<longrightarrow> fact_ok M k f) \<and>
     gm_wf (mm_performances s) \<and> (\<forall>k p. gm_get (mm_performances s) k = Some p \<longrightarrow> performance_ok M k p) \<and>
     gm_wf (mm_dialogues s) \<and> (\<forall>k d. gm_get (mm_dialogues s) k = Some d \<longrightarrow> dialogue_ok M k d) \<and>
     sorted_wrt (\<lambda>e e'. ex_ID e < ex_ID e') (mm_experiences s) \<and>
     (\<forall>e \<in> set (mm_experiences s). stamped M (ex_Origin e) (ex_Sequence e) \<and> ex_ID e \<le> mm_nextID s)"

definition published :: "memory_store \<Rightarrow> bool" where
  "published s \<longleftrightarrow> (case mm_learnedBiases s of None \<Rightarrow> mm_performances s = [] | Some ps \<Rightarrow> ps = mm_performances s)"

definition stamps_ok :: "memory_store \<Rightarrow> bool" where
  "stamps_ok s \<longleftrightarrow> marks_ok s \<and> records_ok (mark_of s) s"

definition mem_inv :: "memory_store \<Rightarrow> bool" where
  "mem_inv s \<longleftrightarrow> stamps_ok s \<and> published s"

subsection \<open>Stamps\<close>

lemma stamped_mono: "stamped M og sq \<Longrightarrow> M og \<le> M' og \<Longrightarrow> stamped M' og sq"
  by (auto simp: stamped_def)

lemma records_ok_mono:
  assumes "records_ok M s" "\<And>og. M og \<le> M' og"
  shows "records_ok M' s"
proof -
  have "stamped M og sq \<Longrightarrow> stamped M' og sq" for og sq using stamped_mono assms(2) by blast
  then show ?thesis using assms(1) unfolding records_ok_def fact_ok_def performance_ok_def dialogue_ok_def by blast
qed

lemma records_ok_fields:
  assumes "mm_facts s' = mm_facts s" "mm_performances s' = mm_performances s" "mm_dialogues s' = mm_dialogues s"
    "mm_experiences s' = mm_experiences s" "mm_nextID s' = mm_nextID s"
  shows "records_ok M s' = records_ok M s"
  using assms by (simp add: records_ok_def)

lemma PeerWatermarks_fields: "mm_peerWatermarks s' = mm_peerWatermarks s \<Longrightarrow> PeerWatermarks peer s' = PeerWatermarks peer s"
  by (simp add: PeerWatermarks_def)

lemma observe_wf: "gm_wf (mm_watermarks s) \<Longrightarrow> gm_wf (mm_watermarks (observeRecordLocked og sq s))"
  by (simp add: observeRecordLocked_def Notify_def Let_def gm_wf_put)

lemma next_wf: "gm_wf (mm_watermarks s) \<Longrightarrow> nextSequenceLocked og s = (sq, s1) \<Longrightarrow> gm_wf (mm_watermarks s1)"
  by (auto simp: nextSequenceLocked_def Notify_def Let_def gm_wf_put)

lemma stamps_observe:
  assumes "stamps_ok s"
  shows "stamps_ok (observeRecordLocked og sq s)"
proof -
  have "records_ok (mark_of s) (observeRecordLocked og sq s)" using assms records_ok_fields [of "observeRecordLocked og sq s" s] by (simp add: stamps_ok_def)
  then have "records_ok (mark_of (observeRecordLocked og sq s)) (observeRecordLocked og sq s)"
    by (rule records_ok_mono) (simp add: observe_marks)
  moreover have "marks_ok (observeRecordLocked og sq s)"
    using assms unfolding stamps_ok_def marks_ok_def
    by (auto simp: observe_wf observe_marks PeerWatermarks_fields [OF observe_fields(3)] max.coboundedI1 max.mono)
  ultimately show ?thesis by (simp add: stamps_ok_def)
qed

lemma stamps_next:
  assumes "nextSequenceLocked og s = (sq, s1)" "stamps_ok s" "room (Suc n) s" "og \<noteq> []"
  shows "stamps_ok s1" "room n s1" "stamped (mark_of s1) og sq"
proof -
  note f = next_fields [OF assms(1)] and m = next_marks(2,3) [OF assms(1)] and g = next_grows [OF assms(1,3)]
  have "records_ok (mark_of s) s1" using assms(2) f by (simp add: stamps_ok_def records_ok_fields [of s1 s])
  then have "records_ok (mark_of s1) s1" by (rule records_ok_mono) (use g(1) in \<open>simp add: m less_imp_le\<close>)
  moreover have "marks_ok s1" using assms(2,4) next_wf [OF _ assms(1)] unfolding stamps_ok_def marks_ok_def
    by (simp add: m f PeerWatermarks_fields [OF f(3)])
  ultimately show "stamps_ok s1" by (simp add: stamps_ok_def)
  show "room n s1" by (rule g(4))
  show "stamped (mark_of s1) og sq" using assms(4) g(3) by (simp add: stamped_def m)
qed

lemma stamps_restamp:
  assumes "restamp src og sq s = ((og', sq'), s1)" "stamps_ok s" "room (Suc n) s" "src \<noteq> []" "unat sq + n < 2 ^ 64"
  shows "stamps_ok s1 \<and> room n s1 \<and> stamped (mark_of s1) og' sq'"
proof (cases "og = [] \<or> sq = 0")
  case True
  with assms(1) have "nextSequenceLocked src s = (sq', s1)" "og' = src" by (auto simp: restamp_def split: prod.splits)
  then show ?thesis using stamps_next assms(2-4) by blast
next
  case False
  with assms(1) have e: "s1 = observeRecordLocked og sq s" "og' = og" "sq' = sq" by (auto simp: restamp_def)
  then have "stamped (mark_of s1) og' sq'" using False by (simp add: stamped_def observe_marks)
  then show ?thesis using stamps_observe [OF assms(2)] room_observe [OF room_mono [OF assms(3)] assms(5)] e by simp
qed

subsection \<open>Storing a record\<close>

lemma marks_ok_fields [simp]:
  "marks_ok (s\<lparr>mm_facts := fs\<rparr>) = marks_ok s" "marks_ok (s\<lparr>mm_performances := ps\<rparr>) = marks_ok s" "marks_ok (s\<lparr>mm_dialogues := ds\<rparr>) = marks_ok s"
  "marks_ok (s\<lparr>mm_experiences := es\<rparr>) = marks_ok s" "marks_ok (s\<lparr>mm_nextID := i\<rparr>) = marks_ok s" "marks_ok (s\<lparr>mm_fingerprints := fp\<rparr>) = marks_ok s"
  "marks_ok (s\<lparr>mm_learnedBiases := lb\<rparr>) = marks_ok s" "marks_ok (s\<lparr>mm_changes := n\<rparr>) = marks_ok s"
  "marks_ok (s\<lparr>mm_agentSessions := as\<rparr>) = marks_ok s" "marks_ok (s\<lparr>mm_shardGroups := gs\<rparr>) = marks_ok s"
  by (simp_all add: marks_ok_def PeerWatermarks_def)

lemma stamps_put_fact: "stamps_ok s \<Longrightarrow> fact_ok (mark_of s) k f \<Longrightarrow> stamps_ok (s\<lparr>mm_facts := gm_put k f (mm_facts s)\<rparr>)"
  by (simp add: stamps_ok_def records_ok_def)

lemma stamps_put_performance: "stamps_ok s \<Longrightarrow> performance_ok (mark_of s) k p \<Longrightarrow> stamps_ok (s\<lparr>mm_performances := gm_put k p (mm_performances s)\<rparr>)"
  by (simp add: stamps_ok_def records_ok_def)

lemma stamps_put_dialogue: "stamps_ok s \<Longrightarrow> dialogue_ok (mark_of s) k d \<Longrightarrow> stamps_ok (s\<lparr>mm_dialogues := gm_put k d (mm_dialogues s)\<rparr>)"
  by (simp add: stamps_ok_def records_ok_def)

lemma stamps_add_experience:
  assumes "stamps_ok s" "unat (mm_nextID s) + Suc n < 2 ^ 64" "stamped (mark_of s) (ex_Origin e) (ex_Sequence e)" "ex_ID e = mm_nextID s + 1"
  shows "stamps_ok (s\<lparr>mm_nextID := mm_nextID s + 1, mm_experiences := mm_experiences s @ [e], mm_fingerprints := fp\<rparr>)"
proof -
  have "unat (mm_nextID s + 1) = Suc (unat (mm_nextID s))" using assms(2) by (subst unat_plus_if_size) (simp add: word_size)
  then have "mm_nextID s < mm_nextID s + 1" by (simp add: word_less_nat_alt)
  then show ?thesis using assms
    by (auto simp: stamps_ok_def records_ok_def sorted_wrt_append dest: order_le_less_trans less_imp_le)
qed

subsection \<open>Merging keeps it\<close>

abbreviation bounded_record :: "nat \<Rightarrow> mem_record \<Rightarrow> bool" where
  "bounded_record n r \<equiv> unat (record_sequence r) + n < 2 ^ 64"

lemma stamps_experience:
  assumes "stamps_ok s" "room (Suc n) s" "src \<noteq> []" "bounded_record (Suc n) (RExperience e)"
  shows "stamps_ok (mergeExperienceFrom cd now src e s)"
proof -
  define s1 where "s1 = observeRecordLocked (ex_Origin e) (ex_Sequence e) s"
  have s1: "stamps_ok s1" "room (Suc n) s1" using assms stamps_observe room_observe [OF assms(2)] by (simp_all add: s1_def)
  obtain og sq s2 where r: "restamp src (ex_Origin e) (ex_Sequence e) s1 = ((og, sq), s2)" by (metis prod.collapse)
  have s2: "stamps_ok s2 \<and> room n s2 \<and> stamped (mark_of s2) og sq" using stamps_restamp [OF r s1 assms(3)] assms(4) by simp
  have "mm_nextID s2 = mm_nextID s1" by (rule restamp_fields(6) [OF r])
  then have id: "unat (mm_nextID s2) + Suc n < 2 ^ 64" using s1(2) by (simp add: room_def)
  show ?thesis
  proof (cases "gm_get (mm_fingerprints s1) (experienceFingerprint cd e) = Some True")
    case True
    then show ?thesis using s1 by (simp add: mergeExperience_eq s1_def)
  next
    case False
    then show ?thesis using r s2 stamps_add_experience [OF _ id] by (simp add: mergeExperience_eq s1_def [symmetric])
  qed
qed

lemma stamps_fact:
  assumes "stamps_ok s" "room (Suc n) s" "src \<noteq> []" "bounded_record (Suc n) (RFact f)" "now \<noteq> 0"
  shows "stamps_ok (snd (mergeFactFrom now src f s)) \<and> room n (snd (mergeFactFrom now src f s))"
proof (cases "fa_Key f = []")
  case True
  then show ?thesis using assms(1) room_mono [OF assms(2)] by (simp add: mergeFactFrom_def)
next
  case False
  define s1 where "s1 = observeRecordLocked (fa_Origin f) (fa_Sequence f) s"
  have s1: "stamps_ok s1" "room (Suc n) s1" using assms stamps_observe room_observe [OF assms(2)] by (simp_all add: s1_def)
  show ?thesis
  using False refl refl s1_def
  proof (cases rule: mergeFact_cases [where src = src and now = now])
    case (kept c)
    then show ?thesis using s1 room_mono by simp
  next
    case (taken og sq s2 f')
    have s2: "stamps_ok s2 \<and> room n s2 \<and> stamped (mark_of s2) og sq" using stamps_restamp [OF taken(2) s1 assms(3)] assms(4) by simp
    have "fa_UpdatedAt f' \<noteq> 0" using assms(5) by (auto simp: taken(5) normalize_fact_def Let_def)
    then have "fact_ok (mark_of s2) (fact_key (fa_Scope (normalize_fact now f)) (fa_Key f)) f'"
      using s2 taken(3,4,8,9) False by (simp add: fact_ok_def)
    then show ?thesis using s2 stamps_put_fact taken(10) by simp
  qed
qed

lemma stamps_performance:
  assumes "stamps_ok s" "room (Suc n) s" "src \<noteq> []" "bounded_record (Suc n) (RPerformance p)"
  shows "stamps_ok (snd (mergePerformance src p (ch, s)))"
proof (cases "pe_NodeID p = [] \<or> pe_Model p = []")
  case True
  then show ?thesis using assms(1) by (auto simp: mergePerformance_def)
next
  case False
  obtain og sq s1 where r: "restamp src (pe_Origin p) (pe_Sequence p) s = ((og, sq), s1)" by (metis prod.collapse)
  define q where "q = p\<lparr>pe_TaskType := (if pe_TaskType p = [] then ''general'' else pe_TaskType p), pe_Origin := og, pe_Sequence := sq\<rparr>"
  have s1: "stamps_ok s1 \<and> room n s1 \<and> stamped (mark_of s1) og sq" using stamps_restamp [OF r assms(1-3)] assms(4) by simp
  then have "performance_ok (mark_of s1) (performance_key p) q" using False by (auto simp: performance_ok_def performance_key_def q_def)
  then show ?thesis using mergePerformance_eq [of p src ch s] False r s1 stamps_put_performance stamps_observe [OF assms(1)]
    by (simp add: q_def [symmetric])
qed

lemma merge_dialogue_id_kept [simp]: "di_ID (merge_dialogue d c) = di_ID c"
  by (simp add: merge_dialogue_def)

lemma stamps_dialogue:
  assumes "stamps_ok s" "room (Suc n) s" "src \<noteq> []" "bounded_record (Suc n) (RDialogue d)"
  shows "stamps_ok (mergeDialogueFrom src d s)"
proof (cases "di_ID d = []")
  case True
  then show ?thesis using assms(1) by (simp add: mergeDialogueFrom_def)
next
  case False
  define s1 where "s1 = observeRecordLocked (di_Origin d) (di_Sequence d) s"
  have s1: "stamps_ok s1" "room (Suc n) s1" "mm_dialogues s1 = mm_dialogues s"
    using assms stamps_observe room_observe [OF assms(2)] by (simp_all add: s1_def)
  let ?un = "di_Origin d = [] \<or> di_Sequence d = 0"
  have nx: "stamps_ok (s2\<lparr>mm_dialogues := gm_put (di_ID d) (d'\<lparr>di_Origin := og, di_Sequence := sq\<rparr>) (mm_dialogues s2)\<rparr>)"
    if "nextSequenceLocked og s1 = (sq, s2)" "di_ID d' = di_ID d" "og \<noteq> []" for og sq s2 d'
    using stamps_next [OF that(1) s1(1,2) that(3)] that(2) False by (intro stamps_put_dialogue) (simp_all add: dialogue_ok_def)
  show ?thesis
  proof (cases "gm_get (mm_dialogues s) (di_ID d)")
    case None
    obtain sq s2 where n: "nextSequenceLocked src s1 = (sq, s2)" by fastforce
    have "\<not> ?un \<Longrightarrow> stamps_ok (s1\<lparr>mm_dialogues := gm_put (di_ID d) d (mm_dialogues s1)\<rparr>)"
      using s1(1) False by (intro stamps_put_dialogue) (simp_all add: dialogue_ok_def stamped_def s1_def observe_marks)
    then show ?thesis using nx [OF n _ assms(3), of d] n None False
      by (simp add: mergeDialogueFrom_def s1_def [symmetric] s1(3) Let_def)
  next
    case (Some c)
    define og where "og = (if ?un then src else mm_origin s1)"
    obtain sq s2 where n: "nextSequenceLocked og s1 = (sq, s2)" by fastforce
    have "og \<noteq> []" using assms(3) s1(1) by (auto simp: og_def stamps_ok_def marks_ok_def)
    moreover have "di_ID (merge_dialogue d c) = di_ID d" using Some assms(1) by (auto simp: stamps_ok_def records_ok_def dialogue_ok_def)
    ultimately show ?thesis using nx [OF n, of "merge_dialogue d c"] n Some False s1(1)
      by (simp add: mergeDialogueFrom_def s1_def [symmetric] s1(3) og_def [symmetric] Let_def)
  qed
qed

lemma stamps_record:
  assumes "stamps_ok s" "room (Suc n) s" "src \<noteq> []" "bounded_record (Suc n) r" "now \<noteq> 0"
  shows "stamps_ok (merge_record cd src now r s) \<and> room n (merge_record cd src now r s)"
proof (cases r)
  case (RExperience e)
  then show ?thesis using stamps_experience [OF assms(1-3)] absorbs_experience [OF assms(2), of e] assms(4) by (auto simp: absorbs_def)
next
  case (RFact f)
  then show ?thesis using stamps_fact [OF assms(1-3)] assms(4,5) by simp
next
  case (RPerformance p)
  then show ?thesis using stamps_performance [OF assms(1-3)] absorbs_performance [OF assms(2), of p] assms(4) by (auto simp: absorbs_def)
next
  case (RDialogue d)
  then show ?thesis using stamps_dialogue [OF assms(1-3)] absorbs_dialogue [OF assms(2), of d] assms(4) by (auto simp: absorbs_def)
next
  case (RMark og sq)
  then show ?thesis using stamps_observe [OF assms(1)] room_observe [OF room_mono [OF assms(2)]] assms(4) by simp
qed

lemma stamps_all:
  "stamps_ok s \<Longrightarrow> room (length trs + n) s \<Longrightarrow> src \<noteq> [] \<Longrightarrow> \<forall>(t, r) \<in> set trs. t \<noteq> 0 \<and> bounded_record (length trs + n) r \<Longrightarrow>
     stamps_ok (am.merge_all cd src trs s) \<and> room n (am.merge_all cd src trs s)"
proof (induction trs arbitrary: s)
  case (Cons x trs)
  obtain t r where x: "x = (t, r)" by fastforce
  have "stamps_ok (merge_record cd src t r s) \<and> room (length trs + n) (merge_record cd src t r s)"
    using Cons.prems by (intro stamps_record) (auto simp: x)
  moreover have "\<forall>(t, r) \<in> set trs. t \<noteq> 0 \<and> bounded_record (length trs + n) r" using Cons.prems(4) by auto
  ultimately show ?case using Cons.IH Cons.prems(3) by (simp add: x)
qed simp

lemma stamps_facts:
  "stamps_ok s \<Longrightarrow> room (length fs + n) s \<Longrightarrow> src \<noteq> [] \<Longrightarrow> \<forall>k. clk k \<noteq> 0 \<Longrightarrow> \<forall>f \<in> set fs. bounded_record (length fs + n) (RFact f) \<Longrightarrow>
     merge_facts clk src k fs s = (er, s') \<Longrightarrow> stamps_ok s' \<and> room n s'"
proof (induction fs arbitrary: k s)
  case (Cons f fs)
  have step: "stamps_ok (snd (mergeFactFrom (clk k) src f s)) \<and> room (length fs + n) (snd (mergeFactFrom (clk k) src f s))"
    using Cons.prems by (intro stamps_fact) auto
  have less: "\<forall>f \<in> set fs. bounded_record (length fs + n) (RFact f)" using Cons.prems(5) by auto
  have drop: "room (m + n) x \<Longrightarrow> room n x" for m x by (induction m) (auto dest: room_mono)
  show ?case
  proof (cases "fst (mergeFactFrom (clk k) src f s)")
    case None
    then have "merge_facts clk src (Suc k) fs (snd (mergeFactFrom (clk k) src f s)) = (er, s')"
      using Cons.prems(6) by (simp split: prod.splits)
    then show ?thesis using Cons.IH step Cons.prems(3,4) less by blast
  next
    case (Some e)
    then have "s' = snd (mergeFactFrom (clk k) src f s)" using Cons.prems(6) by (auto split: prod.splits)
    then show ?thesis using step drop by blast
  qed
qed simp

subsection \<open>What readers see of performances\<close>

abbreviation perf_of :: "memory_store \<Rightarrow> (string, performance) gomap \<times> (string, performance) gomap option" where
  "perf_of s \<equiv> (mm_performances s, mm_learnedBiases s)"

lemma restamp_perf: "perf_of (snd (restamp src og sq s)) = perf_of s"
  using restamp_fields(2,8) [of src og sq s] by (metis prod.collapse)

lemma next_perf: "perf_of (snd (nextSequenceLocked og s)) = perf_of s"
  using next_fields(7,8) [of og s] by (metis prod.collapse)

lemma perf_experience: "perf_of (mergeExperienceFrom cd now src e s) = perf_of s"
  using restamp_perf [of src "ex_Origin e" "ex_Sequence e"] by (auto simp: mergeExperience_eq Let_def split_beta)

lemma perf_fact: "perf_of (snd (mergeFactFrom now src f s)) = perf_of s"
proof (cases "fa_Key f = []")
  case True
  then show ?thesis by (simp add: mergeFactFrom_def)
next
  case False
  then show ?thesis using restamp_perf [of src "fa_Origin f" "fa_Sequence f"]
    by (auto simp: mergeFact_eq [OF False refl refl refl] split_beta split: option.split)
qed

lemma perf_dialogue: "perf_of (mergeDialogueFrom src d s) = perf_of s"
  using next_perf by (auto simp: mergeDialogueFrom_def Let_def split_beta split: option.split)

lemma perf_facts: "perf_of (snd (merge_facts clk src k fs s)) = perf_of s"
proof (induction fs arbitrary: k s)
  case (Cons f fs)
  then show ?case using perf_fact [of "clk k" src f s] by (auto simp: split_beta split: prod.split option.split)
qed simp

lemma fold_perf: "(\<And>x s. perf_of (f x s) = perf_of s) \<Longrightarrow> perf_of (fold f xs s) = perf_of s"
  by (induction xs arbitrary: s) auto

lemma mergePerformance_changed:
  assumes "mergePerformance src p (ch, s) = (ch', s')"
  shows "ch' \<or> \<not> ch \<and> perf_of s' = perf_of s"
proof (cases "pe_NodeID p = [] \<or> pe_Model p = []")
  case True
  then show ?thesis using assms by (auto simp: mergePerformance_def)
next
  case False
  then show ?thesis using assms mergePerformance_eq [of p src ch s] by (auto simp: split_beta split: if_splits)
qed

lemma published_performances:
  assumes "published s"
  shows "published (mergePerformancesFrom src ps s)"
proof -
  have "fst x \<or> \<not> ch \<and> perf_of (snd x) = perf_of s" if "x = fold (mergePerformance src) ps (ch, s)" for x ch s
    using that
  proof (induction ps arbitrary: ch s)
    case (Cons p ps)
    obtain ch' s' where m: "mergePerformance src p (ch, s) = (ch', s')" by fastforce
    then show ?case using Cons.IH [of ch' s'] Cons.prems mergePerformance_changed [OF m] by auto
  qed simp
  from this [OF refl, of False s] show ?thesis using assms
    by (auto simp: mergePerformancesFrom_def publishPerformanceSnapshotLocked_def published_def split_beta split: option.splits)
qed

lemma stamps_publish [simp]: "stamps_ok (s\<lparr>mm_learnedBiases := lb\<rparr>) = stamps_ok s"
  by (simp add: stamps_ok_def records_ok_def)

lemma mem_inv_performances:
  assumes "mem_inv s" "room (length ps + n) s" "src \<noteq> []" "\<forall>p \<in> set ps. bounded_record (length ps + n) (RPerformance p)"
  shows "mem_inv (mergePerformancesFrom src ps s) \<and> room n (mergePerformancesFrom src ps s)"
proof -
  have t: "\<forall>(t, r) \<in> set (timed (\<lambda>_. 1) 0 (map RPerformance ps)). t \<noteq> 0 \<and> bounded_record (length (timed (\<lambda>_. 1) 0 (map RPerformance ps)) + n) r"
    using assms(4) by (auto simp: timed_def enumerate_eq_zip dest!: set_zip_rightD)
  have "stamps_ok (snd (fold (mergePerformance src) ps (False, s))) \<and> room n (snd (fold (mergePerformance src) ps (False, s)))"
    using stamps_all [OF _ _ assms(3) t, where cd = cd] assms(1,2)
    by (simp add: performances_merge [where k = 0 and cd = cd and clk = "\<lambda>_. 1"] mem_inv_def)
  then show ?thesis using published_performances assms(1)
    by (auto simp: mem_inv_def mergePerformancesFrom_def publishPerformanceSnapshotLocked_def split_beta)
qed

lemma published_fields: "perf_of s' = perf_of s \<Longrightarrow> published s' = published s"
  by (cases "mm_learnedBiases s") (simp_all add: published_def)

lemma room_drop: "room (m + n) s \<Longrightarrow> room n s"
  by (induction m) (auto dest: room_mono)

lemma mem_inv_timed:
  assumes "mem_inv s" "room (length rs + n) s" "src \<noteq> []" "\<forall>k. clk k \<noteq> 0" "\<forall>r \<in> set rs. bounded_record (length rs + n) r"
    "s' = am.merge_all cd src (timed clk k rs) s" "perf_of s' = perf_of s"
  shows "mem_inv s' \<and> room n s'"
proof -
  have "\<forall>(t, r) \<in> set (timed clk k rs). t \<noteq> 0 \<and> bounded_record (length (timed clk k rs) + n) r"
    using assms(4,5) by (auto simp: timed_def enumerate_eq_zip dest!: set_zip_rightD)
  from stamps_all [OF _ _ assms(3) this, of s cd] show ?thesis using assms(1,2,6) published_fields [OF assms(7)] by (simp add: mem_inv_def)
qed

lemma mem_inv_peer:
  assumes "mem_inv s" "gm_wf w"
  shows "mem_inv (s\<lparr>mm_peerWatermarks := gm_put peer w (mm_peerWatermarks s)\<rparr>)"
proof -
  let ?s = "s\<lparr>mm_peerWatermarks := gm_put peer w (mm_peerWatermarks s)\<rparr>"
  have "PeerWatermarks p ?s = (if p = peer then w else PeerWatermarks p s)" for p by (simp add: PeerWatermarks_def)
  then have "marks_ok ?s" using assms by (simp add: mem_inv_def stamps_ok_def marks_ok_def)
  then show ?thesis using assms(1) published_fields [of ?s s] by (simp add: mem_inv_def stamps_ok_def records_ok_def)
qed

lemma mem_inv_merge:
  assumes "mem_inv s" "room (length (snapshot_records sn) + n) s" "\<forall>k. clk k \<noteq> 0"
    "\<forall>r \<in> set (snapshot_records sn). bounded_record (length (snapshot_records sn) + n) r"
  shows "mem_inv (snd (MergeSnapshotFrom cd clk sn source s)) \<and> room n (snd (MergeSnapshotFrom cd clk sn source s))"
proof -
  define src where "src = (if source = [] then legacyOrigin else source)"
  have src: "src \<noteq> []" by (simp add: src_def legacyOrigin_def)
  define rE where "rE = map RExperience (sn_Experiences sn)"
  define rF where "rF = map RFact (sn_Facts sn)"
  define rP where "rP = map RPerformance (sn_Performances sn)"
  define rD where "rD = map RDialogue (sn_Dialogues sn)"
  define rM where "rM = map (\<lambda>(og, sq). RMark og sq) (sn_Watermarks sn)"
  note rdefs = rE_def rF_def rP_def rD_def rM_def
  have rs: "snapshot_records sn = rE @ rF @ rP @ rD @ rM" by (simp add: snapshot_records_def rdefs)
  have less: "\<forall>r \<in> set xs. bounded_record m r" if "set xs \<subseteq> set (snapshot_records sn)" "m \<le> length (snapshot_records sn) + n" for xs m
    using assms(4) that by fastforce
  have bounds: "\<forall>r \<in> set rE. bounded_record (length rE + (length rF + (length rP + (length rD + (length rM + n))))) r"
    "\<forall>r \<in> set rF. bounded_record (length rF + (length rP + (length rD + (length rM + n)))) r"
    "\<forall>r \<in> set rP. bounded_record (length rP + (length rD + (length rM + n))) r"
    "\<forall>r \<in> set rD. bounded_record (length rD + (length rM + n)) r" "\<forall>r \<in> set rM. bounded_record (length rM + n) r"
    by (rule less; auto simp: rs)+
  define s1 where "s1 = am.merge_all cd src (timed clk 0 rE) s"
  have e1: "fold (\<lambda>(n, e). mergeExperienceFrom cd (clk n) src e) (enumerate 0 (sn_Experiences sn)) s = s1" by (simp add: s1_def rE_def experiences_merge)
  have "perf_of s1 = perf_of s" unfolding e1 [symmetric] by (rule fold_perf) (use perf_experience in \<open>auto split: prod.split\<close>)
  then have p1: "mem_inv s1 \<and> room (length rF + (length rP + (length rD + (length rM + n)))) s1"
    by (intro mem_inv_timed [OF assms(1) _ src assms(3) bounds(1) s1_def]) (use assms(2) in \<open>simp_all add: rs ac_simps\<close>)
  obtain er s2 where m: "merge_facts clk src (length (sn_Experiences sn)) (sn_Facts sn) s1 = (er, s2)" by fastforce
  have "stamps_ok s2 \<and> room (length rP + (length rD + (length rM + n))) s2"
    by (rule stamps_facts [OF _ _ src assms(3) _ m]) (use p1 bounds(2) in \<open>auto simp: mem_inv_def rF_def\<close>)
  then have p2: "mem_inv s2 \<and> room (length rP + (length rD + (length rM + n))) s2"
    using p1 perf_facts [of clk src "length (sn_Experiences sn)" "sn_Facts sn" s1] published_fields [of s2 s1] by (simp add: m mem_inv_def)
  define s3 where "s3 = mergePerformancesFrom src (sn_Performances sn) s2"
  have p3: "mem_inv s3 \<and> room (length rD + (length rM + n)) s3"
    unfolding s3_def by (rule mem_inv_performances [OF _ _ src]) (use p2 bounds(3) in \<open>auto simp: rP_def\<close>)
  define s4 where "s4 = am.merge_all cd src (timed clk 0 rD) s3"
  have e4: "fold (mergeDialogueFrom src) (sn_Dialogues sn) s3 = s4" by (simp add: s4_def rD_def dialogues_merge [where k = 0 and clk = clk])
  have "perf_of s4 = perf_of s3" unfolding e4 [symmetric] by (rule fold_perf) (rule perf_dialogue)
  then have p4: "mem_inv s4 \<and> room (length rM + n) s4"
    by (intro mem_inv_timed [OF _ _ src assms(3) bounds(4) s4_def]) (use p3 in simp_all)
  define s5 where "s5 = am.merge_all cd src (timed clk 0 rM) s4"
  have e5: "fold (\<lambda>(origin, sequence). observeRecordLocked origin sequence) (sn_Watermarks sn) s4 = s5"
    by (simp add: s5_def rM_def marks_merge [where k = 0 and clk = clk and src = src])
  have "perf_of s5 = perf_of s4" unfolding e5 [symmetric] by (rule fold_perf) (auto split: prod.split)
  then have p5: "mem_inv s5 \<and> room n s5"
    by (intro mem_inv_timed [OF _ _ src assms(3) bounds(5) s5_def]) (use p4 in simp_all)
  let ?s6 = "s5\<lparr>mm_peerWatermarks := gm_put src (mergeWatermarks (PeerWatermarks src s5) (sn_Watermarks sn)) (mm_peerWatermarks s5)\<rparr>"
  have "snd (MergeSnapshotFrom cd clk sn source s) = (if er = None then ?s6 else s2)"
    unfolding MergeSnapshotFrom_def src_def [symmetric] Let_def e1 by (simp add: m s3_def [symmetric] e4 e5 split: option.split)
  moreover have "mem_inv ?s6"
    using p5 by (intro mem_inv_peer mergeWatermarks_wf) (simp_all add: mem_inv_def stamps_ok_def marks_ok_def)
  ultimately show ?thesis using p5 p2 room_drop [of "length rP + (length rD + length rM)" n s2] by (simp add: ac_simps)
qed

subsection \<open>Every operation keeps it\<close>

datatype mem_op =
    OpRecord experience
  | OpPrune duration
  | OpPutFact fact
  | OpGetFact string string
  | OpDeleteFact string string
  | OpSaveSession string string string
  | OpDeleteSession string string
  | OpSaveShardGroup string string
  | OpDeleteShardGroup string
  | OpSaveDialogue dialogue
  | OpAppendTurns string "string list" string "turn list"
  | OpMerge mem_snapshot string
  | OpMergePerformances "performance list"
  | OpSetPeer string watermarks

fun mem_step :: "mem_codec \<Rightarrow> (nat \<Rightarrow> time) \<times> mem_op \<Rightarrow> memory_store \<Rightarrow> memory_store" where
  "mem_step cd (clk, OpRecord e) s = snd (Record cd (clk 0) e s)"
| "mem_step cd (clk, OpPrune olderThan) s = snd (Prune (clk 0) olderThan s)"
| "mem_step cd (clk, OpPutFact f) s = snd (PutFact (clk 0) f s)"
| "mem_step cd (clk, OpGetFact scope key) s = snd (GetFact scope key s)"
| "mem_step cd (clk, OpDeleteFact scope key) s = DeleteFact scope key s"
| "mem_step cd (clk, OpSaveSession harness i payload) s = snd (SaveAgentSession harness i payload s)"
| "mem_step cd (clk, OpDeleteSession harness i) s = snd (DeleteAgentSession harness i s)"
| "mem_step cd (clk, OpSaveShardGroup i payload) s = snd (SaveShardGroup i payload s)"
| "mem_step cd (clk, OpDeleteShardGroup i) s = snd (DeleteShardGroup i s)"
| "mem_step cd (clk, OpSaveDialogue d) s = snd (SaveDialogue (clk 0) d s)"
| "mem_step cd (clk, OpAppendTurns i participants topic turns) s = snd (AppendDialogueTurns clk i participants topic turns s)"
| "mem_step cd (clk, OpMerge sn source) s = snd (MergeSnapshotFrom cd clk sn source s)"
| "mem_step cd (clk, OpMergePerformances ps) s = MergePerformances ps s"
| "mem_step cd (clk, OpSetPeer peer w) s = snd (SetPeerWatermarks peer w s)"

text \<open>How many sequences of one origin, or identifiers, an operation takes at most.\<close>

fun op_cost :: "mem_op \<Rightarrow> nat" where
  "op_cost (OpRecord e) = 2"
| "op_cost (OpPutFact f) = 1"
| "op_cost (OpGetFact scope key) = 1"
| "op_cost (OpSaveDialogue d) = 1"
| "op_cost (OpAppendTurns i participants topic turns) = length turns"
| "op_cost (OpMerge sn source) = length (snapshot_records sn)"
| "op_cost (OpMergePerformances ps) = length ps"
| "op_cost _ = 0"

fun op_bounded :: "nat \<Rightarrow> mem_op \<Rightarrow> bool" where
  "op_bounded n (OpMerge sn source) \<longleftrightarrow> (\<forall>r \<in> set (snapshot_records sn). bounded_record n r)"
| "op_bounded n (OpMergePerformances ps) \<longleftrightarrow> (\<forall>p \<in> set ps. bounded_record n (RPerformance p))"
| "op_bounded n _ \<longleftrightarrow> True"

lemma next_all:
  assumes "nextSequenceLocked (mm_origin s) s = (sq, s1)" "mem_inv s" "room (Suc n) s"
  shows "stamps_ok s1" "published s1" "room n s1" "stamped (mark_of s1) (mm_origin s) sq" "mm_origin s \<noteq> []"
proof -
  show o: "mm_origin s \<noteq> []" using assms(2) by (simp add: mem_inv_def stamps_ok_def marks_ok_def)
  show "stamps_ok s1" "room n s1" "stamped (mark_of s1) (mm_origin s) sq" using stamps_next [OF assms(1) _ assms(3) o] assms(2) by (simp_all add: mem_inv_def)
  show "published s1" using next_perf [of "mm_origin s" s] published_fields [of s1 s] assms(1,2) by (simp add: mem_inv_def)
qed

lemma mem_inv_put_fact:
  assumes "stamps_ok s" "published s" "fact_ok (mark_of s) k f"
  shows "mem_inv (s\<lparr>mm_facts := gm_put k f (mm_facts s)\<rparr>)"
  using assms stamps_put_fact published_fields [of "s\<lparr>mm_facts := gm_put k f (mm_facts s)\<rparr>" s] by (simp add: mem_inv_def)

lemma mem_inv_put_dialogue:
  assumes "stamps_ok s" "published s" "dialogue_ok (mark_of s) k d"
  shows "mem_inv (s\<lparr>mm_dialogues := gm_put k d (mm_dialogues s)\<rparr>)"
  using assms stamps_put_dialogue published_fields [of "s\<lparr>mm_dialogues := gm_put k d (mm_dialogues s)\<rparr>" s] by (simp add: mem_inv_def)

lemma PutFact_stores:
  assumes "fa_Key f \<noteq> []" "nextSequenceLocked (mm_origin s) s = (sq, s1)"
  obtains g where "PutFact now f s = (Inr g, s1\<lparr>mm_facts := gm_put (fact_key (fa_Scope g) (fa_Key g)) g (mm_facts s1)\<rparr>)"
    "fa_Key g = fa_Key f" "fa_Scope g = (if fa_Scope f = [] then ''cluster'' else fa_Scope f)" "fa_UpdatedAt g = now"
    "fa_Origin g = mm_origin s" "fa_Sequence g = sq" "fa_Value g = fa_Value f" "fa_Source g = fa_Source f"
proof -
  define f1 where "f1 = (if fa_Scope f = [] then f\<lparr>fa_Scope := ''cluster''\<rparr> else f)"
  define f2 where "f2 = (case gm_get (mm_facts s) (fact_key (fa_Scope f1) (fa_Key f1)) of
    None \<Rightarrow> f1 | Some previous \<Rightarrow> f1\<lparr>fa_CreatedAt := fa_CreatedAt previous, fa_Hits := fa_Hits previous\<rparr>)"
  define g where "g = f2\<lparr>fa_CreatedAt := (if fa_CreatedAt f2 = 0 then now else fa_CreatedAt f2), fa_UpdatedAt := now,
    fa_Origin := mm_origin s, fa_Sequence := sq\<rparr>"
  have f1: "fa_Key f1 = fa_Key f" "fa_Scope f1 = (if fa_Scope f = [] then ''cluster'' else fa_Scope f)" "fa_Value f1 = fa_Value f" "fa_Source f1 = fa_Source f"
    by (simp_all add: f1_def)
  have f2: "fa_Key f2 = fa_Key f1" "fa_Scope f2 = fa_Scope f1" "fa_Value f2 = fa_Value f1" "fa_Source f2 = fa_Source f1"
    by (simp_all add: f2_def split: option.split)
  have "PutFact now f s = (Inr g, s1\<lparr>mm_facts := gm_put (fact_key (fa_Scope f1) (fa_Key f1)) g (mm_facts s1)\<rparr>)"
    using assms(1) unfolding PutFact_def Let_def assms(2) f1_def [symmetric] f2_def [symmetric] by (simp add: g_def)
  then show ?thesis using f1 f2 by (intro that [of g]) (simp_all add: g_def)
qed

lemma mem_inv_PutFact:
  assumes "mem_inv s" "room (Suc n) s" "now \<noteq> 0"
  shows "mem_inv (snd (PutFact now f s)) \<and> room n (snd (PutFact now f s))"
proof (cases "fa_Key f = []")
  case True
  then show ?thesis using assms(1) room_mono [OF assms(2)] by (simp add: PutFact_def)
next
  case False
  obtain sq s1 where n: "nextSequenceLocked (mm_origin s) s = (sq, s1)" by fastforce
  note nx = next_all [OF n assms(1,2)]
  from False n obtain g where g: "PutFact now f s = (Inr g, s1\<lparr>mm_facts := gm_put (fact_key (fa_Scope g) (fa_Key g)) g (mm_facts s1)\<rparr>)"
      "fa_Key g = fa_Key f" "fa_Scope g = (if fa_Scope f = [] then ''cluster'' else fa_Scope f)" "fa_UpdatedAt g = now" "fa_Origin g = mm_origin s" "fa_Sequence g = sq"
    by (rule PutFact_stores)
  have "mem_inv (s1\<lparr>mm_facts := gm_put (fact_key (fa_Scope g) (fa_Key g)) g (mm_facts s1)\<rparr>)"
    using nx assms(3) g False by (intro mem_inv_put_fact) (simp_all add: fact_ok_def)
  then show ?thesis using g(1) nx(3) by simp
qed

lemma mem_inv_GetFact:
  assumes "mem_inv s" "room (Suc n) s"
  shows "mem_inv (snd (GetFact scope key s)) \<and> room n (snd (GetFact scope key s))"
proof -
  obtain sq s1 where n: "nextSequenceLocked (mm_origin s) s = (sq, s1)" by fastforce
  note nx = next_all [OF n assms]
  let ?k = "fact_key (if scope = [] then ''cluster'' else scope) key"
  have "mem_inv (s1\<lparr>mm_facts := gm_put ?k (f\<lparr>fa_Hits := h, fa_Origin := mm_origin s, fa_Sequence := sq\<rparr>) (mm_facts s1)\<rparr>)"
    if "gm_get (mm_facts s) ?k = Some f" for f h
    using that nx assms(1) by (intro mem_inv_put_fact) (auto simp: fact_ok_def mem_inv_def stamps_ok_def records_ok_def)
  then show ?thesis using assms(1) nx(3) room_mono [OF assms(2)] by (auto simp: GetFact_def Let_def n split: option.split)
qed

lemma mem_inv_SaveDialogue:
  assumes "mem_inv s" "room (Suc n) s"
  shows "mem_inv (snd (SaveDialogue now d s)) \<and> room n (snd (SaveDialogue now d s))"
proof (cases "di_ID d = []")
  case True
  then show ?thesis using assms(1) room_mono [OF assms(2)] by (simp add: SaveDialogue_def)
next
  case False
  obtain sq s1 where n: "nextSequenceLocked (mm_origin s) s = (sq, s1)" by fastforce
  note nx = next_all [OF n assms]
  have "mem_inv (s1\<lparr>mm_dialogues := gm_put (di_ID d) (d\<lparr>di_CreatedAt := c, di_UpdatedAt := now, di_Origin := mm_origin s, di_Sequence := sq\<rparr>) (mm_dialogues s1)\<rparr>)" for c
    using False nx by (intro mem_inv_put_dialogue) (simp_all add: dialogue_ok_def)
  then show ?thesis using False nx(3) by (simp add: SaveDialogue_def Let_def n)
qed

lemma stamp_turns_ok:
  "stamp_turns ts (d, s) = (d', s') \<Longrightarrow> mem_inv s \<Longrightarrow> room (length ts + n) s \<Longrightarrow>
     mem_inv s' \<and> room n s' \<and> di_ID d' = di_ID d \<and> mm_origin s' = mm_origin s \<and> (ts \<noteq> [] \<or> stamped (mark_of s) (di_Origin d) (di_Sequence d) \<longrightarrow> stamped (mark_of s') (di_Origin d') (di_Sequence d'))"
proof (induction ts arbitrary: d s)
  case (Cons t ts)
  obtain sq s1 where n: "nextSequenceLocked (mm_origin s) s = (sq, s1)" by fastforce
  have "room (Suc (length ts + n)) s" using Cons.prems(3) by simp
  note nx = next_all [OF n Cons.prems(2) this]
  have "stamp_turns ts (d\<lparr>di_Origin := mm_origin s, di_Sequence := sq\<rparr>, s1) = (d', s')" using Cons.prems(1) by (simp add: n)
  from Cons.IH [OF this _ nx(3)] nx next_fields(1) [OF n] show ?case by (simp add: mem_inv_def)
qed simp

lemma mem_inv_AppendTurns:
  assumes "mem_inv s" "room (length turns + n) s"
  shows "mem_inv (snd (AppendDialogueTurns clk i participants topic turns s)) \<and> room n (snd (AppendDialogueTurns clk i participants topic turns s))"
proof (cases "i = [] \<or> turns = []")
  case True
  then show ?thesis using assms(1) room_drop [OF assms(2)] by (auto simp: AppendDialogueTurns_def)
next
  case False
  define d0 where "d0 = (case gm_get (mm_dialogues s) i of None \<Rightarrow> zero_dialogue | Some d \<Rightarrow> d)"
  define d1 where "d1 = (if di_ID d0 = []
    then d0\<lparr>di_ID := i, di_CreatedAt := clk (length turns), di_Participants := participants, di_Topic := topic\<rparr> else d0)"
  define d where "d = d1\<lparr>di_Participants := add_participants (di_Participants d1) participants,
    di_Turns := di_Turns d1 @ map (\<lambda>(n, t). if tu_At t = 0 then t\<lparr>tu_At := clk n\<rparr> else t) (enumerate 0 turns), di_UpdatedAt := clk (Suc (length turns))\<rparr>"
  have "di_ID d0 = [] \<or> di_ID d0 = i" using assms(1)
    by (auto simp: d0_def zero_dialogue_def mem_inv_def stamps_ok_def records_ok_def dialogue_ok_def split: option.split)
  then have d: "di_ID d = i" by (auto simp: d_def d1_def)
  have a: "snd (AppendDialogueTurns clk i participants topic turns s) =
      (case stamp_turns turns (d, s) of (d', s') \<Rightarrow> s'\<lparr>mm_dialogues := gm_put i d' (mm_dialogues s')\<rparr>)"
    using False unfolding AppendDialogueTurns_def Let_def d0_def [symmetric] d1_def [symmetric] d_def [symmetric] by (simp split: prod.split)
  obtain d' s' where t: "stamp_turns turns (d, s) = (d', s')" by fastforce
  have ok: "mem_inv s'" "room n s'" "di_ID d' = i" "stamped (mark_of s') (di_Origin d') (di_Sequence d')"
    using stamp_turns_ok [OF t assms] d False by auto
  then have "mem_inv (s'\<lparr>mm_dialogues := gm_put i d' (mm_dialogues s')\<rparr>)"
    using False by (intro mem_inv_put_dialogue) (simp_all add: mem_inv_def dialogue_ok_def)
  then show ?thesis using a t ok(2) by simp
qed

lemma mem_inv_updatePerformance:
  assumes "mem_inv s" "room (Suc n) s" "ex_NodeID e \<noteq> []" "ex_Model e \<noteq> []"
  shows "mem_inv (updatePerformanceLocked cd e s) \<and> room n (updatePerformanceLocked cd e s)"
proof -
  define taskType where "taskType = (if ex_TaskType e = [] then ''general'' else ex_TaskType e)"
  define key where "key = perfKey (ex_NodeID e) (ex_Model e) taskType"
  define current where "current = (case gm_get (mm_performances s) key of Some p \<Rightarrow> p
    | None \<Rightarrow> zero_performance\<lparr>pe_NodeID := ex_NodeID e, pe_Model := ex_Model e, pe_TaskType := to_lower taskType\<rparr>)"
  obtain sq s1 where n: "nextSequenceLocked (mm_origin s) s = (sq, s1)" by fastforce
  note nx = next_all [OF n assms(1,2)]
  define p where "p = (count_attempt cd e current)\<lparr>pe_Origin := mm_origin s, pe_Sequence := sq\<rparr>"
  have tt: "taskType \<noteq> []" "to_lower taskType \<noteq> []" by (simp_all add: taskType_def to_lower_def)
  have "performance_key current = key \<and> pe_NodeID current \<noteq> [] \<and> pe_Model current \<noteq> []"
  proof (cases "gm_get (mm_performances s) key")
    case None
    then show ?thesis using assms(3,4) tt by (simp add: current_def performance_key_def perfKey_def key_def to_lower_idem)
  next
    case (Some q)
    then show ?thesis using assms(1) by (simp add: current_def mem_inv_def stamps_ok_def records_ok_def performance_ok_def)
  qed
  then have "performance_ok (mark_of s1) key p"
    using nx(4) by (auto simp: performance_ok_def p_def count_attempt_def Let_def performance_key_def)
  then have "stamps_ok (s1\<lparr>mm_performances := gm_put key p (mm_performances s1)\<rparr>)" using stamps_put_performance nx(1) by blast
  moreover have "updatePerformanceLocked cd e s = publishPerformanceSnapshotLocked (s1\<lparr>mm_performances := gm_put key p (mm_performances s1)\<rparr>)"
    unfolding updatePerformanceLocked_def Let_def taskType_def [symmetric] key_def [symmetric] current_def [symmetric] n by (simp add: p_def)
  ultimately show ?thesis using nx(3) by (simp add: mem_inv_def published_def publishPerformanceSnapshotLocked_def)
qed

lemma next_nextID: "nextSequenceLocked og (s\<lparr>mm_nextID := i\<rparr>) = (fst (nextSequenceLocked og s), (snd (nextSequenceLocked og s))\<lparr>mm_nextID := i\<rparr>)"
  by (simp add: nextSequenceLocked_def Notify_def Let_def)

lemma mem_inv_Record:
  assumes "mem_inv s" "room (Suc (Suc n)) s"
  shows "mem_inv (snd (Record cd now e s)) \<and> room n (snd (Record cd now e s))"
proof -
  obtain sq s1 where n: "nextSequenceLocked (mm_origin s) s = (sq, s1)" by fastforce
  note nx = next_all [OF n assms]
  have i: "mm_nextID s1 = mm_nextID s" "mm_origin s1 = mm_origin s" using next_fields(1,2) [OF n] by simp_all
  define e2 where "e2 = e\<lparr>ex_CreatedAt := (if ex_CreatedAt e = 0 then now else ex_CreatedAt e), ex_Kind := (if ex_Kind e = [] then ''task'' else ex_Kind e),
    ex_Prompt := truncate_text (ex_Prompt e) (8 * 1024), ex_Output := truncate_text (ex_Output e) (32 * 1024),
    ex_ID := mm_nextID s + 1, ex_Origin := mm_origin s, ex_Sequence := sq\<rparr>"
  define s3 where "s3 = s1\<lparr>mm_nextID := mm_nextID s1 + 1, mm_experiences := mm_experiences s1 @ [e2],
    mm_fingerprints := gm_put (experienceFingerprint cd e2) True (mm_fingerprints s1)\<rparr>"
  have rec: "Record cd now e s = (e2, if ex_NodeID e2 \<noteq> [] \<and> ex_Model e2 \<noteq> [] then updatePerformanceLocked cd e2 s3 else s3)"
    by (simp add: Record_def Let_def next_nextID n i e2_def s3_def)
  have "unat (mm_nextID s1) + Suc (Suc n) < 2 ^ 64" using assms(2) i by (simp add: room_def)
  then have "stamps_ok s3" unfolding s3_def by (rule stamps_add_experience [OF nx(1)]) (use nx(4) i in \<open>simp_all add: e2_def\<close>)
  then have inv: "mem_inv s3" using nx(2) published_fields [of s3 s1] by (simp add: mem_inv_def s3_def)
  have room: "room (Suc n) s3" using room_nextID [OF assms(2) nx(3) i(1)] by (simp add: s3_def)
  show ?thesis using rec inv room mem_inv_updatePerformance [OF inv room] room_mono [OF room] by simp
qed

lemma mem_inv_insensitive [simp]:
  "mem_inv (s\<lparr>mm_changes := n\<rparr>) = mem_inv s" "mem_inv (s\<lparr>mm_agentSessions := as\<rparr>) = mem_inv s" "mem_inv (s\<lparr>mm_shardGroups := gs\<rparr>) = mem_inv s"
  "room k (s\<lparr>mm_changes := n\<rparr>) = room k s" "room k (s\<lparr>mm_agentSessions := as\<rparr>) = room k s" "room k (s\<lparr>mm_shardGroups := gs\<rparr>) = room k s"
  using published_fields [of "s\<lparr>mm_changes := n\<rparr>" s] published_fields [of "s\<lparr>mm_agentSessions := as\<rparr>" s] published_fields [of "s\<lparr>mm_shardGroups := gs\<rparr>" s]
  by (simp_all add: mem_inv_def stamps_ok_def records_ok_def room_def)

lemma mem_inv_Prune:
  assumes "mem_inv s"
  shows "mem_inv (snd (Prune now olderThan s))"
proof -
  have "mem_inv (s\<lparr>mm_experiences := filter P (mm_experiences s)\<rparr>)" for P
    using assms published_fields [of "s\<lparr>mm_experiences := filter P (mm_experiences s)\<rparr>" s]
    by (simp add: mem_inv_def stamps_ok_def records_ok_def sorted_wrt_filter)
  then show ?thesis by (simp add: Prune_def Let_def Notify_def)
qed

lemma mem_inv_DeleteFact:
  assumes "mem_inv s"
  shows "mem_inv (DeleteFact scope key s)"
proof -
  have "mem_inv (s\<lparr>mm_facts := gm_del k (mm_facts s)\<rparr>)" for k
    using assms published_fields [of "s\<lparr>mm_facts := gm_del k (mm_facts s)\<rparr>" s]
    by (simp add: mem_inv_def stamps_ok_def records_ok_def)
  then show ?thesis by (simp add: DeleteFact_def Let_def Notify_def)
qed

lemma mem_inv_step:
  assumes "mem_inv s" "room (op_cost op + n) s" "\<forall>k. clk k \<noteq> 0" "op_bounded (op_cost op + n) op"
  shows "mem_inv (mem_step cd (clk, op) s) \<and> room n (mem_step cd (clk, op) s)"
proof (cases op)
  case (OpPrune olderThan)
  then show ?thesis using assms mem_inv_Prune by (simp add: Prune_def Let_def Notify_def)
next
  case (OpDeleteFact scope key)
  then show ?thesis using assms mem_inv_DeleteFact by (simp add: DeleteFact_def Let_def Notify_def)
next
  case (OpMergePerformances ps)
  then show ?thesis using assms mem_inv_performances [OF assms(1), of ps n legacyOrigin] by (simp add: MergePerformances_def legacyOrigin_def)
next
  case (OpSetPeer peer w)
  have "gm_wf (mergeWatermarks (PeerWatermarks peer s) w)"
    using assms(1) by (intro mergeWatermarks_wf) (simp add: mem_inv_def stamps_ok_def marks_ok_def)
  then show ?thesis using OpSetPeer assms mem_inv_peer by (simp add: SetPeerWatermarks_def)
qed (use assms mem_inv_Record mem_inv_PutFact mem_inv_GetFact mem_inv_SaveDialogue mem_inv_AppendTurns mem_inv_merge in
  \<open>simp_all add: SaveAgentSession_def DeleteAgentSession_def SaveShardGroup_def DeleteShardGroup_def\<close>)

lemma op_bounded_mono: "op_bounded n op \<Longrightarrow> m \<le> n \<Longrightarrow> op_bounded m op"
  by (cases op) fastforce+

lemma mem_inv_new: "N < 2 ^ 64 \<Longrightarrow> mem_inv (NewInMemoryStore k) \<and> room N (NewInMemoryStore k)"
  by (auto simp: mem_inv_def stamps_ok_def marks_ok_def records_ok_def published_def room_def NewInMemoryStore_def Let_def PeerWatermarks_def gm_get0_def)

text \<open>C32: whatever operations a store performs, merges of arbitrary snapshots and operations that fail included: every record is stored under its own key and
  carries a stamp that is not zero and not above the watermark of its origin, the identifiers of experiences ascend,
  watermarks and counters agree, and readers of learned performances see the stored ones. The clock never reads the zero time, and the
  sequences taken or received stay below \<open>2 ^ 64\<close>.\<close>

theorem memory_invariant:
  assumes "N = sum_list (map (\<lambda>(_, op). op_cost op) ops)" "N < 2 ^ 64" "\<forall>(clk, op) \<in> set ops. (\<forall>k. clk k \<noteq> 0) \<and> op_bounded N op"
  shows "mem_inv (fold (mem_step cd) ops (NewInMemoryStore storeID))"
proof -
  have "mem_inv (fold (mem_step cd) xs s)"
    if "mem_inv s" "room (sum_list (map (\<lambda>(_, op). op_cost op) xs)) s" "sum_list (map (\<lambda>(_, op). op_cost op) xs) \<le> N"
      "\<forall>(clk, op) \<in> set xs. (\<forall>k. clk k \<noteq> 0) \<and> op_bounded N op" for xs s
    using that
  proof (induction xs arbitrary: s)
    case (Cons x xs)
    obtain clk op where x: "x = (clk, op)" by fastforce
    have b: "op_bounded (op_cost op + sum_list (map (\<lambda>(_, op). op_cost op) xs)) op" by (rule op_bounded_mono [of N]) (use Cons.prems(3,4) in \<open>simp_all add: x\<close>)
    have "mem_inv (mem_step cd (clk, op) s) \<and> room (sum_list (map (\<lambda>(_, op). op_cost op) xs)) (mem_step cd (clk, op) s)"
      by (rule mem_inv_step [OF Cons.prems(1) _ _ b]) (use Cons.prems(2,4) in \<open>simp_all add: x\<close>)
    then show ?case using Cons.IH [of "mem_step cd (clk, op) s"] Cons.prems(3,4) by (simp add: x)
  qed simp
  from this [of "NewInMemoryStore storeID" ops] show ?thesis using mem_inv_new [OF assms(2)] assms(1,3) by simp
qed

theorem memory_invariant_witness:
  "mem_inv (fold (mem_step sample_codec)
     [(\<lambda>_. 5, OpPutFact sample_fact), (\<lambda>_. 6, OpMerge sample_snapshot ''peer''), (\<lambda>_. 7, OpGetFact [] ''k''), (\<lambda>_. 8, OpSaveDialogue sample_dialogue)]
     (NewInMemoryStore 1))"
  by (rule memory_invariant [OF refl]) (simp_all add: snapshot_records_def sample_snapshot_def sample_fact_def sample_dialogue_def zero_dialogue_def zero_performance_def)

end
