(* ===== verification/Memory_Pages.thy ===== *)
theory Memory_Pages
  imports Memory_Invariant Sync_Page
begin

text \<open>
  Pages of memory (\<^verbatim>\<open>internal/memory/sync_pages.go\<close>): the split of a snapshot into pages that fit a request, on top
  of the pages of \<open>Sync_Page\<close>. Its loop is a partial function, so that it ends is a lemma.
\<close>

subsection \<open>Pages of a snapshot\<close>

definition experiencePageKey :: "uint64 \<Rightarrow> string" where
  "experiencePageKey i =
     (let number = format_base 10 (unat i) in ''experience:'' @ replicate (20 - length number) (CHR ''0'') @ number)"

definition page_records :: "mem_snapshot \<Rightarrow> mem_record sync_record list" where
  "page_records sn =
     map (\<lambda>e. \<lparr>rc_Value = RExperience e, rc_Origin = ex_Origin e, rc_Sequence = ex_Sequence e, rc_Key = experiencePageKey (ex_ID e)\<rparr>) (sn_Experiences sn) @
     map (\<lambda>f. \<lparr>rc_Value = RFact f, rc_Origin = fa_Origin f, rc_Sequence = fa_Sequence f,
                rc_Key = ''fact:'' @ fa_Scope f @ [CHR 0x00] @ fa_Key f\<rparr>) (sn_Facts sn) @
     map (\<lambda>p. \<lparr>rc_Value = RPerformance p, rc_Origin = pe_Origin p, rc_Sequence = pe_Sequence p,
                rc_Key = ''performance:'' @ pe_NodeID p @ [CHR 0x00] @ pe_Model p @ [CHR 0x00] @ pe_TaskType p\<rparr>) (sn_Performances sn) @
     map (\<lambda>d. \<lparr>rc_Value = RDialogue d, rc_Origin = di_Origin d, rc_Sequence = di_Sequence d, rc_Key = ''dialogue:'' @ di_ID d\<rparr>) (sn_Dialogues sn)"

text \<open>The length of the JSON of a record; watermarks are never records of a page.\<close>

definition encode_record :: "mem_codec \<Rightarrow> mem_record \<Rightarrow> unit + nat" where
  "encode_record cd r =
     (case (case r of RExperience e \<Rightarrow> mc_experience cd e | RFact f \<Rightarrow> mc_fact cd f | RPerformance p \<Rightarrow> mc_performance cd p
              | RDialogue d \<Rightarrow> mc_dialogue cd d | RMark _ _ \<Rightarrow> None) of
        None \<Rightarrow> Inl () | Some body \<Rightarrow> Inr (length body))"

definition empty_snapshot :: "int \<Rightarrow> watermarks \<Rightarrow> mem_snapshot" where
  "empty_snapshot version w =
     \<lparr>sn_Experiences = [], sn_Facts = [], sn_Performances = [], sn_Dialogues = [], sn_SyncVersion = version, sn_Watermarks = w\<rparr>"

fun add_value :: "mem_record \<Rightarrow> mem_snapshot \<Rightarrow> mem_snapshot" where
  "add_value (RExperience e) page = page\<lparr>sn_Experiences := sn_Experiences page @ [e]\<rparr>"
| "add_value (RFact f) page = page\<lparr>sn_Facts := sn_Facts page @ [f]\<rparr>"
| "add_value (RPerformance p) page = page\<lparr>sn_Performances := sn_Performances page @ [p]\<rparr>"
| "add_value (RDialogue d) page = page\<lparr>sn_Dialogues := sn_Dialogues page @ [d]\<rparr>"
| "add_value (RMark og sq) page = page"

definition page_of :: "mem_record list \<Rightarrow> watermarks \<Rightarrow> mem_snapshot" where
  "page_of vals w = fold add_value vals (empty_snapshot SyncProtocolVersion w)"

definition PageSnapshot ::
  "mem_codec \<Rightarrow> mem_snapshot \<Rightarrow> watermarks \<Rightarrow> watermarks \<Rightarrow> int \<Rightarrow> nat \<Rightarrow> unit page_error + mem_snapshot \<times> watermarks \<times> bool" where
  "PageSnapshot cd sn cursor upper maxBytes envelopeBytes =
     (case mc_snapshot cd (empty_snapshot SyncProtocolVersion upper) of
        None \<Rightarrow> Inl (PageEncode ())
      | Some baseJSON \<Rightarrow>
          (case Next (page_records sn) cursor upper maxBytes (length baseJSON + envelopeBytes) (encode_record cd) of
             Inl e \<Rightarrow> Inl e
           | Inr (vals, nextCursor, hasMore) \<Rightarrow> Inr (page_of vals (if hasMore then [] else upper), nextCursor, hasMore)))"

definition memorySyncRecordCount :: "mem_snapshot \<Rightarrow> nat" where
  "memorySyncRecordCount sn = length (sn_Experiences sn) + length (sn_Facts sn) + length (sn_Performances sn) + length (sn_Dialogues sn)"

partial_function (option) split_snapshot ::
  "mem_codec \<Rightarrow> mem_snapshot \<Rightarrow> watermarks \<Rightarrow> int \<Rightarrow> nat \<Rightarrow> watermarks \<Rightarrow> mem_snapshot list \<Rightarrow> (unit page_error + mem_snapshot list) option" where
  "split_snapshot cd sn upper maxBytes envelopeBytes cursor pages =
     (case PageSnapshot cd sn cursor upper maxBytes envelopeBytes of
        Inl e \<Rightarrow> Some (Inl e)
      | Inr (page, nextCursor, hasMore) \<Rightarrow>
          if \<not> hasMore then Some (Inr (pages @ [page]))
          else if memorySyncRecordCount page = 0 then Some (Inl PageNoProgress)
          else split_snapshot cd sn upper maxBytes envelopeBytes nextCursor (pages @ [page]))"

declare split_snapshot.simps [code]

definition snapshotWatermarks :: "mem_snapshot \<Rightarrow> watermarks" where
  "snapshotWatermarks sn =
     fold (\<lambda>(origin, sequence) w. if origin \<noteq> [] \<and> gm_get0 w origin < sequence then gm_put origin sequence w else w)
       (map (\<lambda>e. (ex_Origin e, ex_Sequence e)) (sn_Experiences sn) @ map (\<lambda>f. (fa_Origin f, fa_Sequence f)) (sn_Facts sn) @
        map (\<lambda>p. (pe_Origin p, pe_Sequence p)) (sn_Performances sn) @ map (\<lambda>d. (di_Origin d, di_Sequence d)) (sn_Dialogues sn)) []"

definition SplitSnapshot :: "mem_codec \<Rightarrow> mem_snapshot \<Rightarrow> int \<Rightarrow> nat \<Rightarrow> (unit page_error + mem_snapshot list) option" where
  "SplitSnapshot cd sn maxBytes envelopeBytes =
     (let upper = (if sn_Watermarks sn = [] then snapshotWatermarks sn else sn_Watermarks sn)
      in split_snapshot cd sn upper maxBytes envelopeBytes [] [])"

subsection \<open>The pages together\<close>

definition data_records :: "mem_snapshot \<Rightarrow> mem_record list" where
  "data_records sn =
     map RExperience (sn_Experiences sn) @ map RFact (sn_Facts sn) @ map RPerformance (sn_Performances sn) @ map RDialogue (sn_Dialogues sn)"

lemma page_records_values: "map rc_Value (page_records sn) = data_records sn"
  by (simp add: page_records_def data_records_def)

lemma data_records_count: "length (data_records sn) = memorySyncRecordCount sn"
  by (simp add: data_records_def memorySyncRecordCount_def)

abbreviation is_data :: "mem_record \<Rightarrow> bool" where
  "is_data r \<equiv> (case r of RMark _ _ \<Rightarrow> False | _ \<Rightarrow> True)"

lemma add_values: "\<forall>v \<in> set vals. is_data v \<Longrightarrow> mset (data_records (fold add_value vals page)) = mset (data_records page) + mset vals"
proof (induction vals arbitrary: page)
  case (Cons v vals)
  then have "mset (data_records (add_value v page)) = mset (data_records page) + {#v#}" by (cases v) (simp_all add: data_records_def)
  then show ?case using Cons by simp
qed simp

lemma add_value_fields: "sn_Watermarks (fold add_value vals page) = sn_Watermarks page" "sn_SyncVersion (fold add_value vals page) = sn_SyncVersion page"
proof -
  have "sn_Watermarks (add_value v page) = sn_Watermarks page \<and> sn_SyncVersion (add_value v page) = sn_SyncVersion page" for v page by (cases v) simp_all
  then show "sn_Watermarks (fold add_value vals page) = sn_Watermarks page" "sn_SyncVersion (fold add_value vals page) = sn_SyncVersion page"
    by (induction vals arbitrary: page) simp_all
qed

lemma page_of_fields [simp]: "sn_Watermarks (page_of vals w) = w" "sn_SyncVersion (page_of vals w) = SyncProtocolVersion"
  by (simp_all add: page_of_def add_value_fields empty_snapshot_def)

lemma page_of_records: "\<forall>v \<in> set vals. is_data v \<Longrightarrow> mset (data_records (page_of vals w)) = mset vals"
  by (simp add: page_of_def add_values) (simp add: data_records_def empty_snapshot_def)

lemma data_is_data: "v \<in> set (data_records sn) \<Longrightarrow> is_data v"
  by (auto simp: data_records_def)

text \<open>A list of vals per page, with the watermarks on the last page only.\<close>

fun finish_pages :: "watermarks \<Rightarrow> mem_record list list \<Rightarrow> mem_snapshot list" where
  "finish_pages upper [] = []"
| "finish_pages upper [vs] = [page_of vs upper]"
| "finish_pages upper (vs # ws # vss) = page_of vs [] # finish_pages upper (ws # vss)"

lemma finish_pages_single: "vss \<noteq> [] \<Longrightarrow> finish_pages upper (vs # vss) = page_of vs [] # finish_pages upper vss"
  by (cases vss) simp_all

lemma option_sum_cases: "(x = None \<Longrightarrow> P) \<Longrightarrow> (\<And>e. x = Some (Inl e) \<Longrightarrow> P) \<Longrightarrow> (\<And>v. x = Some (Inr v) \<Longrightarrow> P) \<Longrightarrow> P"
  by (metis option.exhaust sum.exhaust)

lemma split_pages_acc:
  "split_pages records upper maxBytes base encode cur pages =
     map_option (map_sum id ((@) pages)) (split_pages records upper maxBytes base encode cur [])"
proof (induction "ahead cur (eligible records)" arbitrary: cur pages rule: less_induct)
  case less
  show ?case
  proof (cases "\<exists>page cur'. Next records cur upper maxBytes base encode = Inr (page, cur', True)")
    case True
    then obtain page cur' where n: "Next records cur upper maxBytes base encode = Inr (page, cur', True)" by blast
    note p = Next_progress [OF n]
    have "split_pages records upper maxBytes base encode cur ps = split_pages records upper maxBytes base encode cur' (ps @ [page])" for ps
      using n p(1) by (subst split_pages.simps) simp
    then show ?thesis using less [OF p(2), of "pages @ [page]"] less [OF p(2), of "[page]"]
      by (cases "split_pages records upper maxBytes base encode cur' []" rule: option_sum_cases) simp_all
  next
    case False
    then show ?thesis by (subst (1 2) split_pages.simps) (auto split: sum.split)
  qed
qed

lemma split_nonempty:
  assumes "split_pages records upper maxBytes base encode cur [] = Some (Inr ps)"
  shows "ps \<noteq> []"
proof (cases "\<exists>page cur'. Next records cur upper maxBytes base encode = Inr (page, cur', True)")
  case True
  then obtain page cur' where n: "Next records cur upper maxBytes base encode = Inr (page, cur', True)" by blast
  then have "split_pages records upper maxBytes base encode cur' [page] = Some (Inr ps)"
    using assms Next_progress(1) [OF n] by (subst (asm) split_pages.simps) simp
  then show ?thesis unfolding split_pages_acc [of _ _ _ _ _ cur' "[page]"]
    by (cases "split_pages records upper maxBytes base encode cur' []" rule: option_sum_cases) auto
next
  case False
  then show ?thesis using assms by (subst (asm) split_pages.simps) (auto split: sum.splits)
qed

lemma fill_page_values:
  "fill_page encode upper maxBytes rs cur page bytes = Inr (page', cur', hasMore) \<Longrightarrow> set page' \<subseteq> set page \<union> rc_Value ` set rs"
proof (induction rs arbitrary: cur page bytes)
  case (Cons r rs)
  from Cons.prems consider b c where "fill_page encode upper maxBytes rs c page b = Inr (page', cur', hasMore)" | "page' = page"
    | b c where "fill_page encode upper maxBytes rs c (page @ [rc_Value r]) b = Inr (page', cur', hasMore)"
    by (auto simp: Let_def split: if_splits sum.splits)
  then show ?case by cases (use Cons.IH in fastforce)+
qed simp

lemma Next_values:
  assumes "Next records cur upper maxBytes base encode = Inr (vs, cur', hasMore)"
  shows "set vs \<subseteq> set (map rc_Value records)"
proof -
  have "set (map rc_Value (eligible records)) = set (map rc_Value records)" by (metis mset_eligible set_mset_mset)
  then show ?thesis using fill_page_values [OF assms [unfolded Next_def]] by simp
qed

text \<open>The loop of \<^verbatim>\<open>SplitSnapshot\<close> is that of \<open>Sync_Page\<close> with the pages put into snapshots.\<close>

lemma split_snapshot_pages:
  assumes "mc_snapshot cd (empty_snapshot SyncProtocolVersion upper) = Some base"
  shows "split_snapshot cd sn upper maxBytes env cur pages =
    map_option (map_sum id (\<lambda>vss. pages @ finish_pages upper vss))
      (split_pages (page_records sn) upper maxBytes (length base + env) (encode_record cd) cur [])"
proof (induction "ahead cur (eligible (page_records sn))" arbitrary: cur pages rule: less_induct)
  case less
  let ?N = "Next (page_records sn) cur upper maxBytes (length base + env) (encode_record cd)"
  show ?case
  proof (cases "\<exists>page cur'. ?N = Inr (page, cur', True)")
    case True
    then obtain vs cur' where n: "?N = Inr (vs, cur', True)" by blast
    note p = Next_progress [OF n]
    have "set vs \<subseteq> set (data_records sn)" using Next_values [OF n] by (simp only: page_records_values)
    then have d: "\<forall>v \<in> set vs. is_data v" using data_is_data by blast
    then have c: "memorySyncRecordCount (page_of vs []) \<noteq> 0"
      using arg_cong [OF page_of_records [OF d], of size "[]"] p(1) by (simp add: data_records_count)
    have "split_snapshot cd sn upper maxBytes env cur pages = split_snapshot cd sn upper maxBytes env cur' (pages @ [page_of vs []])"
      using n c by (subst split_snapshot.simps) (simp add: PageSnapshot_def assms)
    moreover have "split_pages (page_records sn) upper maxBytes (length base + env) (encode_record cd) cur [] =
        map_option (map_sum id ((#) vs)) (split_pages (page_records sn) upper maxBytes (length base + env) (encode_record cd) cur' [])"
      using n p(1) by (subst split_pages.simps)
        (cases "split_pages (page_records sn) upper maxBytes (length base + env) (encode_record cd) cur' []" rule: option_sum_cases;
          simp add: split_pages_acc [of _ _ _ _ _ cur' "[vs]"])
    ultimately show ?thesis using less [OF p(2), of "pages @ [page_of vs []]"] split_nonempty [of "page_records sn" upper maxBytes "length base + env" "encode_record cd" cur']
      by (cases "split_pages (page_records sn) upper maxBytes (length base + env) (encode_record cd) cur' []" rule: option_sum_cases)
        (auto simp: finish_pages_single)
  next
    case False
    then show ?thesis by (subst split_snapshot.simps, subst split_pages.simps) (auto simp: PageSnapshot_def assms split: sum.split)
  qed
qed

lemma finish_pages_delivers:
  assumes "\<forall>v \<in> set (concat vss). is_data v" "vss \<noteq> []"
  shows "mset (concat (map data_records (finish_pages upper vss))) = mset (concat vss) \<and> finish_pages upper vss \<noteq> [] \<and>
    (\<forall>p \<in> set (butlast (finish_pages upper vss)). sn_Watermarks p = []) \<and> sn_Watermarks (last (finish_pages upper vss)) = upper"
  using assms
proof (induction upper vss rule: finish_pages.induct)
  case (3 upper vs ws vss)
  have "finish_pages upper (ws # vss) \<noteq> []" using 3 by simp
  then show ?case using 3 page_of_records [of vs] by simp
qed (simp_all add: page_of_records)

abbreviation snapshot_upper :: "mem_snapshot \<Rightarrow> watermarks" where
  "snapshot_upper sn \<equiv> (if sn_Watermarks sn = [] then snapshotWatermarks sn else sn_Watermarks sn)"

lemma split_ends: "\<exists>y. SplitSnapshot cd sn maxBytes env = Some y"
proof (cases "mc_snapshot cd (empty_snapshot SyncProtocolVersion (snapshot_upper sn))")
  case None
  then show ?thesis by (simp add: SplitSnapshot_def Let_def split_snapshot.simps [of _ _ _ _ _ "[]"] PageSnapshot_def)
next
  case (Some base)
  then show ?thesis using split_terminates [of "page_records sn" "snapshot_upper sn" maxBytes "length base + env" "encode_record cd" "[]" "[]"]
    by (auto simp: SplitSnapshot_def Let_def split_snapshot_pages [OF Some])
qed

lemma fold_marks_mono: "gm_get0 w og \<le> gm_get0 (fold (\<lambda>(origin, sequence) w. if origin \<noteq> [] \<and> gm_get0 w origin < sequence then gm_put origin sequence w else w) xs w) og"
proof (induction xs arbitrary: w)
  case (Cons x xs)
  obtain og' sq where x: "x = (og', sq)" by fastforce
  have "gm_get0 w og \<le> gm_get0 (if og' \<noteq> [] \<and> gm_get0 w og' < sq then gm_put og' sq w else w) og" by auto
  then show ?case using order_trans [OF _ Cons] by (simp add: x)
qed simp

lemma fold_marks_covers:
  "(og, sq) \<in> set xs \<Longrightarrow> og \<noteq> [] \<Longrightarrow>
     sq \<le> gm_get0 (fold (\<lambda>(origin, sequence) w. if origin \<noteq> [] \<and> gm_get0 w origin < sequence then gm_put origin sequence w else w) xs w) og"
proof (induction xs arbitrary: w)
  case (Cons x xs)
  show ?case
  proof (cases "(og, sq) = x")
    case True
    then have "sq \<le> gm_get0 (if gm_get0 w og < sq then gm_put og sq w else w) og" by (simp add: not_less)
    then show ?thesis using order_trans [OF _ fold_marks_mono] True Cons.prems(2) by fastforce
  next
    case False
    then show ?thesis using Cons by simp
  qed
qed simp

lemma snapshotWatermarks_covers:
  "r \<in> set (page_records sn) \<Longrightarrow> \<not> legacy_record r \<Longrightarrow> rc_Sequence r \<le> gm_get0 (snapshotWatermarks sn) (rc_Origin r)"
  unfolding snapshotWatermarks_def by (rule fold_marks_covers) (auto simp: page_records_def legacy_record_def)

text \<open>Pages that together hold the records of a snapshot, with its watermarks on the last one only.\<close>

definition delivers :: "mem_snapshot list \<Rightarrow> mem_snapshot \<Rightarrow> watermarks \<Rightarrow> bool" where
  "delivers pages sn upper \<longleftrightarrow>
     pages \<noteq> [] \<and> mset (concat (map data_records pages)) = mset (data_records sn) \<and>
     (\<forall>p \<in> set (butlast pages). sn_Watermarks p = []) \<and> sn_Watermarks (last pages) = upper"

lemma page_values:
  assumes "split_pages (page_records sn) upper maxBytes base encode [] [] = Some (Inr vss)"
    "distinct (map stamp_of (eligible (page_records sn)))" "length (page_records sn) < 2 ^ 64"
    "\<forall>r \<in> set (page_records sn). \<not> legacy_record r \<longrightarrow> rc_Sequence r \<le> gm_get0 upper (rc_Origin r)"
  shows "mset (concat vss) = mset (data_records sn)" "\<forall>vs \<in> set vss. vs \<noteq> [] \<longrightarrow> int base + record_bytes encode vs \<le> maxBytes"
proof -
  from split_result [OF eligible_ascending [OF assms(2)] assms(1)] pending_all [OF assms(4,3)]
  have "concat vss = map rc_Value (eligible (page_records sn))" "\<forall>vs \<in> set vss. vs \<noteq> [] \<longrightarrow> int base + record_bytes encode vs \<le> maxBytes" by auto
  then show "mset (concat vss) = mset (data_records sn)" "\<forall>vs \<in> set vss. vs \<noteq> [] \<longrightarrow> int base + record_bytes encode vs \<le> maxBytes"
    using mset_eligible [of "page_records sn"] by (simp_all only: page_records_values)
qed

lemma finish_pages_in: "p \<in> set (finish_pages upper vss) \<Longrightarrow> \<exists>vs \<in> set vss. \<exists>w. p = page_of vs w"
  by (induction upper vss rule: finish_pages.induct) auto

lemma record_bytes_mset: "mset vs = mset ws \<Longrightarrow> record_bytes encode vs = record_bytes encode ws"
proof -
  have "record_bytes encode us = sum_mset (image_mset (\<lambda>v. int (projr (encode v)) + 1) (mset us))" for us
    by (simp add: record_bytes_def sum_mset_sum_list [symmetric])
  then show "mset vs = mset ws \<Longrightarrow> record_bytes encode vs = record_bytes encode ws" by simp
qed

lemma split_delivers:
  assumes "distinct (map stamp_of (eligible (page_records sn)))" "length (page_records sn) < 2 ^ 64"
    "\<forall>r \<in> set (page_records sn). \<not> legacy_record r \<longrightarrow> rc_Sequence r \<le> gm_get0 upper (rc_Origin r)"
    "mc_snapshot cd (empty_snapshot SyncProtocolVersion upper) = Some base"
    "\<forall>r \<in> set (data_records sn). fits (encode_record cd) (int (length base + env)) maxBytes r"
  shows "\<exists>pages. split_snapshot cd sn upper maxBytes env [] [] = Some (Inr pages) \<and> delivers pages sn upper \<and>
    (\<forall>p \<in> set pages. data_records p \<noteq> [] \<longrightarrow> int (length base + env) + record_bytes (encode_record cd) (data_records p) \<le> maxBytes)"
proof -
  have "rc_Value r \<in> set (data_records sn)" if "r \<in> set (eligible (page_records sn))" for r
    using that mset_eligible [of "page_records sn"] unfolding page_records_values by (metis image_eqI set_map set_mset_mset)
  then have "\<forall>r \<in> set (eligible (page_records sn)). fits (encode_record cd) (int (length base + env)) maxBytes (rc_Value r)" using assms(5) by blast
  from split_succeeds [OF this] obtain vss where
    v: "split_pages (page_records sn) upper maxBytes (length base + env) (encode_record cd) [] [] = Some (Inr vss)" by blast
  define pages where "pages = finish_pages upper vss"
  have sp: "split_snapshot cd sn upper maxBytes env [] [] = Some (Inr pages)" using v by (simp add: split_snapshot_pages [OF assms(4)] pages_def)
  note vals = page_values [OF v assms(1-3)]
  have eq: "set (concat vss) = set (data_records sn)" using vals(1) by (metis set_mset_mset)
  then have d: "\<forall>v \<in> set (concat vss). is_data v" using data_is_data by blast
  have "delivers pages sn upper" using finish_pages_delivers [OF d split_nonempty [OF v], of upper] vals(1) by (simp add: delivers_def pages_def)
  moreover have "int (length base + env) + record_bytes (encode_record cd) (data_records p) \<le> maxBytes" if "p \<in> set pages" "data_records p \<noteq> []" for p
  proof -
    from finish_pages_in [of p upper vss] that(1) obtain vs w where p: "vs \<in> set vss" "p = page_of vs w" unfolding pages_def by blast
    have "\<forall>v \<in> set vs. is_data v" using p(1) d by (auto simp: set_concat)
    then have m: "mset (data_records p) = mset vs" using page_of_records p(2) by simp
    then have "vs \<noteq> []" using that(2) by auto
    then show ?thesis using bspec [OF vals(2) p(1)] record_bytes_mset [OF m, of "encode_record cd"] by simp
  qed
  ultimately show ?thesis using sp by blast
qed



end
