(* ===== verification/Memory_Batch.thy ===== *)
theory Memory_Batch
  imports Memory_Pages Step_System
begin

text \<open>
  Batches of memory: the identities of records and the payloads of \<^verbatim>\<open>internal/memory/sync.go\<close>, and the buffer in which a
  coordinator collects payloads for its peers and from which it flushes one combined batch
  (\<^verbatim>\<open>internal/nodeagent/syncer_component.go\<close>). Records may be buffered while a flush is under way, so its beginning and its
  end are steps of their own. What the network does to a batch is an argument.
\<close>

subsection \<open>Identities and payloads\<close>

record mem_payload =
  pl_RecordIDs :: "string list"
  pl_Snapshot :: mem_snapshot

datatype identity_error = EncodeIdentity string

definition syncRecordID :: "mem_codec \<Rightarrow> string \<Rightarrow> string \<Rightarrow> uint64 \<Rightarrow> string option \<Rightarrow> identity_error + string" where
  "syncRecordID cd kind origin sequence body =
     (if origin \<noteq> [] \<and> sequence \<noteq> 0 then Inr (kind @ '':'' @ mc_quote cd origin @ '':'' @ format_base 10 (unat sequence))
      else case body of None \<Rightarrow> Inl (EncodeIdentity kind) | Some b \<Rightarrow> Inr (kind @ '':legacy:'' @ mc_sha256 cd b))"

fun record_id :: "mem_codec \<Rightarrow> mem_record \<Rightarrow> identity_error + string" where
  "record_id cd (RExperience e) = Inr (experienceFingerprintKey cd e)"
| "record_id cd (RFact f) = syncRecordID cd ''fact'' (fa_Origin f) (fa_Sequence f) (mc_fact cd f)"
| "record_id cd (RPerformance p) = syncRecordID cd ''performance'' (pe_Origin p) (pe_Sequence p) (mc_performance cd p)"
| "record_id cd (RDialogue d) = syncRecordID cd ''dialogue'' (di_Origin d) (di_Sequence d) (mc_dialogue cd d)"
| "record_id cd (RMark og sq) = Inl (EncodeIdentity [])"

fun collect_ids :: "mem_codec \<Rightarrow> mem_record list \<Rightarrow> string list \<Rightarrow> identity_error + string list" where
  "collect_ids cd [] ids = Inr ids"
| "collect_ids cd (r # rs) ids =
     (case record_id cd r of Inl e \<Rightarrow> Inl e | Inr i \<Rightarrow> collect_ids cd rs (if i \<in> set ids then ids else ids @ [i]))"

definition RecordIDs :: "mem_codec \<Rightarrow> mem_snapshot \<Rightarrow> identity_error + string list" where
  "RecordIDs cd sn = collect_ids cd (data_records sn) []"

definition PayloadFromSnapshot :: "mem_codec \<Rightarrow> mem_snapshot \<Rightarrow> identity_error + mem_payload" where
  "PayloadFromSnapshot cd sn =
     (case RecordIDs cd sn of Inl e \<Rightarrow> Inl e | Inr ids \<Rightarrow> Inr \<lparr>pl_RecordIDs = ids, pl_Snapshot = sn\<rparr>)"

fun drop_excluded :: "mem_codec \<Rightarrow> string set \<Rightarrow> mem_record list \<Rightarrow> mem_snapshot \<Rightarrow> identity_error + mem_snapshot" where
  "drop_excluded cd excluded [] filtered = Inr filtered"
| "drop_excluded cd excluded (r # rs) filtered =
     (case record_id cd r of
        Inl e \<Rightarrow> Inl e
      | Inr i \<Rightarrow> drop_excluded cd excluded rs (if i \<in> excluded then filtered else add_value r filtered))"

definition PayloadDifference :: "mem_codec \<Rightarrow> mem_payload \<Rightarrow> string set \<Rightarrow> identity_error + mem_payload" where
  "PayloadDifference cd payload excluded =
     (case drop_excluded cd excluded (data_records (pl_Snapshot payload))
             (empty_snapshot (sn_SyncVersion (pl_Snapshot payload)) (sn_Watermarks (pl_Snapshot payload))) of
        Inl e \<Rightarrow> Inl e
      | Inr filtered \<Rightarrow> PayloadFromSnapshot cd filtered)"

fun append_new :: "mem_codec \<Rightarrow> mem_record list \<Rightarrow> mem_payload \<Rightarrow> identity_error + mem_payload" where
  "append_new cd [] combined = Inr combined"
| "append_new cd (r # rs) combined =
     (case record_id cd r of
        Inl e \<Rightarrow> Inl e
      | Inr i \<Rightarrow>
          append_new cd rs
            (if i \<in> set (pl_RecordIDs combined) then combined
             else \<lparr>pl_RecordIDs = pl_RecordIDs combined @ [i], pl_Snapshot = add_value r (pl_Snapshot combined)\<rparr>))"

fun combine_into :: "mem_codec \<Rightarrow> mem_payload list \<Rightarrow> mem_payload \<Rightarrow> identity_error + mem_payload" where
  "combine_into cd [] combined = Inr combined"
| "combine_into cd (payload # payloads) combined =
     (let sn = pl_Snapshot payload; csn = pl_Snapshot combined;
          csn1 = csn\<lparr>sn_SyncVersion := (if sn_SyncVersion csn < sn_SyncVersion sn then sn_SyncVersion sn else sn_SyncVersion csn),
                     sn_Watermarks := mergeWatermarks (sn_Watermarks csn) (sn_Watermarks sn)\<rparr>
      in case append_new cd (data_records sn) (combined\<lparr>pl_Snapshot := csn1\<rparr>) of
           Inl e \<Rightarrow> Inl e
         | Inr combined' \<Rightarrow> combine_into cd payloads combined')"

definition CombinePayloads :: "mem_codec \<Rightarrow> mem_payload list \<Rightarrow> identity_error + mem_payload" where
  "CombinePayloads cd payloads = combine_into cd payloads \<lparr>pl_RecordIDs = [], pl_Snapshot = empty_snapshot 0 []\<rparr>"

definition SnapshotDifference :: "mem_codec \<Rightarrow> mem_snapshot \<Rightarrow> mem_snapshot \<Rightarrow> identity_error + mem_snapshot" where
  "SnapshotDifference cd sn known =
     (case RecordIDs cd known of
        Inl e \<Rightarrow> Inl e
      | Inr knownIDs \<Rightarrow>
          (case PayloadFromSnapshot cd sn of
             Inl e \<Rightarrow> Inl e
           | Inr payload \<Rightarrow>
               (case PayloadDifference cd payload (set knownIDs) of Inl e \<Rightarrow> Inl e | Inr difference \<Rightarrow> Inr (pl_Snapshot difference))))"

subsection \<open>What a combined batch holds\<close>

abbreviation id_of :: "mem_codec \<Rightarrow> mem_record \<Rightarrow> string" where
  "id_of cd r \<equiv> projr (record_id cd r)"

text \<open>The first record of each identity.\<close>

fun first_of_each :: "('a \<Rightarrow> 'i) \<Rightarrow> 'i set \<Rightarrow> 'a list \<Rightarrow> 'a list" where
  "first_of_each f seen [] = []"
| "first_of_each f seen (x # xs) = (if f x \<in> seen then first_of_each f seen xs else x # first_of_each f (insert (f x) seen) xs)"

lemma first_of_each_append: "first_of_each f seen (xs @ ys) = first_of_each f seen xs @ first_of_each f (seen \<union> f ` set xs) ys"
  by (induction xs arbitrary: seen) (auto simp: insert_absorb)

lemma first_of_each_set: "f ` set (first_of_each f seen xs) = f ` set xs - seen"
  by (induction xs arbitrary: seen) auto

lemma first_of_each_distinct: "distinct (map f (first_of_each f seen xs))"
proof (induction xs arbitrary: seen)
  case (Cons x xs)
  have "f x \<notin> f ` set (first_of_each f (insert (f x) seen) xs)" by (simp only: first_of_each_set) simp
  then show ?case using Cons by auto
qed simp

lemma first_of_each_subset: "set (first_of_each f seen xs) \<subseteq> set xs"
  by (induction xs arbitrary: seen) auto

lemma collect_ids_result:
  "collect_ids cd rs ids = (if \<forall>r \<in> set rs. \<not> isl (record_id cd r)
     then Inr (ids @ map (id_of cd) (first_of_each (id_of cd) (set ids) rs)) else collect_ids cd rs ids)"
proof (induction rs arbitrary: ids)
  case (Cons r rs)
  show ?case
  proof (cases "record_id cd r")
    case (Inr i)
    then show ?thesis using Cons [of "if i \<in> set ids then ids else ids @ [i]"] by auto
  qed simp
qed simp

lemma collect_ids_ok: "(\<exists>ids'. collect_ids cd rs ids = Inr ids') \<longleftrightarrow> (\<forall>r \<in> set rs. \<not> isl (record_id cd r))"
  by (induction rs arbitrary: ids) (auto split: sum.splits)

lemma drop_excluded_ok:
  "drop_excluded cd ex rs sn =
     (if \<forall>r \<in> set rs. \<not> isl (record_id cd r) then Inr (fold add_value (filter (\<lambda>r. id_of cd r \<notin> ex) rs) sn) else drop_excluded cd ex rs sn)"
proof (induction rs arbitrary: sn)
  case (Cons r rs)
  show ?case
  proof (cases "record_id cd r")
    case (Inr i)
    then show ?thesis using Cons [of "if i \<in> ex then sn else add_value r sn"] by auto
  qed simp
qed simp

lemma drop_excluded_fails: "drop_excluded cd ex rs sn = Inr sn' \<Longrightarrow> r \<in> set rs \<Longrightarrow> \<not> isl (record_id cd r)"
  by (induction rs arbitrary: sn) (auto split: sum.splits)

text \<open>A payload whose identities are those of its records.\<close>

definition payload_ok :: "mem_codec \<Rightarrow> mem_payload \<Rightarrow> bool" where
  "payload_ok cd p \<longleftrightarrow> RecordIDs cd (pl_Snapshot p) = Inr (pl_RecordIDs p)"

lemma payload_ids:
  assumes "payload_ok cd p"
  shows "\<forall>r \<in> set (data_records (pl_Snapshot p)). \<not> isl (record_id cd r)" "distinct (pl_RecordIDs p)"
    "set (pl_RecordIDs p) = id_of cd ` set (data_records (pl_Snapshot p))"
proof -
  have c: "collect_ids cd (data_records (pl_Snapshot p)) [] = Inr (pl_RecordIDs p)" using assms by (simp add: payload_ok_def RecordIDs_def)
  then show ok: "\<forall>r \<in> set (data_records (pl_Snapshot p)). \<not> isl (record_id cd r)" using collect_ids_ok by blast
  then have "pl_RecordIDs p = map (id_of cd) (first_of_each (id_of cd) {} (data_records (pl_Snapshot p)))"
    using c collect_ids_result [of cd "data_records (pl_Snapshot p)" "[]"] by simp
  then show "distinct (pl_RecordIDs p)" "set (pl_RecordIDs p) = id_of cd ` set (data_records (pl_Snapshot p))"
    using first_of_each_distinct [of "id_of cd"] first_of_each_set [of "id_of cd" "{}"] by simp_all
qed

lemma PayloadDifference_ok:
  assumes "PayloadDifference cd p ex = Inr q"
  shows "payload_ok cd q" "set (pl_RecordIDs q) = id_of cd ` set (data_records (pl_Snapshot p)) - ex"
    "set (data_records (pl_Snapshot q)) = {r \<in> set (data_records (pl_Snapshot p)). id_of cd r \<notin> ex}"
proof -
  let ?rs = "data_records (pl_Snapshot p)" and ?e = "empty_snapshot (sn_SyncVersion (pl_Snapshot p)) (sn_Watermarks (pl_Snapshot p))"
  obtain sn where d: "drop_excluded cd ex ?rs ?e = Inr sn" and f: "PayloadFromSnapshot cd sn = Inr q"
    using assms by (auto simp: PayloadDifference_def split: sum.splits)
  have q: "pl_Snapshot q = sn" and ok: "payload_ok cd q" using f by (auto simp: PayloadFromSnapshot_def payload_ok_def split: sum.splits)
  show "payload_ok cd q" by (rule ok)
  have "sn = fold add_value (filter (\<lambda>r. id_of cd r \<notin> ex) ?rs) ?e"
    using d drop_excluded_fails [OF d] drop_excluded_ok [of cd ex ?rs ?e] by auto
  moreover have "\<forall>v \<in> set (filter (\<lambda>r. id_of cd r \<notin> ex) ?rs). is_data v" using data_is_data by auto
  ultimately have "mset (data_records sn) = mset (filter (\<lambda>r. id_of cd r \<notin> ex) ?rs)" using add_values by (simp add: data_records_def empty_snapshot_def)
  then have "set (data_records sn) = set (filter (\<lambda>r. id_of cd r \<notin> ex) ?rs)" by (metis set_mset_mset)
  then show r: "set (data_records (pl_Snapshot q)) = {r \<in> set ?rs. id_of cd r \<notin> ex}" by (simp add: q)
  show "set (pl_RecordIDs q) = id_of cd ` set ?rs - ex" using payload_ids(3) [OF ok] r by auto
qed

lemma PayloadDifference_total:
  assumes "\<forall>r \<in> set (data_records (pl_Snapshot p)). \<not> isl (record_id cd r)"
  shows "\<exists>q. PayloadDifference cd p ex = Inr q"
proof -
  let ?rs = "data_records (pl_Snapshot p)" and ?e = "empty_snapshot (sn_SyncVersion (pl_Snapshot p)) (sn_Watermarks (pl_Snapshot p))"
  let ?sn = "fold add_value (filter (\<lambda>r. id_of cd r \<notin> ex) ?rs) ?e"
  have d: "drop_excluded cd ex ?rs ?e = Inr ?sn" using assms drop_excluded_ok [of cd ex ?rs ?e] by simp
  have "\<forall>v \<in> set (filter (\<lambda>r. id_of cd r \<notin> ex) ?rs). is_data v" using data_is_data by auto
  then have "mset (data_records ?sn) = mset (filter (\<lambda>r. id_of cd r \<notin> ex) ?rs)" using add_values by (simp add: data_records_def empty_snapshot_def)
  then have "set (data_records ?sn) = set (filter (\<lambda>r. id_of cd r \<notin> ex) ?rs)" by (metis set_mset_mset)
  then have "\<forall>r \<in> set (data_records ?sn). \<not> isl (record_id cd r)" using assms by simp
  then obtain ids where "RecordIDs cd ?sn = Inr ids" unfolding RecordIDs_def using collect_ids_ok by blast
  then show ?thesis by (simp add: PayloadDifference_def d PayloadFromSnapshot_def)
qed

lemma append_new_ok:
  "append_new cd rs c =
     (if \<forall>r \<in> set rs. \<not> isl (record_id cd r)
      then (let new = first_of_each (id_of cd) (set (pl_RecordIDs c)) rs
            in Inr \<lparr>pl_RecordIDs = pl_RecordIDs c @ map (id_of cd) new, pl_Snapshot = fold add_value new (pl_Snapshot c)\<rparr>)
      else append_new cd rs c)"
proof (induction rs arbitrary: c)
  case (Cons r rs)
  show ?case
  proof (cases "record_id cd r")
    case (Inr i)
    then show ?thesis using Cons [of "if i \<in> set (pl_RecordIDs c) then c else \<lparr>pl_RecordIDs = pl_RecordIDs c @ [i], pl_Snapshot = add_value r (pl_Snapshot c)\<rparr>"]
      by (auto simp: Let_def)
  qed simp
qed simp

abbreviation all_records :: "mem_payload list \<Rightarrow> mem_record list" where
  "all_records ps \<equiv> concat (map (\<lambda>p. data_records (pl_Snapshot p)) ps)"

lemma data_records_update [simp]: "data_records (sn\<lparr>sn_SyncVersion := v, sn_Watermarks := w\<rparr>) = data_records sn"
  by (simp add: data_records_def)

text \<open>Combining on top of what is there: the first record of each new identity is added, and the watermarks are joined.\<close>

lemma combine_into_ok:
  assumes "\<forall>r \<in> set (all_records ps). \<not> isl (record_id cd r)" "\<forall>p \<in> set ps. gm_wf (sn_Watermarks (pl_Snapshot p))"
  shows "\<exists>c'. combine_into cd ps c = Inr c' \<and>
    pl_RecordIDs c' = pl_RecordIDs c @ map (id_of cd) (first_of_each (id_of cd) (set (pl_RecordIDs c)) (all_records ps)) \<and>
    mset (data_records (pl_Snapshot c')) = mset (data_records (pl_Snapshot c)) + mset (first_of_each (id_of cd) (set (pl_RecordIDs c)) (all_records ps)) \<and>
    (\<forall>og. gm_get0 (sn_Watermarks (pl_Snapshot c')) og =
       foldl max (gm_get0 (sn_Watermarks (pl_Snapshot c)) og) (map (\<lambda>p. gm_get0 (sn_Watermarks (pl_Snapshot p)) og) ps))"
  using assms
proof (induction ps arbitrary: c)
  case (Cons p ps)
  let ?rs = "data_records (pl_Snapshot p)" and ?new = "first_of_each (id_of cd) (set (pl_RecordIDs c)) (data_records (pl_Snapshot p))"
  define v where "v = (if sn_SyncVersion (pl_Snapshot c) < sn_SyncVersion (pl_Snapshot p) then sn_SyncVersion (pl_Snapshot p) else sn_SyncVersion (pl_Snapshot c))"
  define csn where "csn = (pl_Snapshot c)\<lparr>sn_SyncVersion := v, sn_Watermarks := mergeWatermarks (sn_Watermarks (pl_Snapshot c)) (sn_Watermarks (pl_Snapshot p))\<rparr>"
  define c1 where "c1 = \<lparr>pl_RecordIDs = pl_RecordIDs c @ map (id_of cd) ?new, pl_Snapshot = fold add_value ?new csn\<rparr>"
  have a: "append_new cd ?rs (c\<lparr>pl_Snapshot := csn\<rparr>) = Inr c1"
    using append_new_ok [of cd ?rs "c\<lparr>pl_Snapshot := csn\<rparr>"] Cons.prems(1) by (simp add: c1_def Let_def)
  have step: "combine_into cd (p # ps) c = combine_into cd ps c1" using a by (simp add: csn_def v_def Let_def)
  have "\<forall>r \<in> set ?new. is_data r" using first_of_each_subset [of "id_of cd" "set (pl_RecordIDs c)" ?rs] data_is_data by blast
  then have m: "mset (data_records (pl_Snapshot c1)) = mset (data_records (pl_Snapshot c)) + mset ?new"
    using add_values [of ?new csn] by (simp add: c1_def csn_def)
  have w: "gm_get0 (sn_Watermarks (pl_Snapshot c1)) og = max (gm_get0 (sn_Watermarks (pl_Snapshot c)) og) (gm_get0 (sn_Watermarks (pl_Snapshot p)) og)" for og
    using Cons.prems(2) by (simp add: c1_def csn_def add_value_fields mergeWatermarks_get)
  have ids: "set (pl_RecordIDs c1) = set (pl_RecordIDs c) \<union> id_of cd ` set ?rs"
    using first_of_each_set [of "id_of cd" "set (pl_RecordIDs c)" ?rs] by (auto simp: c1_def)
  from Cons.IH [of c1] Cons.prems obtain c' where c': "combine_into cd ps c1 = Inr c'"
    "pl_RecordIDs c' = pl_RecordIDs c1 @ map (id_of cd) (first_of_each (id_of cd) (set (pl_RecordIDs c1)) (all_records ps))"
    "mset (data_records (pl_Snapshot c')) = mset (data_records (pl_Snapshot c1)) + mset (first_of_each (id_of cd) (set (pl_RecordIDs c1)) (all_records ps))"
    "\<forall>og. gm_get0 (sn_Watermarks (pl_Snapshot c')) og =
       foldl max (gm_get0 (sn_Watermarks (pl_Snapshot c1)) og) (map (\<lambda>p. gm_get0 (sn_Watermarks (pl_Snapshot p)) og) ps)" by auto
  have split: "first_of_each (id_of cd) (set (pl_RecordIDs c)) (all_records (p # ps)) = ?new @ first_of_each (id_of cd) (set (pl_RecordIDs c1)) (all_records ps)"
    by (simp add: first_of_each_append ids)
  show ?case unfolding step split using c' m w by (intro exI [of _ c']) (simp add: c1_def)
qed simp

lemma foldl_max_upper:
  fixes a :: "'a::linorder"
  shows "a \<le> foldl max a xs \<and> (\<forall>x \<in> set xs. x \<le> foldl max a xs) \<and> foldl max a xs \<in> insert a (set xs)"
proof (induction xs arbitrary: a)
  case (Cons x xs)
  from Cons [of "max a x"] show ?case by (auto simp: max_def split: if_splits)
qed simp

lemma combine_ok:
  assumes "\<forall>r \<in> set (all_records ps). \<not> isl (record_id cd r)" "\<forall>p \<in> set ps. gm_wf (sn_Watermarks (pl_Snapshot p))"
  obtains batch where "CombinePayloads cd ps = Inr batch"
    "pl_RecordIDs batch = map (id_of cd) (first_of_each (id_of cd) {} (all_records ps))"
    "mset (data_records (pl_Snapshot batch)) = mset (first_of_each (id_of cd) {} (all_records ps))"
    "\<And>og. gm_get0 (sn_Watermarks (pl_Snapshot batch)) og = foldl max 0 (map (\<lambda>p. gm_get0 (sn_Watermarks (pl_Snapshot p)) og) ps)"
proof -
  let ?c = "\<lparr>pl_RecordIDs = [], pl_Snapshot = empty_snapshot 0 []\<rparr>"
  from combine_into_ok [OF assms, of ?c] obtain c' where "combine_into cd ps ?c = Inr c'"
    "pl_RecordIDs c' = map (id_of cd) (first_of_each (id_of cd) {} (all_records ps))"
    "mset (data_records (pl_Snapshot c')) = mset (first_of_each (id_of cd) {} (all_records ps))"
    "\<forall>og. gm_get0 (sn_Watermarks (pl_Snapshot c')) og = foldl max 0 (map (\<lambda>p. gm_get0 (sn_Watermarks (pl_Snapshot p)) og) ps)"
    by (auto simp: empty_snapshot_def data_records_def)
  then show ?thesis using that [of c'] by (simp add: CombinePayloads_def)
qed

text \<open>Payloads whose records have identities are always combined: the batch names every identity of the payloads once and holds exactly one record for
  it, taken from the payloads, and its watermark of an origin is the greatest one that a payload has.\<close>

theorem combined_batch_exact:
  assumes "\<forall>p \<in> set ps. \<forall>r \<in> set (data_records (pl_Snapshot p)). \<not> isl (record_id cd r)" "\<forall>p \<in> set ps. gm_wf (sn_Watermarks (pl_Snapshot p))"
  shows "\<exists>batch. CombinePayloads cd ps = Inr batch \<and> distinct (pl_RecordIDs batch) \<and>
    mset (map (id_of cd) (data_records (pl_Snapshot batch))) = mset (pl_RecordIDs batch) \<and>
    set (pl_RecordIDs batch) = (\<Union>p \<in> set ps. id_of cd ` set (data_records (pl_Snapshot p))) \<and>
    set (data_records (pl_Snapshot batch)) \<subseteq> (\<Union>p \<in> set ps. set (data_records (pl_Snapshot p))) \<and>
    (\<forall>og. (\<forall>p \<in> set ps. gm_get0 (sn_Watermarks (pl_Snapshot p)) og \<le> gm_get0 (sn_Watermarks (pl_Snapshot batch)) og) \<and>
       gm_get0 (sn_Watermarks (pl_Snapshot batch)) og \<in> insert 0 ((\<lambda>p. gm_get0 (sn_Watermarks (pl_Snapshot p)) og) ` set ps))"
proof -
  have "\<forall>r \<in> set (all_records ps). \<not> isl (record_id cd r)" using assms(1) by auto
  then obtain batch where b: "CombinePayloads cd ps = Inr batch"
    "pl_RecordIDs batch = map (id_of cd) (first_of_each (id_of cd) {} (all_records ps))"
    "mset (data_records (pl_Snapshot batch)) = mset (first_of_each (id_of cd) {} (all_records ps))"
    "\<And>og. gm_get0 (sn_Watermarks (pl_Snapshot batch)) og = foldl max 0 (map (\<lambda>p. gm_get0 (sn_Watermarks (pl_Snapshot p)) og) ps)"
    using combine_ok [OF _ assms(2)] by metis
  have r: "set (data_records (pl_Snapshot batch)) = set (first_of_each (id_of cd) {} (all_records ps))" using b(3) by (metis set_mset_mset)
  note w = foldl_max_upper [of 0 "map (\<lambda>p. gm_get0 (sn_Watermarks (pl_Snapshot p)) og) ps" for og]
  show ?thesis
  proof (intro exI [of _ batch] conjI allI)
    show "mset (map (id_of cd) (data_records (pl_Snapshot batch))) = mset (pl_RecordIDs batch)" by (simp add: b)
    show "set (pl_RecordIDs batch) = (\<Union>p \<in> set ps. id_of cd ` set (data_records (pl_Snapshot p)))"
      using first_of_each_set [of "id_of cd" "{}" "all_records ps"] by (auto simp: b(2))
    show "set (data_records (pl_Snapshot batch)) \<subseteq> (\<Union>p \<in> set ps. set (data_records (pl_Snapshot p)))"
      using first_of_each_subset [of "id_of cd" "{}" "all_records ps"] by (simp add: r)
    show "\<forall>p \<in> set ps. gm_get0 (sn_Watermarks (pl_Snapshot p)) og \<le> gm_get0 (sn_Watermarks (pl_Snapshot batch)) og" for og using w [of og] by (simp add: b(4))
    show "gm_get0 (sn_Watermarks (pl_Snapshot batch)) og \<in> insert 0 ((\<lambda>p. gm_get0 (sn_Watermarks (pl_Snapshot p)) og) ` set ps)" for og
      using w [of og] by (simp add: b(4))
  qed (use b first_of_each_distinct in \<open>simp_all\<close>)
qed

subsection \<open>The buffer of a coordinator\<close>

record sync_buffer =
  sb_memoryBuffer :: "mem_payload list"
  sb_memoryRecordIDs :: "string set"

definition bufferMemoryPayload :: "mem_codec \<Rightarrow> mem_payload \<Rightarrow> sync_buffer \<Rightarrow> sync_buffer" where
  "bufferMemoryPayload cd payload b =
     (if pl_RecordIDs payload = [] then b
      else case PayloadDifference cd payload (sb_memoryRecordIDs b) of
             Inl _ \<Rightarrow> b
           | Inr filtered \<Rightarrow>
               if pl_RecordIDs filtered = [] then b
               else \<lparr>sb_memoryBuffer = sb_memoryBuffer b @ [filtered], sb_memoryRecordIDs = sb_memoryRecordIDs b \<union> set (pl_RecordIDs filtered)\<rparr>)"

definition restoreMemoryPayloads :: "mem_payload list \<Rightarrow> sync_buffer \<Rightarrow> sync_buffer" where
  "restoreMemoryPayloads payloads b =
     \<lparr>sb_memoryBuffer = payloads @ sb_memoryBuffer b,
      sb_memoryRecordIDs = sb_memoryRecordIDs b \<union> (\<Union>p \<in> set payloads. set (pl_RecordIDs p))\<rparr>"

definition complete_flush :: "mem_payload list \<Rightarrow> sync_buffer \<Rightarrow> sync_buffer" where
  "complete_flush payloads b = b\<lparr>sb_memoryRecordIDs := sb_memoryRecordIDs b - (\<Union>p \<in> set payloads. set (pl_RecordIDs p))\<rparr>"

datatype marshal_error =
    MarshalEncode
  | MarshalTooLarge int
  | WrapperSmaller
  | MarshalPage "unit page_error"

definition marshalMemorySnapshotWithLimit :: "mem_codec \<Rightarrow> int \<Rightarrow> mem_snapshot \<Rightarrow> marshal_error + string" where
  "marshalMemorySnapshotWithLimit cd maxBytes sn =
     (case mc_snapshot cd sn of
        None \<Rightarrow> Inl MarshalEncode
      | Some body \<Rightarrow> if maxBytes < int (length body) then Inl (MarshalTooLarge maxBytes) else Inr body)"

fun wrap_pages :: "(mem_snapshot \<Rightarrow> marshal_error + string) \<Rightarrow> int \<Rightarrow> mem_snapshot list \<Rightarrow> marshal_error + string list" where
  "wrap_pages wrap maxBytes [] = Inr []"
| "wrap_pages wrap maxBytes (page # pages) =
     (case wrap page of
        Inl e \<Rightarrow> Inl e
      | Inr body \<Rightarrow>
          if maxBytes < int (length body) then Inl (MarshalTooLarge maxBytes)
          else case wrap_pages wrap maxBytes pages of Inl e \<Rightarrow> Inl e | Inr bodies \<Rightarrow> Inr (body # bodies))"

definition marshalMemorySnapshotPages ::
  "mem_codec \<Rightarrow> (mem_snapshot \<Rightarrow> marshal_error + string) \<Rightarrow> mem_snapshot \<Rightarrow> int \<Rightarrow> (marshal_error + string list) option" where
  "marshalMemorySnapshotPages cd wrap sn maxBytes =
     (let base = empty_snapshot (sn_SyncVersion sn) (sn_Watermarks sn)
      in case mc_snapshot cd base of
           None \<Rightarrow> Some (Inl MarshalEncode)
         | Some baseJSON \<Rightarrow>
             (case wrap base of
                Inl e \<Rightarrow> Some (Inl e)
              | Inr wrappedBase \<Rightarrow>
                  if length wrappedBase < length baseJSON then Some (Inl WrapperSmaller)
                  else case SplitSnapshot cd sn maxBytes (length wrappedBase - length baseJSON) of
                         None \<Rightarrow> None
                       | Some (Inl e) \<Rightarrow> Some (Inl (MarshalPage e))
                       | Some (Inr pages) \<Rightarrow> Some (wrap_pages wrap maxBytes pages)))"

record sync_peer =
  sp_ID :: string
  sp_Address :: string
  sp_Healthy :: bool

datatype flush_error =
    FlushCancelled
  | FlushCombine identity_error
  | FlushEncode marshal_error
  | NoHealthyPeers
  | ReplicateFailed "string list"

text \<open>The loop over the peers; \<open>post\<close> says whether a peer accepts every page and \<open>cancelled\<close> whether the context has ended when it is the peer's turn.\<close>

fun send_batch ::
  "string \<Rightarrow> (string \<Rightarrow> bool) \<Rightarrow> (string \<Rightarrow> bool) \<Rightarrow> watermarks \<Rightarrow> sync_peer list \<Rightarrow> nat \<times> string list \<times> memory_store \<Rightarrow>
     bool \<times> nat \<times> string list \<times> memory_store" where
  "send_batch nodeID cancelled post w [] st = (False, st)"
| "send_batch nodeID cancelled post w (peer # peers) (successfulPeers, flushErrors, store) =
     (if cancelled (sp_ID peer) then (True, successfulPeers, flushErrors, store)
      else if \<not> sp_Healthy peer \<or> sp_ID peer = nodeID \<or> sp_Address peer = [] then
        send_batch nodeID cancelled post w peers (successfulPeers, flushErrors, store)
      else if \<not> post (sp_ID peer) then send_batch nodeID cancelled post w peers (successfulPeers, flushErrors @ [sp_ID peer], store)
      else send_batch nodeID cancelled post w peers (Suc successfulPeers, flushErrors, snd (SetPeerWatermarks (sp_ID peer) w store)))"

text \<open>What is left of a flush once it has taken the buffer. The result is \<open>None\<close> only if splitting the batch does not end.\<close>

definition finish_flush ::
  "mem_codec \<Rightarrow> string \<Rightarrow> int \<Rightarrow> sync_peer list \<Rightarrow> (string \<Rightarrow> bool) \<Rightarrow> (string \<Rightarrow> bool) \<Rightarrow> mem_payload list \<Rightarrow> sync_buffer \<times> memory_store \<Rightarrow>
     (flush_error option \<times> sync_buffer \<times> memory_store) option" where
  "finish_flush cd nodeID maxBytes peers cancelled post payloads bs =
     (let requeue = (\<lambda>e store. Some (Some e, restoreMemoryPayloads payloads (fst bs), store));
          complete = (\<lambda>store. Some (None, complete_flush payloads (fst bs), store))
      in case CombinePayloads cd payloads of
           Inl e \<Rightarrow> requeue (FlushCombine e) (snd bs)
         | Inr batch \<Rightarrow>
             if pl_RecordIDs batch = [] then complete (snd bs)
             else case marshalMemorySnapshotPages cd (marshalMemorySnapshotWithLimit cd maxBytes) (pl_Snapshot batch) maxBytes of
                    None \<Rightarrow> None
                  | Some (Inl e) \<Rightarrow> requeue (FlushEncode e) (snd bs)
                  | Some (Inr bodies) \<Rightarrow>
                      (let (ended, successfulPeers, flushErrors, store) =
                             send_batch nodeID cancelled post (sn_Watermarks (pl_Snapshot batch)) peers (0, [], snd bs)
                       in if ended then requeue FlushCancelled store
                          else if successfulPeers = 0 then requeue (if flushErrors = [] then NoHealthyPeers else ReplicateFailed flushErrors) store
                          else if flushErrors \<noteq> [] then requeue (ReplicateFailed flushErrors) store
                          else complete store))"

definition flushToCluster ::
  "mem_codec \<Rightarrow> string \<Rightarrow> int \<Rightarrow> bool \<Rightarrow> sync_peer list \<Rightarrow> (string \<Rightarrow> bool) \<Rightarrow> (string \<Rightarrow> bool) \<Rightarrow> sync_buffer \<times> memory_store \<Rightarrow>
     (flush_error option \<times> sync_buffer \<times> memory_store) option" where
  "flushToCluster cd nodeID maxBytes ended peers cancelled post bs =
     (if ended then Some (Some FlushCancelled, bs)
      else if sb_memoryBuffer (fst bs) = [] then Some (None, bs)
      else finish_flush cd nodeID maxBytes peers cancelled post (sb_memoryBuffer (fst bs)) ((fst bs)\<lparr>sb_memoryBuffer := []\<rparr>, snd bs))"

text \<open>A coordinator with a flush that may be under way; what it was asked to send and what every peer has accepted is recorded beside it.\<close>

record flush_run =
  fr_buffer :: sync_buffer
  fr_inflight :: "mem_payload list option"
  fr_store :: memory_store
  fr_asked :: "string set"
  fr_delivered :: "string set"

datatype flush_event =
    BufferSnapshot mem_snapshot
  | BeginFlush
  | EndFlush "sync_peer list" "string \<Rightarrow> bool" "string \<Rightarrow> bool"

fun flush_step :: "mem_codec \<Rightarrow> string \<Rightarrow> int \<Rightarrow> flush_event \<Rightarrow> flush_run \<Rightarrow> flush_run" where
  "flush_step cd nodeID maxBytes (BufferSnapshot sn) r =
     (case PayloadFromSnapshot cd sn of
        Inl _ \<Rightarrow> r
      | Inr payload \<Rightarrow> r\<lparr>fr_buffer := bufferMemoryPayload cd payload (fr_buffer r), fr_asked := fr_asked r \<union> set (pl_RecordIDs payload)\<rparr>)"
| "flush_step cd nodeID maxBytes BeginFlush r =
     (if fr_inflight r \<noteq> None \<or> sb_memoryBuffer (fr_buffer r) = [] then r
      else r\<lparr>fr_inflight := Some (sb_memoryBuffer (fr_buffer r)), fr_buffer := (fr_buffer r)\<lparr>sb_memoryBuffer := []\<rparr>\<rparr>)"
| "flush_step cd nodeID maxBytes (EndFlush peers cancelled post) r =
     (case fr_inflight r of
        None \<Rightarrow> r
      | Some payloads \<Rightarrow>
          (case finish_flush cd nodeID maxBytes peers cancelled post payloads (fr_buffer r, fr_store r) of
             None \<Rightarrow> r
           | Some (err, b, store) \<Rightarrow>
               r\<lparr>fr_buffer := b, fr_store := store, fr_inflight := None,
                 fr_delivered := fr_delivered r \<union> (if err = None then (\<Union>p \<in> set payloads. set (pl_RecordIDs p)) else {})\<rparr>))"

definition waiting :: "flush_run \<Rightarrow> mem_payload list" where
  "waiting r = (case fr_inflight r of None \<Rightarrow> [] | Some payloads \<Rightarrow> payloads) @ sb_memoryBuffer (fr_buffer r)"

abbreviation payloads_ids :: "mem_payload list \<Rightarrow> string list" where
  "payloads_ids ps \<equiv> concat (map pl_RecordIDs ps)"

definition buffer_ok :: "mem_codec \<Rightarrow> flush_run \<Rightarrow> bool" where
  "buffer_ok cd r \<longleftrightarrow>
     (\<forall>p \<in> set (waiting r). payload_ok cd p) \<and> distinct (payloads_ids (waiting r)) \<and>
     sb_memoryRecordIDs (fr_buffer r) = set (payloads_ids (waiting r)) \<and> fr_asked r \<subseteq> fr_delivered r \<union> set (payloads_ids (waiting r))"

lemma buffer_snapshot_ok:
  assumes "buffer_ok cd r" "PayloadFromSnapshot cd sn = Inr payload"
  shows "buffer_ok cd (r\<lparr>fr_buffer := bufferMemoryPayload cd payload (fr_buffer r), fr_asked := fr_asked r \<union> set (pl_RecordIDs payload)\<rparr>)"
proof -
  let ?b = "fr_buffer r"
  have "payload_ok cd payload" using assms(2) by (auto simp: PayloadFromSnapshot_def payload_ok_def split: sum.splits)
  note p = payload_ids [OF this]
  obtain q where q: "PayloadDifference cd payload (sb_memoryRecordIDs ?b) = Inr q" using PayloadDifference_total [OF p(1)] by blast
  note d = PayloadDifference_ok [OF q]
  have ids: "set (pl_RecordIDs q) = set (pl_RecordIDs payload) - sb_memoryRecordIDs ?b" using d(2) p(3) by simp
  show ?thesis
  proof (cases "pl_RecordIDs payload = [] \<or> pl_RecordIDs q = []")
    case True
    then have "bufferMemoryPayload cd payload ?b = ?b" using q by (auto simp: bufferMemoryPayload_def)
    moreover have "set (pl_RecordIDs payload) \<subseteq> sb_memoryRecordIDs ?b" using True ids by auto
    ultimately show ?thesis using assms(1) by (auto simp: buffer_ok_def waiting_def)
  next
    case False
    then have "bufferMemoryPayload cd payload ?b =
        \<lparr>sb_memoryBuffer = sb_memoryBuffer ?b @ [q], sb_memoryRecordIDs = sb_memoryRecordIDs ?b \<union> set (pl_RecordIDs q)\<rparr>" using q by (simp add: bufferMemoryPayload_def)
    moreover have "distinct (pl_RecordIDs q)" by (rule payload_ids(2) [OF d(1)])
    moreover have "waiting (r\<lparr>fr_buffer := \<lparr>sb_memoryBuffer = sb_memoryBuffer ?b @ [q], sb_memoryRecordIDs = i\<rparr>, fr_asked := j\<rparr>) = waiting r @ [q]" for i j
      by (simp add: waiting_def)
    ultimately show ?thesis using assms(1) d(1) ids unfolding buffer_ok_def by auto
  qed
qed

lemma finish_flush_cases:
  assumes "finish_flush cd nodeID maxBytes peers cancelled post payloads (b, s) = Some (err, b', s')"
  shows "err = None \<and> b' = complete_flush payloads b \<or> err \<noteq> None \<and> b' = restoreMemoryPayloads payloads b"
  using assms by (auto simp: finish_flush_def Let_def split: sum.splits if_splits option.splits prod.splits)

lemma end_flush_ok:
  assumes "buffer_ok cd r" "fr_inflight r = Some payloads"
    "finish_flush cd nodeID maxBytes peers cancelled post payloads (fr_buffer r, fr_store r) = Some (err, b, store)"
  shows "buffer_ok cd (r\<lparr>fr_buffer := b, fr_store := store, fr_inflight := None,
    fr_delivered := fr_delivered r \<union> (if err = None then (\<Union>p \<in> set payloads. set (pl_RecordIDs p)) else {})\<rparr>)"
  using finish_flush_cases [OF assms(3)] assms(1,2)
  by (elim disjE) (auto simp: buffer_ok_def waiting_def complete_flush_def restoreMemoryPayloads_def)

lemma flush_step_ok: "buffer_ok cd r \<Longrightarrow> buffer_ok cd (flush_step cd nodeID maxBytes ev r)"
proof (cases ev)
  case (BufferSnapshot sn)
  assume "buffer_ok cd r"
  then show ?thesis using buffer_snapshot_ok by (auto simp: BufferSnapshot split: sum.split)
next
  case BeginFlush
  assume "buffer_ok cd r"
  then show ?thesis by (auto simp: BeginFlush buffer_ok_def waiting_def)
next
  case (EndFlush peers cancelled post)
  assume "buffer_ok cd r"
  then show ?thesis using end_flush_ok by (auto simp: EndFlush split: option.split)
qed

interpretation fb: step_system "flush_step cd nodeID maxBytes" "buffer_ok cd" for cd nodeID maxBytes
  by unfold_locales (rule flush_step_ok)

definition idle_run :: "memory_store \<Rightarrow> flush_run" where
  "idle_run store =
     \<lparr>fr_buffer = \<lparr>sb_memoryBuffer = [], sb_memoryRecordIDs = {}\<rparr>, fr_inflight = None, fr_store = store, fr_asked = {}, fr_delivered = {}\<rparr>"



text \<open>Every flush returns.\<close>

lemma marshal_ends: "marshalMemorySnapshotPages cd wrap sn maxBytes \<noteq> None"
proof
  assume "marshalMemorySnapshotPages cd wrap sn maxBytes = None"
  then obtain n where "SplitSnapshot cd sn maxBytes n = None"
    by (auto simp: marshalMemorySnapshotPages_def Let_def split: option.splits sum.splits if_splits)
  then show False using split_ends [of cd sn maxBytes n] by simp
qed

abbreviation reached :: "string \<Rightarrow> sync_peer \<Rightarrow> bool" where
  "reached nodeID p \<equiv> sp_Healthy p \<and> sp_ID p \<noteq> nodeID \<and> sp_Address p \<noteq> []"

lemma send_batch_counts:
  "send_batch nodeID cancelled post w peers (n, errs, s) = (False, n', errs', s') \<Longrightarrow>
     errs' = errs @ map sp_ID (filter (\<lambda>p. reached nodeID p \<and> \<not> post (sp_ID p)) peers) \<and>
     n' = n + length (filter (\<lambda>p. reached nodeID p \<and> post (sp_ID p)) peers)"
proof (induction peers arbitrary: n errs s)
  case (Cons p peers)
  from Cons.prems Cons.IH [of n "errs @ [sp_ID p]" s] Cons.IH [of "Suc n" errs] Cons.IH [of n errs s] show ?case by (auto split: if_splits)
qed simp

lemma finish_flush_sent:
  assumes "CombinePayloads cd payloads = Inr batch" "pl_RecordIDs batch \<noteq> []"
  shows "\<exists>err b' s'. finish_flush cd nodeID maxBytes peers cancelled post payloads (b, s) = Some (err, b', s') \<and>
    (if err = None
     then b' = complete_flush payloads b \<and> (\<exists>p \<in> set peers. reached nodeID p) \<and> (\<forall>p \<in> set peers. reached nodeID p \<longrightarrow> post (sp_ID p))
     else b' = restoreMemoryPayloads payloads b)"
proof (cases "marshalMemorySnapshotPages cd (marshalMemorySnapshotWithLimit cd maxBytes) (pl_Snapshot batch) maxBytes" rule: option_sum_cases)
  assume "marshalMemorySnapshotPages cd (marshalMemorySnapshotWithLimit cd maxBytes) (pl_Snapshot batch) maxBytes = None"
  then show ?thesis using marshal_ends by blast
next
  fix e
  assume "marshalMemorySnapshotPages cd (marshalMemorySnapshotWithLimit cd maxBytes) (pl_Snapshot batch) maxBytes = Some (Inl e)"
  then show ?thesis using assms by (simp add: finish_flush_def)
next
  fix bodies
  assume m: "marshalMemorySnapshotPages cd (marshalMemorySnapshotWithLimit cd maxBytes) (pl_Snapshot batch) maxBytes = Some (Inr bodies)"
  obtain ended n errs s' where sb: "send_batch nodeID cancelled post (sn_Watermarks (pl_Snapshot batch)) peers (0, [], s) = (ended, n, errs, s')"
    using prod_cases4 by blast
  show ?thesis
  proof (cases "\<not> ended \<and> n \<noteq> 0 \<and> errs = []")
    case True
    note c = send_batch_counts [OF sb [simplified True]]
    have "filter (\<lambda>p. reached nodeID p \<and> post (sp_ID p)) peers \<noteq> []" using c True by auto
    then have "\<exists>p \<in> set peers. reached nodeID p" by (auto simp: filter_empty_conv)
    moreover have "\<forall>p \<in> set peers. reached nodeID p \<longrightarrow> post (sp_ID p)" using c True by (auto simp: filter_empty_conv)
    ultimately have "\<exists>p \<in> set peers. reached nodeID p" "\<forall>p \<in> set peers. reached nodeID p \<longrightarrow> post (sp_ID p)" by blast+
    then show ?thesis using assms m sb True by (simp add: finish_flush_def)
  next
    case False
    then show ?thesis using assms m sb by (auto simp: finish_flush_def)
  qed
qed

text \<open>C35: every flush of a non-empty buffer returns. One that returns without an error has been accepted by every healthy peer, of which there is one, and empties the
  buffer; one that returns an error, because it was cancelled, a page could not be encoded or a peer refused it, leaves the buffer exactly as it was, so
  that the next flush sends the same records again.\<close>

theorem flush_outcome:
  assumes "\<forall>p \<in> set (sb_memoryBuffer b). payload_ok cd p \<and> pl_RecordIDs p \<noteq> [] \<and> gm_wf (sn_Watermarks (pl_Snapshot p)) \<and> set (pl_RecordIDs p) \<subseteq> sb_memoryRecordIDs b"
    "sb_memoryBuffer b \<noteq> []"
  shows "\<exists>err b' s'. flushToCluster cd nodeID maxBytes ended peers cancelled post (b, s) = Some (err, b', s') \<and>
    (if err = None
     then sb_memoryBuffer b' = [] \<and> (\<exists>p \<in> set peers. reached nodeID p) \<and> (\<forall>p \<in> set peers. reached nodeID p \<longrightarrow> post (sp_ID p))
     else b' = b)"
proof -
  let ?ps = "sb_memoryBuffer b" and ?b = "b\<lparr>sb_memoryBuffer := []\<rparr>"
  have restore: "restoreMemoryPayloads ?ps ?b = b" using assms(1) by (cases b) (auto simp: restoreMemoryPayloads_def)
  have "\<forall>r \<in> set (all_records ?ps). \<not> isl (record_id cd r)" using payload_ids(1) assms(1) by auto
  moreover have "\<forall>p \<in> set ?ps. gm_wf (sn_Watermarks (pl_Snapshot p))" using assms(1) by blast
  ultimately obtain batch where c: "CombinePayloads cd ?ps = Inr batch"
    "pl_RecordIDs batch = map (id_of cd) (first_of_each (id_of cd) {} (all_records ?ps))" by (metis combine_ok)
  have h: "hd ?ps \<in> set ?ps" using assms(2) by simp
  then have "data_records (pl_Snapshot (hd ?ps)) \<noteq> []" using payload_ids(3) [of cd "hd ?ps"] assms(1) by fastforce
  then have "all_records ?ps \<noteq> []" using h by auto
  then have "pl_RecordIDs batch \<noteq> []" using c(2) first_of_each_set [of "id_of cd" "{}" "all_records ?ps"] by auto
  from finish_flush_sent [OF c(1) this, of nodeID maxBytes peers cancelled post ?b s, unfolded restore] obtain err b' s' where
    f: "finish_flush cd nodeID maxBytes peers cancelled post ?ps (?b, s) = Some (err, b', s')" and
    o: "if err = None then b' = complete_flush ?ps ?b \<and> (\<exists>p \<in> set peers. reached nodeID p) \<and> (\<forall>p \<in> set peers. reached nodeID p \<longrightarrow> post (sp_ID p))
       else b' = b" by blast
  have "flushToCluster cd nodeID maxBytes ended peers cancelled post (b, s) = (if ended then Some (Some FlushCancelled, b, s) else Some (err, b', s'))"
    using assms(2) f by (simp add: flushToCluster_def)
  then show ?thesis using o by (cases ended; cases err) (simp_all add: complete_flush_def)
qed

definition sample_payload :: mem_payload where
  "sample_payload = \<lparr>pl_RecordIDs = [''fact:peer:1'', ''performance:legacy:n'', ''dialogue:legacy:d''], pl_Snapshot = sample_snapshot\<rparr>"

lemma sample_payload_ok: "payload_ok sample_codec sample_payload"
  by (unfold payload_ok_def, code_simp)

theorem combined_batch_exact_witness:
  "\<exists>batch. CombinePayloads sample_codec [sample_payload, sample_payload] = Inr batch \<and>
     set (pl_RecordIDs batch) = id_of sample_codec ` set (data_records sample_snapshot) \<and> distinct (pl_RecordIDs batch)"
  using combined_batch_exact [of "[sample_payload, sample_payload]" sample_codec] payload_ids(1) [OF sample_payload_ok]
  by (auto simp: sample_payload_def sample_snapshot_def gm_wf_def)

theorem flush_outcome_witness:
  "\<exists>b' s'. flushToCluster sample_codec ''me'' 100 True [] (\<lambda>_. False) (\<lambda>_. True)
     (\<lparr>sb_memoryBuffer = [sample_payload], sb_memoryRecordIDs = set (pl_RecordIDs sample_payload)\<rparr>, NewInMemoryStore 1) = Some (Some FlushCancelled, b', s') \<and>
     sb_memoryBuffer b' = [sample_payload]"
  using flush_outcome [of "\<lparr>sb_memoryBuffer = [sample_payload], sb_memoryRecordIDs = set (pl_RecordIDs sample_payload)\<rparr>" sample_codec "''me''" 100 True "[]" "\<lambda>_. False" "\<lambda>_. True" "NewInMemoryStore 1"]
    sample_payload_ok
  by (auto simp: flushToCluster_def sample_payload_def sample_snapshot_def gm_wf_def)

end
