(* ===== verification/Spec2Isabelle.thy ===== *)
theory Spec2Isabelle
  imports Task_Sync Shard_Plan Router_Breaker Router_Limits Dispatch_Gate Consensus_Log Memory_Batch
begin

text \<open>
  A verification library for mAIstr0, a coordinator written in Go that splits requests into graphs of
  subtasks, dispatches them to the inference nodes of a cluster, keeps their state through crashes and
  between coordinators, and plans how large models are sharded over nodes. Paths below are relative to
  the directory \<^verbatim>\<open>internal\<close> of the sources.

  \<^bold>\<open>The parts and how they interact.\<close> A request becomes a plan, a list of subtasks with dependencies
  (\<^verbatim>\<open>scheduler/decompose.go\<close>, \<^verbatim>\<open>agents.go\<close>), and the plan a graph (\<^verbatim>\<open>scheduler/graph.go\<close>). The task
  manager (\<^verbatim>\<open>taskmgr\<close>) owns the tasks: it hands out subtasks whose dependencies are done, records attempts
  and results, takes checkpoints, saves through a store, recovers after a restart and answers queries. Its
  tasks are replicated to other coordinators in pages (\<^verbatim>\<open>syncpage/page.go\<close>, \<^verbatim>\<open>taskmgr/sync.go\<close>,
  \<^verbatim>\<open>orchestrator/task_history_sync.go\<close>). The shard planner (\<^verbatim>\<open>shard\<close>) places the layers of a model on devices.
  The router guards nodes by circuit breakers and clients by limits (\<^verbatim>\<open>orchestrator/router_breaker.go\<close>,
  \<^verbatim>\<open>router_client_limits.go\<close>), dispatch by gates of capacity (\<^verbatim>\<open>orchestrator/capacity_gate.go\<close>). The consensus layer
  (\<^verbatim>\<open>consensus\<close>) is a replicated map under Raft. Every node keeps a memory of experiences, facts, performances and dialogues
  (\<^verbatim>\<open>memory\<close>) and exchanges it with its coordinator (\<^verbatim>\<open>nodeagent\<close>).

  \<^bold>\<open>The theories.\<close>
  \<^item> \<open>Prelude\<close>: Go maps as association lists, the laws of reading and writing them, lists updated at the
    first match, and the collection of rewrite rules. \<open>Go_Text\<close>: the parts of \<^verbatim>\<open>strings\<close>, \<^verbatim>\<open>strconv\<close> and
    \<^verbatim>\<open>fmt\<close> that the program uses, on strings of bytes. \<open>Step_System\<close>: the locale of components driven by
    events, with its lemmas on histories.
  \<^item> \<open>Task_Graph\<close> (\<^verbatim>\<open>scheduler/graph.go\<close>): \<open>AddNode\<close>, \<open>AddEdge\<close>, \<open>AddChain\<close>, \<open>AddParallelGroup\<close>, \<open>Validate\<close>,
    \<open>TopologicalSort\<close>, \<open>ReadyNodes\<close>. Validation accepts exactly the acyclic graphs with known end points, the sort
    is a permutation in dependency order, ready nodes exist while work is left, and the builders keep the
    graphs well formed.
  \<^item> \<open>Task_Plan\<close> (\<^verbatim>\<open>scheduler/agents.go\<close>, \<^verbatim>\<open>decompose.go\<close>): \<open>ValidatePlan\<close> and its normal form, plans that become
    schedulable graphs, the synthesis step.
  \<^item> \<open>Task_Store\<close> (\<^verbatim>\<open>taskmgr/model.go\<close>, \<^verbatim>\<open>checkpoint.go\<close>, \<^verbatim>\<open>memorystore.go\<close>): tasks, checkpoints, the frontier, the
    \<^verbatim>\<open>Store\<close> interface as the record \<open>store_ops\<close> with the locale \<open>task_store\<close>, interpreted on the in-memory store.
  \<^item> \<open>Task_Manager\<close> (\<^verbatim>\<open>taskmgr/lifecycle.go\<close>, \<^verbatim>\<open>dispatch_attempts.go\<close>, \<^verbatim>\<open>checkpoint.go\<close>): every operation that changes
    a task, with the step relation of their interleavings; an operation that releases its lock to run a finalizer is
    split in two steps. The invariant of the manager, finality of finished work, at most one winning
    attempt, fresh identifiers and growing sequences.
  \<^item> \<open>Task_Query\<close> (\<^verbatim>\<open>taskmgr/deps.go\<close>, \<^verbatim>\<open>query.go\<close>, \<^verbatim>\<open>paging.go\<close>): waiting for dependencies, inputs, the cache of
    recent tasks as a refinement of the history, and pages that enumerate it.
  \<^item> \<open>Task_Recovery\<close> (\<^verbatim>\<open>taskmgr/recovery.go\<close>): loading a store and settling what a crash interrupted, in the locale
    \<open>reliable_store\<close> which extends \<open>task_store\<close>; finished work survives any number of restarts.
  \<^item> \<open>Sync_Page\<close> (\<^verbatim>\<open>syncpage/page.go\<close>) and \<open>Task_Sync\<close> (\<^verbatim>\<open>taskmgr/sync.go\<close>, \<^verbatim>\<open>sync_pages.go\<close>,
    \<^verbatim>\<open>orchestrator/task_history_sync.go\<close>): pages by byte size, the loop that splits a history, the ways of taking
    in tasks; a pushed history arrives completely and a replica agrees with it afterwards.
  \<^item> \<open>Shard_Memory\<close> (\<^verbatim>\<open>shard/profile.go\<close>, \<^verbatim>\<open>plan_memory.go\<close>, \<^verbatim>\<open>plan_placement.go\<close>) and \<open>Shard_Plan\<close> (\<^verbatim>\<open>shard/plan.go\<close>,
    \<^verbatim>\<open>plan_validation.go\<close>, \<^verbatim>\<open>plan_llama.go\<close>, \<^verbatim>\<open>plan_vllm.go\<close>): sizes on 64-bit words, the binary search for the layers
    that fit, the proportional distribution, both planners. The arithmetic is exact or refused, plans cover every
    layer once and fit in memory, and a plan is found whenever there is room.
  \<^item> \<open>Router_Breaker\<close> (\<^verbatim>\<open>orchestrator/router_breaker.go\<close>): the table of breakers under any history of
    operations; its states, one probe at a time, tripping and recovery. \<open>Router_Limits\<close>
    (\<^verbatim>\<open>orchestrator/router_client_limits.go\<close>): concurrency and rate of each client stay within the configured limits.
  \<^item> \<open>Dispatch_Gate\<close> (\<^verbatim>\<open>orchestrator/node_dispatch_gate.go\<close>, \<^verbatim>\<open>capacity_gate.go\<close>): reservations of capacity under any
    interleaving stay within the global number of slots, gates count what they admitted, releasing never panics.
  \<^item> \<open>Consensus_Log\<close> (\<^verbatim>\<open>consensus/fsm.go\<close>, parts of \<^verbatim>\<open>bolt_store.go\<close> and \<^verbatim>\<open>node.go\<close>): applying committed entries once,
    snapshots, and the rebuilt state after a restart.
  \<^item> \<open>Memory_Records\<close>, \<open>Memory_Store\<close> and \<open>Memory_Invariant\<close> (\<^verbatim>\<open>memory/memory.go\<close>, \<^verbatim>\<open>inmemory.go\<close>, \<^verbatim>\<open>inmemory_records.go\<close>,
    \<^verbatim>\<open>inmemory_performance.go\<close>, parts of \<^verbatim>\<open>sync.go\<close>): the records with their stamps, every operation that changes a store, and
    merges. The locale \<open>absorbing_merge\<close> states what makes merging repeatable and is interpreted on the merge of every kind of record;
    merging a snapshot again changes nothing, and every operation keeps the invariant of the store.
  \<^item> \<open>Memory_Pages\<close> (\<^verbatim>\<open>memory/sync_pages.go\<close>) and \<open>Memory_Batch\<close> (\<^verbatim>\<open>memory/sync.go\<close>, \<^verbatim>\<open>nodeagent/memory_sync.go\<close>,
    \<^verbatim>\<open>syncer_component.go\<close>): snapshots in pages, the batches that a coordinator combines and flushes to its peers. Pages deliver every record
    once with the watermarks last, and no buffered record is lost by a flush that fails.

  \<^bold>\<open>Conventions.\<close> A Go string is a list of bytes (\<^typ>\<open>string\<close>), \<^verbatim>\<open>int\<close> is \<^typ>\<open>int\<close>, \<^verbatim>\<open>uint64\<close> a word of 64 bits whose wrap-around
  is kept, a \<^verbatim>\<open>float64\<close> its bit pattern, instants and durations are integers. A struct is a record with the
  field names of the source under a short prefix, an enumeration a datatype, a Go map an association list. Operations that
  change state return the new state; errors are values. The clock is an argument: a function from the number of a reading
  within an operation to an instant, or the reading itself. Locks are not modelled: an operation under a
  lock is one step. Encodings, hashes, databases and random numbers are parameters; what is assumed of
  them is named (\<open>faithful\<close>, \<open>codable\<close>, \<open>faithful_snapshots\<close>, the locale \<open>task_store\<close>) and shown satisfiable by a
  concrete instance in the witnesses.

  \<^bold>\<open>Loops, fuel and bounds.\<close> The work list of the topological sort has the number of nodes as fuel, and the
  depth-first search is proved to end with the fuel it is given; the theorems show that these suffice. The search for the
  layers that fit and the rounds of the distribution are total functions with measures. The page loops and the replay of a
  log are partial functions, and their theorems state that a result is returned. Sequences and identifiers of the memory are words; \<open>room\<close> says how many
  are left before they wrap around. Layer counts are below \<open>2 ^ 63\<close>, the range of
  \<^verbatim>\<open>int\<close>; the replay is below the greatest index, past which its counter would wrap around.

  \<^bold>\<open>Not modelled.\<close> The network: HTTP handlers, streaming, node clients, discovery, TLS and certificates, and third-party
  Raft. External processes and devices: engines, hardware probing, provisioning, self-update, the node agent. The bbolt databases below
  the store interfaces. Search, recommendations and learned bias of the memory, which are floating point and text. Assignment of subtasks to nodes, which scores nodes in floating point. The prompt
  heuristics and regular expressions of the decomposition, the parsers of model files. Blocking on channels and tickers:
  a wait is modelled as one round of its loop where its condition matters. Texts of messages,
  logging and metrics, command-line wiring and the web interface.
\<close>

end
